(* ===== verification/Prelude.thy ===== *)
theory Prelude
  imports Main "HOL-Library.Word"
begin

text \<open>
  What the components share: the machine integers and byte strings of the code, the Rust
  standard-library operations it calls on them (big-endian encoding, UTF-8 validation,
  \<^verbatim>\<open>str::trim\<close>, decimal formatting), the \<^verbatim>\<open>?\<close> operator on results, polls of a future, and
  the find-then-replace-or-push idiom on vectors that every upsert of the store uses.

  A Rust \<^verbatim>\<open>String\<close> is a \<^typ>\<open>string\<close> whose characters are its UTF-8 bytes, and a
  \<^verbatim>\<open>Vec<u8>\<close> is a list of 8-bit words.
\<close>

unbundle bit_operations_syntax

named_theorems store_simps "definitions of the store operations"
named_theorems noise_simps "definitions of the initiation and of the frames around the handshake"

type_synonym u8 = "8 word"
type_synonym u16 = "16 word"
type_synonym u32 = "32 word"
type_synonym u64 = "64 word"
type_synonym bytes = "8 word list"


subsection \<open>Results and polls\<close>

text \<open>\<^verbatim>\<open>Result<T, E>\<close> is \<open>'e + 't\<close>, with \<open>Inl\<close> for \<^verbatim>\<open>Err\<close>. The \<^verbatim>\<open>?\<close> operator and \<^verbatim>\<open>map_err\<close>.\<close>

definition and_then :: "'e + 'a \<Rightarrow> ('a \<Rightarrow> 'e + 'b) \<Rightarrow> 'e + 'b" where
  "and_then r f = (case r of Inl e \<Rightarrow> Inl e | Inr a \<Rightarrow> f a)"

definition map_err :: "('e \<Rightarrow> 'f) \<Rightarrow> 'e + 'a \<Rightarrow> 'f + 'a" where
  "map_err f r = (case r of Inl e \<Rightarrow> Inl (f e) | Inr a \<Rightarrow> Inr a)"

definition ok_or :: "'e \<Rightarrow> 'a option \<Rightarrow> 'e + 'a" where
  "ok_or e x = (case x of None \<Rightarrow> Inl e | Some a \<Rightarrow> Inr a)"

definition is_ok :: "'e + 'a \<Rightarrow> bool" where
  "is_ok r = (case r of Inl _ \<Rightarrow> False | Inr _ \<Rightarrow> True)"

lemma and_then_simps [simp]:
  "and_then (Inl e) f = Inl e" "and_then (Inr a) f = f a"
  by (simp_all add: and_then_def)

lemma map_err_simps [simp]:
  "map_err f (Inl e) = Inl (f e)" "map_err f (Inr a) = Inr a"
  by (simp_all add: map_err_def)

lemma ok_or_simps [simp]:
  "ok_or e None = Inl e" "ok_or e (Some a) = Inr a"
  by (simp_all add: ok_or_def)

lemma is_ok_simps [simp]: "\<not> is_ok (Inl e)" "is_ok (Inr a)"
  by (simp_all add: is_ok_def)

lemma and_then_eq_Inr: "and_then r f = Inr b \<longleftrightarrow> (\<exists>a. r = Inr a \<and> f a = Inr b)"
  by (cases r) auto

lemma map_err_eq_Inr [simp]: "map_err f r = Inr a \<longleftrightarrow> r = Inr a"
  by (cases r) auto

lemma ok_or_eq_Inr [simp]: "ok_or e x = Inr a \<longleftrightarrow> x = Some a"
  by (cases x) auto

datatype 'a poll = Pending | Ready 'a

text \<open>
  Of a \<^verbatim>\<open>std::io::Error\<close> the code inspects one kind only, \<^verbatim>\<open>NotFound\<close>; every other error carries
  its text.
\<close>

datatype io_error = NotFound | OtherIo string


subsection \<open>Big-endian integers\<close>

definition u16_to_be_bytes :: "u16 \<Rightarrow> bytes" where
  "u16_to_be_bytes w = [ucast (drop_bit 8 w), ucast w]"

definition u16_from_be_bytes :: "u8 \<Rightarrow> u8 \<Rightarrow> u16" where
  "u16_from_be_bytes a b = push_bit 8 (ucast a) OR ucast b"

definition u32_to_be_bytes :: "u32 \<Rightarrow> bytes" where
  "u32_to_be_bytes w =
     [ucast (drop_bit 24 w), ucast (drop_bit 16 w), ucast (drop_bit 8 w), ucast w]"

definition u32_from_be_bytes :: "u8 \<Rightarrow> u8 \<Rightarrow> u8 \<Rightarrow> u8 \<Rightarrow> u32" where
  "u32_from_be_bytes a b c d =
     push_bit 24 (ucast a) OR push_bit 16 (ucast b) OR push_bit 8 (ucast c) OR ucast d"

lemma u16_be_round_trip:
  "u16_from_be_bytes (u16_to_be_bytes w ! 0) (u16_to_be_bytes w ! 1) = w"
  by (rule bit_eqI) (auto simp: u16_from_be_bytes_def u16_to_be_bytes_def bit_simps)

lemma not_bit_u8_beyond [simp]: "\<not> bit (b :: u8) (8 + n)"
  using bit_imp_le_length [of b "8 + n"] by auto

lemma u16_from_to: "u16_to_be_bytes (u16_from_be_bytes a b) = [a, b]"
  by (auto simp: u16_from_be_bytes_def u16_to_be_bytes_def bit_simps intro!: bit_eqI)

lemma u32_be_round_trip:
  assumes "u32_to_be_bytes w = [a, b, c, d]"
  shows "u32_from_be_bytes a b c d = w"
proof (rule bit_word_eqI)
  fix n assume n: "n < LENGTH(32)"
  have abcd: "a = ucast (drop_bit 24 w)" "b = ucast (drop_bit 16 w)"
    "c = ucast (drop_bit 8 w)" "d = ucast w"
    using assms by (simp_all add: u32_to_be_bytes_def)
  consider "n < 8" | "8 \<le> n \<and> n < 16" | "16 \<le> n \<and> n < 24" | "24 \<le> n" by linarith
  then show "bit (u32_from_be_bytes a b c d) n \<longleftrightarrow> bit w n"
    using n by cases (auto simp: u32_from_be_bytes_def abcd bit_simps)
qed

lemma length_to_be_bytes [simp]:
  "length (u16_to_be_bytes w) = 2" "length (u32_to_be_bytes v) = 4"
  by (simp_all add: u16_to_be_bytes_def u32_to_be_bytes_def)

text \<open>\<^verbatim>\<open>n as u16\<close> and \<^verbatim>\<open>n as u32\<close> on a \<^verbatim>\<open>usize\<close> truncate: \<open>of_nat\<close> on words does the same.\<close>

definition usize_as_u16 :: "nat \<Rightarrow> u16" where
  "usize_as_u16 n = of_nat n"

definition usize_as_u32 :: "nat \<Rightarrow> u32" where
  "usize_as_u32 n = of_nat n"

lemma unat_usize_as_u32: "n < 2 ^ 32 \<Longrightarrow> unat (usize_as_u32 n) = n"
  by (simp add: usize_as_u32_def unat_of_nat)

lemma unat_usize_as_u16: "n < 2 ^ 16 \<Longrightarrow> unat (usize_as_u16 n) = n"
  by (simp add: usize_as_u16_def unat_of_nat)


subsection \<open>Strings\<close>

definition str_bytes :: "string \<Rightarrow> bytes" where
  "str_bytes s = map (\<lambda>c. of_nat (of_char c)) s"

definition bytes_str :: "bytes \<Rightarrow> string" where
  "bytes_str bs = map (\<lambda>b. char_of (unat b)) bs"

lemma bytes_str_str_bytes [simp]: "bytes_str (str_bytes s) = s"
proof -
  have "char_of (unat (of_nat (of_char c) :: u8)) = c" for c
    by (simp add: unat_of_nat)
  then show ?thesis by (simp add: bytes_str_def str_bytes_def comp_def)
qed

lemma length_str_bytes [simp]: "length (str_bytes s) = length s"
  by (simp add: str_bytes_def)

lemma str_bytes_inject [simp]: "str_bytes s = str_bytes t \<longleftrightarrow> s = t"
  by (metis bytes_str_str_bytes)

text \<open>
  \<^verbatim>\<open>format!("{n}")\<close> on an unsigned integer: the decimal digits, most significant first.
\<close>

fun show_dec :: "nat \<Rightarrow> string" where
  "show_dec n =
     (if n < 10 then [char_of (48 + n)] else show_dec (n div 10) @ [char_of (48 + n mod 10)])"

declare show_dec.simps [simp del]

lemma digit_char_inject:
  assumes "m < 10" "n < 10" "(char_of (48 + m) :: char) = char_of (48 + n)"
  shows "m = (n :: nat)"
proof -
  have "(of_char (char_of (48 + m) :: char) :: nat) = of_char (char_of (48 + n) :: char)"
    using assms(3) by simp
  then show ?thesis using assms(1,2) by simp
qed

lemma show_dec_nonempty [simp]: "show_dec n \<noteq> []" "[] \<noteq> show_dec n"
  by (subst show_dec.simps, simp)+

text \<open>Distinct numbers print differently.\<close>

lemma show_dec_inject: "show_dec m = show_dec n \<Longrightarrow> m = n"
proof (induction m arbitrary: n rule: show_dec.induct)
  case (1 m)
  have m: "show_dec m = (if m < 10 then [char_of (48 + m)]
      else show_dec (m div 10) @ [char_of (48 + m mod 10)])" by (subst show_dec.simps) simp
  have n: "show_dec n = (if n < 10 then [char_of (48 + n)]
      else show_dec (n div 10) @ [char_of (48 + n mod 10)])" by (subst show_dec.simps) simp
  show ?case
  proof (cases "m < 10 \<or> n < 10")
    case True
    with "1.prems" m n have "m < 10" "n < 10" by (auto split: if_splits)
    with "1.prems" m n show ?thesis using digit_char_inject by simp
  next
    case False
    then have big: "\<not> m < 10" "\<not> n < 10" by simp_all
    with "1.prems" m n have tens: "show_dec (m div 10) = show_dec (n div 10)"
      and ones: "(char_of (48 + m mod 10) :: char) = char_of (48 + n mod 10)" by simp_all
    have "m div 10 = n div 10" using big(1) tens by (rule "1.IH")
    moreover have "m mod 10 = n mod 10"
      using ones by (intro digit_char_inject) simp_all
    ultimately show ?thesis by (metis div_mult_mod_eq)
  qed
qed

text \<open>
  \<^verbatim>\<open>std::str::from_utf8\<close>: \<open>utf8_strip\<close> removes one well-formed encoded scalar value
  (no overlong forms, no surrogates, nothing above U+10FFFF) from the front of a non-empty
  byte sequence, and a sequence is valid when it can be used up that way.
\<close>

definition utf8_cont :: "u8 \<Rightarrow> bool" where
  "utf8_cont b \<longleftrightarrow> 0x80 \<le> b \<and> b \<le> 0xBF"

fun utf8_strip :: "bytes \<Rightarrow> bytes option" where
  "utf8_strip [] = None"
| "utf8_strip (b # bs) =
     (if b < 0x80 then Some bs
      else if 0xC2 \<le> b \<and> b \<le> 0xDF then
        (case bs of c # r \<Rightarrow> if utf8_cont c then Some r else None | _ \<Rightarrow> None)
      else if 0xE0 \<le> b \<and> b \<le> 0xEF then
        (case bs of
           c # d # r \<Rightarrow>
             if utf8_cont c \<and> utf8_cont d \<and> (b = 0xE0 \<longrightarrow> 0xA0 \<le> c) \<and> (b = 0xED \<longrightarrow> c \<le> 0x9F)
             then Some r else None
         | _ \<Rightarrow> None)
      else if 0xF0 \<le> b \<and> b \<le> 0xF4 then
        (case bs of
           c # d # e # r \<Rightarrow>
             if utf8_cont c \<and> utf8_cont d \<and> utf8_cont e
                \<and> (b = 0xF0 \<longrightarrow> 0x90 \<le> c) \<and> (b = 0xF4 \<longrightarrow> c \<le> 0x8F)
             then Some r else None
         | _ \<Rightarrow> None)
      else None)"

lemma utf8_strip_shorter: "utf8_strip bs = Some r \<Longrightarrow> length r < length bs"
  by (cases bs) (auto split: if_splits list.splits)

function valid_utf8 :: "bytes \<Rightarrow> bool" where
  "valid_utf8 bs =
     (if bs = [] then True
      else case utf8_strip bs of None \<Rightarrow> False | Some r \<Rightarrow> valid_utf8 r)"
  by pat_completeness auto
termination
  by (relation "measure length") (auto dest: utf8_strip_shorter)

declare valid_utf8.simps [simp del]

definition from_utf8 :: "bytes \<Rightarrow> string option" where
  "from_utf8 bs = (if valid_utf8 bs then Some (bytes_str bs) else None)"

lemma from_utf8_str_bytes: "valid_utf8 (str_bytes s) \<Longrightarrow> from_utf8 (str_bytes s) = Some s"
  by (simp add: from_utf8_def)

lemma valid_utf8_Nil [simp]: "valid_utf8 []"
  by (simp add: valid_utf8.simps)

lemma valid_utf8_ascii: "\<forall>b \<in> set bs. b < 0x80 \<Longrightarrow> valid_utf8 bs"
proof (induction bs)
  case (Cons b bs)
  then show ?case by (subst valid_utf8.simps) simp
qed simp

text \<open>
  \<^verbatim>\<open>str::trim\<close>: the characters with the Unicode property White_Space, in UTF-8, removed from
  both ends. UTF-8 is self-synchronising, so stripping encoded characters byte-wise removes
  exactly these characters.
\<close>

definition white_space :: "string list" where
  "white_space =
     map (\<lambda>n. [char_of (n :: nat)]) [9, 10, 11, 12, 13, 32]
     @ map (map (char_of :: nat \<Rightarrow> char))
         ([[0xC2, 0x85], [0xC2, 0xA0], [0xE1, 0x9A, 0x80]]
          @ map (\<lambda>n. [0xE2, 0x80, n])
              [0x80, 0x81, 0x82, 0x83, 0x84, 0x85, 0x86, 0x87, 0x88, 0x89, 0x8A, 0xA8, 0xA9, 0xAF]
          @ [[0xE2, 0x81, 0x9F], [0xE3, 0x80, 0x80]])"

fun strip_any :: "string list \<Rightarrow> string \<Rightarrow> string option" where
  "strip_any [] s = None"
| "strip_any (w # ws) s =
     (if w \<noteq> [] \<and> take (length w) s = w then Some (drop (length w) s) else strip_any ws s)"

lemma strip_any_shorter: "strip_any ws s = Some r \<Longrightarrow> length r < length s"
proof (induction ws)
  case (Cons w ws)
  show ?case
  proof (cases "w \<noteq> [] \<and> take (length w) s = w")
    case True
    then have "length w \<le> length s" "0 < length w" by (metis length_take min.cobounded1, simp)
    moreover from True Cons.prems have "length r = length s - length w" by auto
    ultimately show ?thesis by linarith
  next
    case False
    with Cons show ?thesis by (auto split: if_splits)
  qed
qed simp

function trim_with :: "string list \<Rightarrow> string \<Rightarrow> string" where
  "trim_with ws s = (case strip_any ws s of None \<Rightarrow> s | Some r \<Rightarrow> trim_with ws r)"
  by pat_completeness auto
termination
  by (relation "measure (length \<circ> snd)") (auto dest: strip_any_shorter)

declare trim_with.simps [simp del]

definition trim_start :: "string \<Rightarrow> string" where
  "trim_start s = trim_with white_space s"

definition trim_end :: "string \<Rightarrow> string" where
  "trim_end s = rev (trim_with (map rev white_space) (rev s))"

definition str_trim :: "string \<Rightarrow> string" where
  "str_trim s = trim_end (trim_start s)"


subsection \<open>Vectors searched and updated in place\<close>

text \<open>
  \<^verbatim>\<open>xs.iter_mut().find(|y| p(y))\<close> gives a mutable reference to the first match, that is its
  index; writing through it is a list update there, and the \<^verbatim>\<open>else\<close> branch pushes at the end.
\<close>

fun find_index :: "('a \<Rightarrow> bool) \<Rightarrow> 'a list \<Rightarrow> nat option" where
  "find_index p [] = None"
| "find_index p (x # xs) = (if p x then Some 0 else map_option Suc (find_index p xs))"

definition upsert_by :: "('a \<Rightarrow> 'k) \<Rightarrow> 'a \<Rightarrow> 'a list \<Rightarrow> 'a list" where
  "upsert_by key x xs =
     (case find_index (\<lambda>y. key y = key x) xs of
        Some i \<Rightarrow> xs[i := x]
      | None \<Rightarrow> xs @ [x])"

lemma upsert_by_simps [simp]:
  "upsert_by key x [] = [x]"
  "upsert_by key x (y # ys) = (if key y = key x then x # ys else y # upsert_by key x ys)"
  by (auto simp: upsert_by_def split: option.splits)

text \<open>
  A vector of rows with a key column, read as the finite map its first matches form. The
  lemmas say what an upsert and a retain do to that map, to the set of rows and to the
  distinctness of the keys.
\<close>

definition row :: "('a \<Rightarrow> 'k) \<Rightarrow> 'a list \<Rightarrow> 'k \<Rightarrow> 'a option" where
  "row key xs k = find (\<lambda>y. key y = k) xs"

lemma row_Nil [simp]: "row key [] k = None"
  by (simp add: row_def)

lemma row_Cons [simp]: "row key (x # xs) k = (if key x = k then Some x else row key xs k)"
  by (simp add: row_def)

lemma row_Some_key: "row key xs k = Some x \<Longrightarrow> key x = k"
  by (induction xs) (auto split: if_splits)

lemma row_Some_in: "row key xs k = Some x \<Longrightarrow> x \<in> set xs"
  by (induction xs) (auto split: if_splits)

lemma row_None_iff: "row key xs k = None \<longleftrightarrow> k \<notin> key ` set xs"
  by (induction xs) auto

lemma row_upsert [simp]: "row key (upsert_by key x xs) = (row key xs)(key x \<mapsto> x)"
  by (induction xs) (auto simp: fun_eq_iff)

lemma row_retain [simp]:
  "row key (filter (\<lambda>y. key y \<noteq> i) xs) = (row key xs)(i := None)"
  by (induction xs) (auto simp: fun_eq_iff)

lemma keys_upsert: "key ` set (upsert_by key x xs) = insert (key x) (key ` set xs)"
  by (induction xs) auto

lemma distinct_upsert [simp]:
  "distinct (map key xs) \<Longrightarrow> distinct (map key (upsert_by key x xs))"
proof (induction xs)
  case (Cons y ys)
  have "key y \<notin> key ` set (upsert_by key x ys)" if "key y \<noteq> key x"
    using Cons.prems that by (simp add: keys_upsert)
  with Cons show ?case by auto
qed simp

lemma distinct_retain [simp]: "distinct (map key xs) \<Longrightarrow> distinct (map key (filter P xs))"
  by (induction xs) auto

lemma set_row: "distinct (map key xs) \<Longrightarrow> set xs = ran (row key xs)"
proof (induction xs)
  case (Cons x xs)
  then have "key x \<notin> key ` set xs" by simp
  then have "row key xs (key x) = None" by (simp add: row_None_iff)
  moreover have "row key (x # xs) = (row key xs)(key x \<mapsto> x)" by (simp add: fun_eq_iff)
  ultimately have "ran (row key (x # xs)) = insert x (ran (row key xs))" by simp
  with Cons show ?case by (simp del: row_Cons)
qed (simp add: ran_def)

lemma find_index_Some:
  "find_index p xs = Some i \<Longrightarrow> i < length xs \<and> p (xs ! i) \<and> (\<forall>j < i. \<not> p (xs ! j))"
proof (induction xs arbitrary: i)
  case (Cons x xs)
  then show ?case by (auto split: if_splits simp: nth_Cons split: nat.splits)
qed simp

lemma find_index_None: "find_index p xs = None \<longleftrightarrow> (\<forall>x \<in> set xs. \<not> p x)"
  by (induction xs) auto

lemma find_via_index: "find p xs = map_option (\<lambda>i. xs ! i) (find_index p xs)"
  by (induction xs) (auto simp: option.map_comp comp_def)

end
