(* ===== verification/Store_Types.thy ===== *)
theory Store_Types
  imports Prelude
begin

text \<open>
  The domain aggregates of \<^verbatim>\<open>store/types.rs\<close>, the snapshot document of
  \<^verbatim>\<open>store/document.rs\<close>, the error type of \<^verbatim>\<open>store/error.rs\<close> and the \<^verbatim>\<open>Store\<close> trait of
  \<^verbatim>\<open>store/traits.rs\<close> as a record of operations (the vtable of a \<^verbatim>\<open>dyn Store\<close>). Each record has
  the fields of the struct in its order; a field name that another struct also has carries a
  prefix. The four ids are newtypes over \<^verbatim>\<open>u64\<close>.
\<close>


subsection \<open>Identifiers\<close>

datatype network_id = NetworkId u64
datatype user_id = UserId u64
datatype node_id = NodeId u64
datatype preauth_key_id = PreAuthKeyId u64


subsection \<open>Aggregates\<close>

record network =
  net_id :: network_id
  net_name :: string
  server_host :: string
  ipv4_prefix :: string
  ipv6_prefix :: string
  noise_key_id :: string
  net_policy :: "string option"
  created_at :: string

record user =
  usr_id :: user_id
  usr_network_id :: network_id
  login_name :: string
  display_name :: string

record node =
  nod_id :: node_id
  nod_network_id :: network_id
  nod_user_id :: user_id
  machine_key :: string
  node_key :: string
  disco_key :: string
  nod_ipv4 :: "string option"
  nod_ipv6 :: "string option"
  nod_tags :: "string list"

record preauth_key =
  pak_id :: preauth_key_id
  pak_network_id :: network_id
  prefix :: string
  secret_hash :: string
  reusable :: bool
  ephemeral :: bool
  used :: bool
  expires_at :: "string option"
  pak_tags :: "string list"

text \<open>The on-disk envelope. The policies are a \<^verbatim>\<open>HashMap<NetworkId, String>\<close>.\<close>

record store_document =
  version :: u32
  networks :: "network list"
  users :: "user list"
  nodes :: "node list"
  preauth_keys :: "preauth_key list"
  policies :: "network_id \<rightharpoonup> string"


subsection \<open>Errors\<close>

datatype store_error = NotImplemented | Io io_error | Serde string


subsection \<open>The Store trait\<close>

text \<open>
  A backend with state \<open>'st\<close>. Every operation also takes what the world supplies during the
  call, \<open>'env\<close> (the clock, the outcome of file operations). A read returns a result and leaves
  the state alone (the code reads under the read lock); a write returns a result and the new
  state, error or not.
\<close>

record ('env, 'st) store_ops =
  list_networks :: "'env \<Rightarrow> 'st \<Rightarrow> store_error + network list"
  upsert_network :: "'env \<Rightarrow> network \<Rightarrow> 'st \<Rightarrow> (store_error + unit) \<times> 'st"
  list_users :: "'env \<Rightarrow> network_id \<Rightarrow> 'st \<Rightarrow> store_error + user list"
  upsert_user :: "'env \<Rightarrow> user \<Rightarrow> 'st \<Rightarrow> (store_error + unit) \<times> 'st"
  list_nodes :: "'env \<Rightarrow> network_id \<Rightarrow> 'st \<Rightarrow> store_error + node list"
  get_node :: "'env \<Rightarrow> node_id \<Rightarrow> 'st \<Rightarrow> store_error + node option"
  upsert_node :: "'env \<Rightarrow> node \<Rightarrow> 'st \<Rightarrow> (store_error + unit) \<times> 'st"
  delete_node :: "'env \<Rightarrow> node_id \<Rightarrow> 'st \<Rightarrow> (store_error + unit) \<times> 'st"
  list_preauth_keys :: "'env \<Rightarrow> network_id \<Rightarrow> 'st \<Rightarrow> store_error + preauth_key list"
  upsert_preauth_key :: "'env \<Rightarrow> preauth_key \<Rightarrow> 'st \<Rightarrow> (store_error + unit) \<times> 'st"
  consume_preauth_key :: "'env \<Rightarrow> preauth_key_id \<Rightarrow> 'st \<Rightarrow> (store_error + bool) \<times> 'st"
  get_policy :: "'env \<Rightarrow> network_id \<Rightarrow> 'st \<Rightarrow> store_error + string option"
  set_policy :: "'env \<Rightarrow> network_id \<Rightarrow> string \<Rightarrow> 'st \<Rightarrow> (store_error + unit) \<times> 'st"


subsection \<open>The well-formed documents\<close>

text \<open>
  No two rows of a table share an id. The code never checks this; it holds of a new store, and
  every operation keeps it.
\<close>

definition wf_doc :: "store_document \<Rightarrow> bool" where
  "wf_doc d \<longleftrightarrow>
     distinct (map net_id (networks d)) \<and> distinct (map usr_id (users d))
     \<and> distinct (map nod_id (nodes d)) \<and> distinct (map pak_id (preauth_keys d))"

lemma wf_docD:
  assumes "wf_doc d"
  shows "distinct (map net_id (networks d))" "distinct (map usr_id (users d))"
    "distinct (map nod_id (nodes d))" "distinct (map pak_id (preauth_keys d))"
  using assms by (simp_all add: wf_doc_def)

end
