(* ===== verification/Store_Contract.thy ===== *)
theory Store_Contract
  imports Store_Types
begin

text \<open>
  What the \<^verbatim>\<open>Store\<close> trait promises, independently of the backend: an abstract store of finite
  maps, one abstract transition per mutating operation, and the locale \<open>store_contract\<close> that a
  backend meets when an abstraction function maps each of its operations to the abstract one.
  The client lemmas (every run of operations simulates the abstract run, a single-use pre-auth
  key is redeemed at most once, exactly once when nothing fails) are proved once, inside the
  locale, and reach the backends by interpretation.
\<close>


subsection \<open>The abstract store\<close>

record store_spec =
  sp_networks :: "network_id \<rightharpoonup> network"
  sp_users :: "user_id \<rightharpoonup> user"
  sp_nodes :: "node_id \<rightharpoonup> node"
  sp_keys :: "preauth_key_id \<rightharpoonup> preauth_key"
  sp_policies :: "network_id \<rightharpoonup> string"

text \<open>
  What the \<^verbatim>\<open>chrono\<close> crate supplies: its RFC 3339 parser (\<open>None\<close> for the error case) and the
  instant \<^verbatim>\<open>Utc::now()\<close> returns during the call. Instants are integers.
\<close>

record chrono_env =
  parse_rfc3339 :: "string \<Rightarrow> int option"
  utc_now :: int

definition key_live :: "chrono_env \<Rightarrow> preauth_key \<Rightarrow> bool" where
  "key_live c k \<longleftrightarrow>
     (\<forall>ts. expires_at k = Some ts \<longrightarrow> (\<exists>t. parse_rfc3339 c ts = Some t \<and> utc_now c < t))"

text \<open>A key can be redeemed when it is live and, if single-use, not used yet.\<close>

definition redeemable :: "chrono_env \<Rightarrow> preauth_key \<Rightarrow> bool" where
  "redeemable c k \<longleftrightarrow> key_live c k \<and> (reusable k \<or> \<not> used k)"

definition spec_consumes :: "chrono_env \<Rightarrow> preauth_key_id \<Rightarrow> store_spec \<Rightarrow> bool" where
  "spec_consumes c i sp \<longleftrightarrow> (\<exists>k. sp_keys sp i = Some k \<and> redeemable c k)"


subsection \<open>Mutating operations as data, and runs of them\<close>

datatype store_op =
    UpsertNetwork network
  | UpsertUser user
  | UpsertNode node
  | DeleteNode node_id
  | UpsertPreauthKey preauth_key
  | ConsumePreauthKey preauth_key_id
  | SetPolicy network_id string

datatype reply = Done | Consumed bool

definition done_reply :: "store_error + unit \<Rightarrow> store_error + reply" where
  "done_reply r = and_then r (\<lambda>_. Inr Done)"

definition consumed_reply :: "store_error + bool \<Rightarrow> store_error + reply" where
  "consumed_reply r = and_then r (\<lambda>b. Inr (Consumed b))"

fun perform ::
  "('env, 'st) store_ops \<Rightarrow> 'env \<Rightarrow> store_op \<Rightarrow> 'st \<Rightarrow> (store_error + reply) \<times> 'st" where
  "perform S e (UpsertNetwork n) st = apfst done_reply (upsert_network S e n st)"
| "perform S e (UpsertUser u) st = apfst done_reply (upsert_user S e u st)"
| "perform S e (UpsertNode n) st = apfst done_reply (upsert_node S e n st)"
| "perform S e (DeleteNode i) st = apfst done_reply (delete_node S e i st)"
| "perform S e (UpsertPreauthKey k) st = apfst done_reply (upsert_preauth_key S e k st)"
| "perform S e (ConsumePreauthKey i) st = apfst consumed_reply (consume_preauth_key S e i st)"
| "perform S e (SetPolicy n p) st = apfst done_reply (set_policy S e n p st)"

fun run_ops ::
  "('env, 'st) store_ops \<Rightarrow> ('env \<times> store_op) list \<Rightarrow> 'st \<Rightarrow> (store_error + reply) list \<times> 'st"
where
  "run_ops S [] st = ([], st)"
| "run_ops S ((e, op) # ops) st =
     (let p = perform S e op st; q = run_ops S ops (snd p) in (fst p # fst q, snd q))"

text \<open>The abstract transition and the abstract reply.\<close>

fun spec_step :: "chrono_env \<Rightarrow> store_op \<Rightarrow> store_spec \<Rightarrow> store_spec" where
  "spec_step c (UpsertNetwork n) sp = sp\<lparr>sp_networks := (sp_networks sp)(net_id n \<mapsto> n)\<rparr>"
| "spec_step c (UpsertUser u) sp = sp\<lparr>sp_users := (sp_users sp)(usr_id u \<mapsto> u)\<rparr>"
| "spec_step c (UpsertNode n) sp = sp\<lparr>sp_nodes := (sp_nodes sp)(nod_id n \<mapsto> n)\<rparr>"
| "spec_step c (DeleteNode i) sp = sp\<lparr>sp_nodes := (sp_nodes sp)(i := None)\<rparr>"
| "spec_step c (UpsertPreauthKey k) sp = sp\<lparr>sp_keys := (sp_keys sp)(pak_id k \<mapsto> k)\<rparr>"
| "spec_step c (ConsumePreauthKey i) sp =
     (case sp_keys sp i of
        None \<Rightarrow> sp
      | Some k \<Rightarrow>
          if redeemable c k \<and> \<not> reusable k
          then sp\<lparr>sp_keys := (sp_keys sp)(i \<mapsto> k\<lparr>used := True\<rparr>)\<rparr> else sp)"
| "spec_step c (SetPolicy n p) sp = sp\<lparr>sp_policies := (sp_policies sp)(n \<mapsto> p)\<rparr>"

fun spec_reply :: "chrono_env \<Rightarrow> store_op \<Rightarrow> store_spec \<Rightarrow> reply" where
  "spec_reply c (ConsumePreauthKey i) sp = Consumed (spec_consumes c i sp)"
| "spec_reply c op sp = Done"

fun spec_run :: "(chrono_env \<times> store_op) list \<Rightarrow> store_spec \<Rightarrow> reply list \<times> store_spec" where
  "spec_run [] sp = ([], sp)"
| "spec_run ((c, op) # ops) sp =
     (let q = spec_run ops (spec_step c op sp) in (spec_reply c op sp # fst q, snd q))"

text \<open>
  \<open>wins i ops rs\<close> counts the calls of a run that redeemed key \<open>i\<close>: those that replied
  \<^verbatim>\<open>Ok(true)\<close>. \<open>rekeys i op\<close>: the operation replaces the row of key \<open>i\<close>.
\<close>

fun wins ::
  "preauth_key_id \<Rightarrow> ('env \<times> store_op) list \<Rightarrow> (store_error + reply) list \<Rightarrow> nat" where
  "wins i ((e, op) # ops) (r # rs) =
     (if op = ConsumePreauthKey i \<and> r = Inr (Consumed True) then 1 else 0) + wins i ops rs"
| "wins i _ _ = 0"

fun rekeys :: "preauth_key_id \<Rightarrow> store_op \<Rightarrow> bool" where
  "rekeys i (UpsertPreauthKey k) = (pak_id k = i)"
| "rekeys i _ = False"

definition single_use :: "preauth_key_id \<Rightarrow> store_spec \<Rightarrow> bool" where
  "single_use i sp \<longleftrightarrow> (\<forall>k. sp_keys sp i = Some k \<longrightarrow> \<not> reusable k)"

definition spent :: "preauth_key_id \<Rightarrow> store_spec \<Rightarrow> bool" where
  "spent i sp \<longleftrightarrow> (\<forall>k. sp_keys sp i = Some k \<longrightarrow> \<not> reusable k \<and> used k)"

text \<open>What one operation does to the row of a key it does not rewrite.\<close>

lemma spec_step_key:
  assumes "\<not> rekeys i op"
  shows "sp_keys (spec_step c op sp) i =
    (if op = ConsumePreauthKey i
     then map_option (\<lambda>k. if redeemable c k \<and> \<not> reusable k then k\<lparr>used := True\<rparr> else k) (sp_keys sp i)
     else sp_keys sp i)"
  using assms by (cases op) (simp_all split: option.split)

lemma single_use_step: "single_use i sp \<Longrightarrow> \<not> rekeys i op \<Longrightarrow> single_use i (spec_step c op sp)"
  by (auto simp: single_use_def spec_step_key split: if_splits)

lemma spent_step: "spent i sp \<Longrightarrow> \<not> rekeys i op \<Longrightarrow> spent i (spec_step c op sp)"
  by (auto simp: spent_def spec_step_key split: if_splits)

lemma spent_no_consume: "spent i sp \<Longrightarrow> \<not> spec_consumes c i sp"
  by (auto simp: spent_def spec_consumes_def redeemable_def)

lemma consume_spends:
  "single_use i sp \<Longrightarrow> spec_consumes c i sp \<Longrightarrow> spent i (spec_step c (ConsumePreauthKey i) sp)"
  by (auto simp: single_use_def spec_consumes_def spent_def)


subsection \<open>The contract\<close>

text \<open>
  A backend \<open>S\<close> with abstraction \<open>abs\<close> and invariant \<open>inv\<close>; \<open>clock\<close> reads the clock off its
  environment. A mutating operation changes the abstract state as the abstract transition does,
  whether it returns \<^verbatim>\<open>Ok\<close> or an error, and an \<^verbatim>\<open>Ok\<close> reply is the abstract reply. Reads
  return what the maps hold.
\<close>

locale store_contract =
  fixes S :: "('env, 'st) store_ops"
    and abs :: "'st \<Rightarrow> store_spec"
    and inv :: "'st \<Rightarrow> bool"
    and clock :: "'env \<Rightarrow> chrono_env"
  assumes perform_inv: "inv st \<Longrightarrow> perform S e op st = (r, st') \<Longrightarrow> inv st'"
    and perform_abs:
      "inv st \<Longrightarrow> perform S e op st = (r, st') \<Longrightarrow> abs st' = spec_step (clock e) op (abs st)"
    and perform_reply:
      "inv st \<Longrightarrow> perform S e op st = (Inr x, st') \<Longrightarrow> x = spec_reply (clock e) op (abs st)"
    and networks_read:
      "inv st \<Longrightarrow> \<exists>xs. list_networks S e st = Inr xs \<and> distinct xs
         \<and> set xs = ran (sp_networks (abs st))"
    and users_read:
      "inv st \<Longrightarrow> \<exists>xs. list_users S e n st = Inr xs \<and> distinct xs
         \<and> set xs = {u \<in> ran (sp_users (abs st)). usr_network_id u = n}"
    and nodes_read:
      "inv st \<Longrightarrow> \<exists>xs. list_nodes S e n st = Inr xs \<and> distinct xs
         \<and> set xs = {x \<in> ran (sp_nodes (abs st)). nod_network_id x = n}"
    and node_read: "inv st \<Longrightarrow> get_node S e i st = Inr (sp_nodes (abs st) i)"
    and keys_read:
      "inv st \<Longrightarrow> \<exists>xs. list_preauth_keys S e n st = Inr xs \<and> distinct xs
         \<and> set xs = {k \<in> ran (sp_keys (abs st)). pak_network_id k = n}"
    and policy_read: "inv st \<Longrightarrow> get_policy S e n st = Inr (sp_policies (abs st) n)"
begin

lemma run_inv: "inv st \<Longrightarrow> inv (snd (run_ops S ops st))"
proof (induction ops arbitrary: st)
  case (Cons a ops)
  obtain e op where a: "a = (e, op)" by (cases a)
  obtain r st1 where p: "perform S e op st = (r, st1)" by (cases "perform S e op st")
  with Cons.prems have "inv st1" by (rule perform_inv)
  then have "inv (snd (run_ops S ops st1))" by (rule Cons.IH)
  with a p show ?case by (simp add: Let_def)
qed simp

lemma run_abs:
  "inv st \<Longrightarrow> abs (snd (run_ops S ops st)) = snd (spec_run (map (apfst clock) ops) (abs st))"
proof (induction ops arbitrary: st)
  case (Cons a ops)
  obtain e op where a: "a = (e, op)" by (cases a)
  obtain r st1 where p: "perform S e op st = (r, st1)" by (cases "perform S e op st")
  with Cons.prems have "inv st1" and s: "abs st1 = spec_step (clock e) op (abs st)"
    by (blast intro: perform_inv, blast intro: perform_abs)
  then have "abs (snd (run_ops S ops st1)) = snd (spec_run (map (apfst clock) ops) (abs st1))"
    by (blast intro: Cons.IH)
  with a p s show ?case by (simp add: Let_def)
qed simp

text \<open>Where a call of the run replied \<^verbatim>\<open>Ok\<close>, it replied what the abstract store replies.\<close>

lemma run_replies:
  "inv st \<Longrightarrow>
   list_all2 (\<lambda>r x. \<forall>y. r = Inr y \<longrightarrow> y = x)
     (fst (run_ops S ops st)) (fst (spec_run (map (apfst clock) ops) (abs st)))"
proof (induction ops arbitrary: st)
  case (Cons a ops)
  obtain e op where a: "a = (e, op)" by (cases a)
  obtain r st1 where p: "perform S e op st = (r, st1)" by (cases "perform S e op st")
  have "inv st1" and s: "abs st1 = spec_step (clock e) op (abs st)"
    using Cons.prems p by (blast intro: perform_inv, blast intro: perform_abs)
  from Cons.IH [OF this(1)] perform_reply [OF Cons.prems] a p s show ?case
    by (auto simp: Let_def)
qed simp

lemma no_wins_when_spent:
  "inv st \<Longrightarrow> spent i (abs st) \<Longrightarrow> \<forall>(e, op) \<in> set ops. \<not> rekeys i op \<Longrightarrow>
   wins i ops (fst (run_ops S ops st)) = 0"
proof (induction ops arbitrary: st)
  case (Cons a ops)
  obtain e op where a: "a = (e, op)" by (cases a)
  obtain r st1 where p: "perform S e op st = (r, st1)" by (cases "perform S e op st")
  have i1: "inv st1" and s: "abs st1 = spec_step (clock e) op (abs st)"
    using Cons.prems(1) p by (blast intro: perform_inv, blast intro: perform_abs)
  have "\<not> rekeys i op" using Cons.prems(3) a by simp
  then have "spent i (abs st1)" using Cons.prems(2) s by (simp add: spent_step)
  then have "wins i ops (fst (run_ops S ops st1)) = 0" using Cons i1 by simp
  moreover have "\<not> (op = ConsumePreauthKey i \<and> r = Inr (Consumed True))"
    using perform_reply [OF Cons.prems(1)] p spent_no_consume [OF Cons.prems(2)] by fastforce
  ultimately show ?case using a p by (auto simp: Let_def)
qed simp

text \<open>A single-use key is redeemed at most once, in any run that does not rewrite its row.\<close>

lemma single_winner:
  "inv st \<Longrightarrow> single_use i (abs st) \<Longrightarrow> \<forall>(e, op) \<in> set ops. \<not> rekeys i op \<Longrightarrow>
   wins i ops (fst (run_ops S ops st)) \<le> 1"
proof (induction ops arbitrary: st)
  case (Cons a ops)
  obtain e op where a: "a = (e, op)" by (cases a)
  obtain r st1 where p: "perform S e op st = (r, st1)" by (cases "perform S e op st")
  have i1: "inv st1" and s: "abs st1 = spec_step (clock e) op (abs st)"
    using Cons.prems(1) p by (blast intro: perform_inv, blast intro: perform_abs)
  have nr: "\<not> rekeys i op" and nrs: "\<forall>(e, op) \<in> set ops. \<not> rekeys i op"
    using Cons.prems(3) a by auto
  show ?case
  proof (cases "op = ConsumePreauthKey i \<and> r = Inr (Consumed True)")
    case True
    with p perform_reply [OF Cons.prems(1), of e op] have "spec_consumes (clock e) i (abs st)"
      by fastforce
    then have "spent i (abs st1)"
      using True s Cons.prems(2) by (simp only: consume_spends)
    with no_wins_when_spent [OF i1 _ nrs] True a p show ?thesis by (simp add: Let_def)
  next
    case False
    have "single_use i (abs st1)" using Cons.prems(2) s nr by (simp add: single_use_step)
    then have "wins i ops (fst (run_ops S ops st1)) \<le> 1" using Cons.IH i1 nrs by simp
    with False a p show ?thesis by (auto simp: Let_def)
  qed
qed simp

text \<open>
  Exactly once, when the key is fresh and stays live, somebody asks for it, and no call failed.
\<close>

lemma exactly_one_winner:
  "inv st \<Longrightarrow> sp_keys (abs st) i = Some k \<Longrightarrow> \<not> reusable k \<Longrightarrow> \<not> used k \<Longrightarrow>
   \<forall>(e, op) \<in> set ops. \<not> rekeys i op \<and> key_live (clock e) k \<Longrightarrow>
   \<exists>e. (e, ConsumePreauthKey i) \<in> set ops \<Longrightarrow>
   \<forall>r \<in> set (fst (run_ops S ops st)). is_ok r \<Longrightarrow>
   wins i ops (fst (run_ops S ops st)) = 1"
proof (induction ops arbitrary: st)
  case (Cons a ops)
  obtain e op where a: "a = (e, op)" by (cases a)
  obtain r st1 where p: "perform S e op st = (r, st1)" by (cases "perform S e op st")
  have i1: "inv st1" and s: "abs st1 = spec_step (clock e) op (abs st)"
    using Cons.prems(1) p by (blast intro: perform_inv, blast intro: perform_abs)
  have nr: "\<not> rekeys i op" and live: "key_live (clock e) k"
    and nrs: "\<forall>(e, op) \<in> set ops. \<not> rekeys i op"
    using Cons.prems(5) a by auto
  have oks: "\<forall>r \<in> set (fst (run_ops S ops st1)). is_ok r" and ok: "is_ok r"
    using Cons.prems(7) a p by (simp_all add: Let_def)
  show ?case
  proof (cases "op = ConsumePreauthKey i")
    case True
    have red: "spec_consumes (clock e) i (abs st)"
      using Cons.prems(2-4) live by (simp add: spec_consumes_def redeemable_def)
    have "single_use i (abs st)" using Cons.prems(2,3) by (simp add: single_use_def)
    then have "spent i (abs st1)" using True s red by (simp only: consume_spends)
    then have "wins i ops (fst (run_ops S ops st1)) = 0" by (rule no_wins_when_spent [OF i1 _ nrs])
    moreover from ok obtain x where x: "r = Inr x" by (cases r) auto
    have "x = Consumed True"
      using perform_reply [OF Cons.prems(1)] p True x red by fastforce
    ultimately show ?thesis using True a p x by (simp add: Let_def)
  next
    case False
    with s nr Cons.prems(2) have "sp_keys (abs st1) i = Some k" by (simp add: spec_step_key)
    moreover have "\<exists>e. (e, ConsumePreauthKey i) \<in> set ops" using Cons.prems(6) False a by auto
    moreover have "\<forall>(e, op) \<in> set ops. \<not> rekeys i op \<and> key_live (clock e) k"
      using Cons.prems(5) by simp
    ultimately have "wins i ops (fst (run_ops S ops st1)) = 1"
      using Cons.IH [OF i1] Cons.prems(3,4) oks by blast
    with False a p show ?thesis by (simp add: Let_def)
  qed
qed simp

end

end
