(* ===== verification/Memory_Store.thy ===== *)
theory Memory_Store
  imports Store_Contract
begin

text \<open>
  \<^verbatim>\<open>MemoryStore\<close> of \<^verbatim>\<open>store/memory.rs\<close>. Its state is the document behind
  \<^verbatim>\<open>Arc<RwLock<StoreDocument>>\<close>. Each operation takes the lock once and holds it to its end, so
  an operation is one atomic function from document to document; concurrent callers are the
  interleavings of these functions, that is the runs of \<open>run_ops\<close> (\<open>Guarded_Calls\<close> takes the operations
  apart at the guards of the lock and proves this).
\<close>

type_synonym memory_store = store_document


subsection \<open>Operations\<close>

definition memory_new :: memory_store where
  "memory_new =
     \<lparr>version = 1, networks = [], users = [], nodes = [], preauth_keys = [], policies = Map.empty\<rparr>"

definition memory_snapshot :: "memory_store \<Rightarrow> store_document" where
  "memory_snapshot m = m"

definition memory_replace :: "store_document \<Rightarrow> memory_store \<Rightarrow> memory_store" where
  "memory_replace doc m = doc"

definition preauth_key_expired :: "chrono_env \<Rightarrow> preauth_key \<Rightarrow> bool" where
  "preauth_key_expired c key =
     (case expires_at key of
        None \<Rightarrow> False
      | Some ts \<Rightarrow>
          (case parse_rfc3339 c ts of
             Some expiry \<Rightarrow> expiry \<le> utc_now c
           | None \<Rightarrow> True))"

definition mem_list_networks :: "memory_store \<Rightarrow> store_error + network list" where
  "mem_list_networks m = Inr (networks m)"

definition mem_upsert_network ::
  "network \<Rightarrow> memory_store \<Rightarrow> (store_error + unit) \<times> memory_store" where
  "mem_upsert_network net m = (Inr (), m\<lparr>networks := upsert_by net_id net (networks m)\<rparr>)"

definition mem_list_users :: "network_id \<Rightarrow> memory_store \<Rightarrow> store_error + user list" where
  "mem_list_users n m = Inr (filter (\<lambda>u. usr_network_id u = n) (users m))"

definition mem_upsert_user ::
  "user \<Rightarrow> memory_store \<Rightarrow> (store_error + unit) \<times> memory_store" where
  "mem_upsert_user u m = (Inr (), m\<lparr>users := upsert_by usr_id u (users m)\<rparr>)"

definition mem_list_nodes :: "network_id \<Rightarrow> memory_store \<Rightarrow> store_error + node list" where
  "mem_list_nodes n m = Inr (filter (\<lambda>x. nod_network_id x = n) (nodes m))"

definition mem_get_node :: "node_id \<Rightarrow> memory_store \<Rightarrow> store_error + node option" where
  "mem_get_node i m = Inr (find (\<lambda>n. nod_id n = i) (nodes m))"

definition mem_upsert_node ::
  "node \<Rightarrow> memory_store \<Rightarrow> (store_error + unit) \<times> memory_store" where
  "mem_upsert_node x m = (Inr (), m\<lparr>nodes := upsert_by nod_id x (nodes m)\<rparr>)"

definition mem_delete_node ::
  "node_id \<Rightarrow> memory_store \<Rightarrow> (store_error + unit) \<times> memory_store" where
  "mem_delete_node i m = (Inr (), m\<lparr>nodes := filter (\<lambda>n. nod_id n \<noteq> i) (nodes m)\<rparr>)"

definition mem_list_preauth_keys ::
  "network_id \<Rightarrow> memory_store \<Rightarrow> store_error + preauth_key list" where
  "mem_list_preauth_keys n m = Inr (filter (\<lambda>k. pak_network_id k = n) (preauth_keys m))"

definition mem_upsert_preauth_key ::
  "preauth_key \<Rightarrow> memory_store \<Rightarrow> (store_error + unit) \<times> memory_store" where
  "mem_upsert_preauth_key k m = (Inr (), m\<lparr>preauth_keys := upsert_by pak_id k (preauth_keys m)\<rparr>)"

text \<open>
  \<^verbatim>\<open>key\<close> is a mutable reference to the first row with the id: an index into the vector, through
  which \<^verbatim>\<open>key.used = true\<close> writes.
\<close>

definition mem_consume_preauth_key ::
  "chrono_env \<Rightarrow> preauth_key_id \<Rightarrow> memory_store \<Rightarrow> (store_error + bool) \<times> memory_store" where
  "mem_consume_preauth_key c i m =
     (case find_index (\<lambda>k. pak_id k = i) (preauth_keys m) of
        None \<Rightarrow> (Inr False, m)
      | Some j \<Rightarrow>
          let key = preauth_keys m ! j in
          if preauth_key_expired c key then (Inr False, m)
          else if reusable key then (Inr True, m)
          else if used key then (Inr False, m)
          else (Inr True, m\<lparr>preauth_keys := (preauth_keys m)[j := key\<lparr>used := True\<rparr>]\<rparr>))"

definition mem_get_policy :: "network_id \<Rightarrow> memory_store \<Rightarrow> store_error + string option" where
  "mem_get_policy n m = Inr (policies m n)"

definition mem_set_policy ::
  "network_id \<Rightarrow> string \<Rightarrow> memory_store \<Rightarrow> (store_error + unit) \<times> memory_store" where
  "mem_set_policy n p m = (Inr (), m\<lparr>policies := (policies m)(n \<mapsto> p)\<rparr>)"

text \<open>\<^verbatim>\<open>impl Store for MemoryStore\<close>. The environment of a call is the clock.\<close>

definition memory_ops :: "(chrono_env, memory_store) store_ops" where
  "memory_ops =
     \<lparr>list_networks = (\<lambda>_. mem_list_networks),
      upsert_network = (\<lambda>_. mem_upsert_network),
      list_users = (\<lambda>_. mem_list_users),
      upsert_user = (\<lambda>_. mem_upsert_user),
      list_nodes = (\<lambda>_. mem_list_nodes),
      get_node = (\<lambda>_. mem_get_node),
      upsert_node = (\<lambda>_. mem_upsert_node),
      delete_node = (\<lambda>_. mem_delete_node),
      list_preauth_keys = (\<lambda>_. mem_list_preauth_keys),
      upsert_preauth_key = (\<lambda>_. mem_upsert_preauth_key),
      consume_preauth_key = mem_consume_preauth_key,
      get_policy = (\<lambda>_. mem_get_policy),
      set_policy = (\<lambda>_. mem_set_policy)\<rparr>"

lemmas mem_defs [store_simps] =
  mem_list_networks_def mem_upsert_network_def mem_list_users_def mem_upsert_user_def
  mem_list_nodes_def mem_get_node_def mem_upsert_node_def mem_delete_node_def
  mem_list_preauth_keys_def mem_upsert_preauth_key_def mem_get_policy_def mem_set_policy_def


subsection \<open>Abstraction to the contract\<close>

definition doc_abs :: "store_document \<Rightarrow> store_spec" where
  "doc_abs d =
     \<lparr>sp_networks = row net_id (networks d), sp_users = row usr_id (users d),
      sp_nodes = row nod_id (nodes d), sp_keys = row pak_id (preauth_keys d),
      sp_policies = policies d\<rparr>"

lemma key_live_iff: "key_live c k \<longleftrightarrow> \<not> preauth_key_expired c k"
  by (auto simp: key_live_def preauth_key_expired_def split: option.splits)

lemma set_index_row:
  "find_index (\<lambda>y. key y = k) xs = Some j \<Longrightarrow> key x = k \<Longrightarrow> xs[j := x] = upsert_by key x xs"
  by (auto simp: upsert_by_def)

text \<open>The consumption, seen on the row the id names.\<close>

lemma consume_by_row:
  "mem_consume_preauth_key c i m =
     (case row pak_id (preauth_keys m) i of
        None \<Rightarrow> (Inr False, m)
      | Some k \<Rightarrow>
          (Inr (redeemable c k),
           if redeemable c k \<and> \<not> reusable k
           then m\<lparr>preauth_keys := upsert_by pak_id (k\<lparr>used := True\<rparr>) (preauth_keys m)\<rparr> else m))"
proof (cases "find_index (\<lambda>k. pak_id k = i) (preauth_keys m)")
  case None
  then show ?thesis by (simp add: mem_consume_preauth_key_def row_def find_via_index)
next
  case (Some j)
  then have r: "row pak_id (preauth_keys m) i = Some (preauth_keys m ! j)"
    by (simp add: row_def find_via_index)
  then have "pak_id (preauth_keys m ! j) = i" by (rule row_Some_key)
  with Some r show ?thesis
    by (simp add: mem_consume_preauth_key_def Let_def redeemable_def key_live_iff set_index_row)
qed

lemma mem_perform:
  "perform memory_ops c op m = (r, m') \<Longrightarrow>
     r = Inr (spec_reply c op (doc_abs m)) \<and> doc_abs m' = spec_step c op (doc_abs m)
     \<and> (wf_doc m \<longrightarrow> wf_doc m')"
  by (cases op)
    (auto simp: memory_ops_def store_simps done_reply_def consumed_reply_def doc_abs_def wf_doc_def
      consume_by_row spec_consumes_def dest: row_Some_key split: option.splits if_splits)

text \<open>\<^verbatim>\<open>MemoryStore\<close> meets the contract of the trait.\<close>

interpretation mem: store_contract memory_ops doc_abs wf_doc "\<lambda>c. c"
proof (unfold_locales, goal_cases)
  case (1 st e op r st') then show ?case using mem_perform by blast
next
  case (2 st e op r st') then show ?case using mem_perform by blast
next
  case (3 st e op x st') then show ?case using mem_perform by (metis sum.inject(2))
qed (auto simp: memory_ops_def store_simps doc_abs_def row_def [symmetric] set_row [symmetric]
      distinct_map wf_doc_def)

end
