(* ===== verification/Store_Durable.thy ===== *)
theory Store_Durable
  imports Store_Contract
begin

text \<open>
  Durability, on top of the contract of the trait: a backend that survives restarts. The locale
  \<open>durable_store\<close> extends \<open>store_contract\<close> by what a restart would load, and the client lemmas
  say that the invariant holds over any history of calls, failed calls, flushes, reloads and
  restarts, and that over it a single-use key is redeemed at most once more often than its row is rewritten.
\<close>

text \<open>
  A history: calls, flushes asked for by the host, reloads of the running store from its file, and
  restarts of the process. A restart that cannot load ends the history. The log records the calls
  made and their replies. \<open>rst\<close>, \<open>rld\<close> and \<open>fl\<close> are the backend's restart, reload and flush.
\<close>

datatype 'env event = Call 'env store_op | Restart | Reload 'env | Flush 'env

fun run_events ::
  "('env, 'st) store_ops \<Rightarrow> ('st \<Rightarrow> 'st option) \<Rightarrow> ('env \<Rightarrow> 'st \<Rightarrow> 'st) \<Rightarrow> ('env \<Rightarrow> 'st \<Rightarrow> 'st)
     \<Rightarrow> 'env event list \<Rightarrow> 'st \<Rightarrow> (store_op \<times> (store_error + reply)) list \<times> 'st"
where
  "run_events S rst rld fl [] st = ([], st)"
| "run_events S rst rld fl (Call e op # evs) st =
     (let p = perform S e op st; q = run_events S rst rld fl evs (snd p)
      in ((op, fst p) # fst q, snd q))"
| "run_events S rst rld fl (Restart # evs) st =
     (case rst st of None \<Rightarrow> ([], st) | Some st' \<Rightarrow> run_events S rst rld fl evs st')"
| "run_events S rst rld fl (Reload e # evs) st = run_events S rst rld fl evs (rld e st)"
| "run_events S rst rld fl (Flush e # evs) st = run_events S rst rld fl evs (fl e st)"

definition redemptions :: "preauth_key_id \<Rightarrow> (store_op \<times> (store_error + reply)) list \<Rightarrow> nat" where
  "redemptions i log =
     length (filter (\<lambda>(op, r). op = ConsumePreauthKey i \<and> r = Inr (Consumed True)) log)"

lemma redemptions_Nil [simp]: "redemptions i [] = 0"
  by (simp add: redemptions_def)

lemma redemptions_Cons [simp]:
  "redemptions i ((op, r) # log) =
     (if op = ConsumePreauthKey i \<and> r = Inr (Consumed True) then 1 else 0) + redemptions i log"
  by (simp add: redemptions_def)

fun rekey_event :: "preauth_key_id \<Rightarrow> 'env event \<Rightarrow> bool" where
  "rekey_event i (Call e op) = rekeys i op"
| "rekey_event i _ = False"

text \<open>\<open>opens_key i ev\<close>: the event writes a row for key \<open>i\<close> that may be used many times.\<close>

fun opens_key :: "preauth_key_id \<Rightarrow> 'env event \<Rightarrow> bool" where
  "opens_key i (Call e (UpsertPreauthKey k)) = (pak_id k = i \<and> reusable k)"
| "opens_key i _ = False"

definition rekeyings :: "preauth_key_id \<Rightarrow> 'env event list \<Rightarrow> nat" where
  "rekeyings i evs = length (filter (rekey_event i) evs)"

lemma rekeyings_simps [simp]:
  "rekeyings i [] = 0"
  "rekeyings i (ev # evs) = (if rekey_event i ev then 1 else 0) + rekeyings i evs"
  by (simp_all add: rekeyings_def)

lemma single_use_rewrite:
  "single_use i sp \<Longrightarrow> \<not> opens_key i (Call e op) \<Longrightarrow> single_use i (spec_step c op sp)"
proof (cases "rekeys i op")
  case True
  assume "\<not> opens_key i (Call e op)"
  with True show ?thesis by (cases op) (auto simp: single_use_def)
qed (simp add: single_use_step)

lemma spent_single_use: "spent i sp \<Longrightarrow> single_use i sp"
  by (simp add: spent_def single_use_def)

text \<open>
  \<open>saved st\<close> is the abstract store a restart from \<open>st\<close> would load, \<open>None\<close> when it would fail.
  A call leaves it alone or saves the new state, and an \<^verbatim>\<open>Ok\<close> reply is given only for a change
  that is saved. A reload leaves the state alone or replaces it by what is saved, and a flush saves
  the state or changes nothing.
\<close>

locale durable_store = store_contract +
  fixes saved :: "'b \<Rightarrow> store_spec option"
    and restart :: "'b \<Rightarrow> 'b option"
    and reload :: "'a \<Rightarrow> 'b \<Rightarrow> 'b"
    and flush :: "'a \<Rightarrow> 'b \<Rightarrow> 'b"
  assumes restart_saved:
      "inv st \<Longrightarrow> restart st = Some st' \<Longrightarrow> inv st' \<and> saved st = Some (abs st') \<and> saved st' = saved st"
    and perform_saves:
      "inv st \<Longrightarrow> perform S e op st = (r, st') \<Longrightarrow> saved st' = saved st \<or> saved st' = Some (abs st')"
    and ok_saved:
      "inv st \<Longrightarrow> perform S e op st = (Inr x, st') \<Longrightarrow> abs st' \<noteq> abs st \<Longrightarrow> saved st' = Some (abs st')"
    and reload_saved:
      "inv st \<Longrightarrow> inv (reload e st) \<and> saved (reload e st) = saved st
         \<and> (abs (reload e st) = abs st \<or> saved st = Some (abs (reload e st)))"
    and flush_saved:
      "inv st \<Longrightarrow> inv (flush e st) \<and> abs (flush e st) = abs st
         \<and> (saved (flush e st) = saved st \<or> saved (flush e st) = Some (abs st))"
begin

definition on_disk :: "(store_spec \<Rightarrow> bool) \<Rightarrow> 'b \<Rightarrow> bool" where
  "on_disk P st \<longleftrightarrow> (\<forall>sp. saved st = Some sp \<longrightarrow> P sp)"

lemma call_keeps:
  assumes "inv st" and "perform S e op st = (r, st')" and "P (abs st')" and "on_disk P st"
  shows "inv st' \<and> on_disk P st'"
  using perform_inv [OF assms(1,2)] perform_saves [OF assms(1,2)] assms(3,4)
  by (auto simp: on_disk_def)

lemma restart_keeps:
  assumes "inv st" and "restart st = Some st'" and "on_disk P st"
  shows "inv st' \<and> P (abs st') \<and> on_disk P st'"
  using restart_saved [OF assms(1,2)] assms(3) by (simp add: on_disk_def)

lemma reload_keeps:
  assumes "inv st" and "P (abs st)" and "on_disk P st"
  shows "inv (reload e st) \<and> P (abs (reload e st)) \<and> on_disk P (reload e st)"
  using reload_saved [OF assms(1), of e] assms(2,3) by (auto simp: on_disk_def)

lemma flush_keeps:
  assumes "inv st" and "P (abs st)" and "on_disk P st"
  shows "inv (flush e st) \<and> P (abs (flush e st)) \<and> on_disk P (flush e st)"
  using flush_saved [OF assms(1), of e] assms(2,3) by (auto simp: on_disk_def)

text \<open>The invariant holds at the end of every history.\<close>

lemma history_inv: "inv st \<Longrightarrow> inv (snd (run_events S restart reload flush evs st))"
proof (induction evs arbitrary: st)
  case (Cons ev evs)
  show ?case
  proof (cases ev)
    case (Call e op)
    obtain r st1 where p: "perform S e op st = (r, st1)" by (cases "perform S e op st")
    with perform_inv [OF Cons.prems p] Cons.IH Call show ?thesis by (simp add: Let_def)
  next
    case Restart
    with Cons restart_saved show ?thesis by (auto split: option.split)
  qed (use Cons reload_saved flush_saved in auto)
qed simp

text \<open>What is on disk stays loadable: no call, flush, reload or restart spoils a snapshot.\<close>

lemma history_loadable:
  "inv st \<Longrightarrow> saved st \<noteq> None \<Longrightarrow> saved (snd (run_events S restart reload flush evs st)) \<noteq> None"
proof (induction evs arbitrary: st)
  case (Cons ev evs)
  show ?case
  proof (cases ev)
    case (Call e op)
    obtain r st1 where p: "perform S e op st = (r, st1)" by (cases "perform S e op st")
    have "saved st1 \<noteq> None" using perform_saves [OF Cons.prems(1) p] Cons.prems(2) by auto
    with perform_inv [OF Cons.prems(1) p] p Cons.IH Call show ?thesis by (simp add: Let_def)
  next
    case Restart
    with Cons restart_saved show ?thesis by (auto split: option.split)
  next
    case (Reload e)
    with Cons reload_saved [OF Cons.prems(1), of e] show ?thesis by simp
  next
    case (Flush e)
    have "saved (flush e st) \<noteq> None" using flush_saved [OF Cons.prems(1), of e] Cons.prems(2) by auto
    with flush_saved [OF Cons.prems(1), of e] Cons.IH Flush show ?thesis by simp
  qed
qed simp

lemma consume_changes_abs:
  assumes "single_use i sp" and "spec_consumes c i sp"
  shows "spec_step c (ConsumePreauthKey i) sp \<noteq> sp"
proof -
  have "spent i (spec_step c (ConsumePreauthKey i) sp)" using assms by (rule consume_spends)
  then show ?thesis using spent_no_consume assms(2) by metis
qed

text \<open>
  A single-use key has one redemption at most, and a spent one none, but for one more after each time its row
  is rewritten: over calls that may fail, flushes, reloads and restarts.
\<close>

lemma redemptions_bound:
  "inv st \<Longrightarrow> \<forall>ev \<in> set evs. \<not> opens_key i ev \<Longrightarrow>
   (single_use i (abs st) \<longrightarrow> on_disk (single_use i) st \<longrightarrow>
      redemptions i (fst (run_events S restart reload flush evs st)) \<le> 1 + rekeyings i evs)
   \<and> (spent i (abs st) \<longrightarrow> on_disk (spent i) st \<longrightarrow>
      redemptions i (fst (run_events S restart reload flush evs st)) \<le> rekeyings i evs)"
proof (induction evs arbitrary: st)
  case (Cons ev evs)
  have rest: "\<forall>ev \<in> set evs. \<not> opens_key i ev" using Cons.prems(2) by simp
  have disk: "on_disk (single_use i) st'" if "on_disk (spent i) st'" for st'
    using that spent_single_use by (auto simp: on_disk_def)
  show ?case
  proof (cases ev)
    case (Call e op)
    obtain r st1 where p: "perform S e op st = (r, st1)" by (cases "perform S e op st")
    note s = perform_abs [OF Cons.prems(1) p] and inv1 = perform_inv [OF Cons.prems(1) p]
    let ?n = "redemptions i (fst (run_events S restart reload flush evs st1))"
    have log: "redemptions i (fst (run_events S restart reload flush (ev # evs) st))
        = (if op = ConsumePreauthKey i \<and> r = Inr (Consumed True) then 1 else 0) + ?n"
      using Call p by (simp add: Let_def)
    have fresh: "single_use i (abs st1) \<and> on_disk (single_use i) st1 \<and> ?n \<le> 1 + rekeyings i evs"
      if "single_use i (abs st)" "on_disk (single_use i) st"
    proof -
      have su: "single_use i (abs st1)" using s that(1) Cons.prems(2) Call single_use_rewrite by auto
      with call_keeps [OF Cons.prems(1) p su that(2)] Cons.IH [OF inv1 rest] show ?thesis by blast
    qed
    show ?thesis
    proof (cases "op = ConsumePreauthKey i \<and> r = Inr (Consumed True)")
      case True
      with p perform_reply [OF Cons.prems(1), of e op] have c: "spec_consumes (clock e) i (abs st)" by fastforce
      have "?n \<le> rekeyings i evs" if su: "single_use i (abs st)"
      proof -
        have sp: "spent i (abs st1)" using s True consume_spends [OF su c] by simp
        have "abs st1 \<noteq> abs st" using s True consume_changes_abs [OF su c] by simp
        with ok_saved [OF Cons.prems(1)] p True have "saved st1 = Some (abs st1)" by blast
        with sp Cons.IH [OF inv1 rest] show ?thesis by (simp add: on_disk_def)
      qed
      moreover have "\<not> spent i (abs st)" using c spent_no_consume by blast
      ultimately show ?thesis using log True Call by auto
    next
      case False
      have "?n \<le> rekeyings i (ev # evs)" if sp: "spent i (abs st)" "on_disk (spent i) st"
      proof (cases "rekeys i op")
        case True
        with fresh spent_single_use [OF sp(1)] disk [OF sp(2)] Call show ?thesis by simp
      next
        case nr: False
        then have sp1: "spent i (abs st1)" using s sp(1) by (simp add: spent_step)
        with call_keeps [OF Cons.prems(1) p sp1 sp(2)] Cons.IH [OF inv1 rest] nr Call show ?thesis by simp
      qed
      with fresh False log show ?thesis by auto
    qed
  next
    case Restart
    show ?thesis
    proof (cases "restart st")
      case (Some st')
      have "saved st' = saved st" "saved st = Some (abs st')" "inv st'"
        using restart_saved [OF Cons.prems(1) Some] by simp_all
      with Restart Some Cons.IH [of st'] rest show ?thesis by (simp add: on_disk_def)
    qed (simp add: Restart)
  next
    case (Reload e)
    with Cons.IH [OF conjunct1 [OF reload_saved [OF Cons.prems(1)]] rest, of e]
      reload_keeps [OF Cons.prems(1), of _ e] show ?thesis by auto
  next
    case (Flush e)
    with Cons.IH [OF conjunct1 [OF flush_saved [OF Cons.prems(1)]] rest, of e]
      flush_keeps [OF Cons.prems(1), of _ e] show ?thesis by auto
  qed
qed simp

end

end
