(* ===== verification/Host_Files.thy ===== *)
theory Host_Files
  imports Store_Types
begin

text \<open>
  The part of \<^verbatim>\<open>std::path\<close> and \<^verbatim>\<open>std::fs\<close> the file store uses. A path is the list of its
  components (what \<^verbatim>\<open>Path::components\<close> yields). A file system maps paths to inodes and inodes to
  contents, so that an open file outlives a rename of its name. Every operation takes the fault
  the host injects into that call, if any; a fault of a write leaves the file truncated or
  partly written.
\<close>


subsection \<open>Paths\<close>

datatype component = RootDir | CurDir | ParentDir | Normal string

type_synonym path = "component list"

definition file_name :: "path \<Rightarrow> string option" where
  "file_name p = (if p = [] then None else case last p of Normal s \<Rightarrow> Some s | _ \<Rightarrow> None)"

text \<open>A file name split at its last dot, \<open>None\<close> when it has no dot.\<close>

fun rsplit_dot :: "string \<Rightarrow> (string \<times> string) option" where
  "rsplit_dot [] = None"
| "rsplit_dot (c # cs) =
     (case rsplit_dot cs of
        Some (b, a) \<Rightarrow> Some (c # b, a)
      | None \<Rightarrow> if c = CHR ''.'' then Some ([], cs) else None)"

text \<open>
  A name that begins with its only dot has no extension, and neither has the name of two dots,
  which \<^verbatim>\<open>components\<close> never yields as a file name.
\<close>

definition os_extension :: "string \<Rightarrow> string option" where
  "os_extension s =
     (if s = ''..'' then None
      else case rsplit_dot s of None \<Rightarrow> None | Some (b, a) \<Rightarrow> if b = [] then None else Some a)"

definition os_stem :: "string \<Rightarrow> string" where
  "os_stem s =
     (if s = ''..'' then s
      else case rsplit_dot s of None \<Rightarrow> s | Some (b, a) \<Rightarrow> if b = [] then s else b)"

definition path_extension :: "path \<Rightarrow> string option" where
  "path_extension p = Option.bind (file_name p) os_extension"

definition with_extension :: "string \<Rightarrow> path \<Rightarrow> path" where
  "with_extension ext p =
     (case file_name p of
        None \<Rightarrow> p
      | Some s \<Rightarrow> butlast p @ [Normal (os_stem s @ (if ext = [] then [] else CHR ''.'' # ext))])"

lemma rsplit_dot_append: "CHR ''.'' \<notin> set e \<Longrightarrow> rsplit_dot (s @ CHR ''.'' # e) = Some (s, e)"
proof (induction s)
  case Nil
  have "rsplit_dot e = None"
    using Nil by (induction e) (auto split: option.splits)
  then show ?case by simp
qed simp

lemma rsplit_dot_join: "rsplit_dot s = Some (b, a) \<Longrightarrow> s = b @ CHR ''.'' # a"
  by (induction s arbitrary: b) (auto split: option.splits if_splits)

lemma path_extension_with_extension:
  assumes "path_extension p = Some x" and "ext \<noteq> []" and "CHR ''.'' \<notin> set ext"
  shows "path_extension (with_extension ext p) = Some ext"
proof -
  obtain s where s: "file_name p = Some s" and x: "os_extension s = Some x"
    using assms(1) by (auto simp: path_extension_def bind_eq_Some_conv)
  from x obtain b where b: "rsplit_dot s = Some (b, x)" "b \<noteq> []"
    by (auto simp: os_extension_def split: if_splits option.splits)
  have "os_stem s = b" using b x by (auto simp: os_stem_def os_extension_def)
  moreover have "b @ CHR ''.'' # ext \<noteq> ''..''"
  proof
    assume "b @ CHR ''.'' # ext = ''..''"
    then have "ext = [] \<or> CHR ''.'' \<in> set ext" using b(2)
      by (cases b) (auto simp: append_eq_Cons_conv)
    with assms(2,3) show False by simp
  qed
  ultimately show ?thesis
    using s b(2) assms(2,3)
    by (simp add: path_extension_def with_extension_def file_name_def os_extension_def
        rsplit_dot_append)
qed

lemma with_extension_other:
  assumes "path_extension p = Some x" and "ext \<noteq> []" and "CHR ''.'' \<notin> set ext" and "ext \<noteq> x"
  shows "with_extension ext p \<noteq> p"
  using path_extension_with_extension [OF assms(1-3)] assms(1,4) by auto


subsection \<open>The file system\<close>

record file_system =
  names :: "path \<rightharpoonup> nat"
  inodes :: "nat \<Rightarrow> bytes"
  next_inode :: nat

definition content :: "file_system \<Rightarrow> path \<Rightarrow> bytes option" where
  "content fs p = map_option (inodes fs) (names fs p)"

text \<open>\<^verbatim>\<open>std::fs::read\<close>. A fault is any error but a missing file.\<close>

definition fs_read :: "string option \<Rightarrow> path \<Rightarrow> file_system \<Rightarrow> io_error + bytes" where
  "fs_read fault p fs =
     (case fault of
        Some e \<Rightarrow> Inl (OtherIo e)
      | None \<Rightarrow> (case content fs p of None \<Rightarrow> Inl NotFound | Some bs \<Rightarrow> Inr bs))"

text \<open>
  \<^verbatim>\<open>File::create\<close>, the first half of \<^verbatim>\<open>std::fs::write\<close>: an existing file is truncated, a missing
  one gets a new inode. The result is the inode the open file refers to.
\<close>

definition fs_create :: "path \<Rightarrow> file_system \<Rightarrow> nat \<times> file_system" where
  "fs_create p fs =
     (case names fs p of
        Some i \<Rightarrow> (i, fs\<lparr>inodes := (inodes fs)(i := [])\<rparr>)
      | None \<Rightarrow>
          (next_inode fs,
           fs\<lparr>names := (names fs)(p \<mapsto> next_inode fs),
              inodes := (inodes fs)(next_inode fs := []),
              next_inode := Suc (next_inode fs)\<rparr>))"

text \<open>A write of \<open>bs\<close> into an open file at offset \<open>off\<close>; a gap before it reads as zeros.\<close>

definition write_at :: "nat \<Rightarrow> bytes \<Rightarrow> bytes \<Rightarrow> bytes" where
  "write_at off bs old =
     (if bs = [] then old
      else take off old @ replicate (off - length old) 0 @ bs @ drop (off + length bs) old)"

definition fs_write_at :: "nat \<Rightarrow> nat \<Rightarrow> bytes \<Rightarrow> file_system \<Rightarrow> file_system" where
  "fs_write_at i off bs fs = fs\<lparr>inodes := (inodes fs)(i := write_at off bs (inodes fs i))\<rparr>"

datatype write_fault = WriteOk | CreateFails string | WriteFails string nat

text \<open>\<^verbatim>\<open>std::fs::write\<close>: create, then write everything. The last fault wrote some bytes first.\<close>

definition fs_write ::
  "write_fault \<Rightarrow> path \<Rightarrow> bytes \<Rightarrow> file_system \<Rightarrow> (io_error + unit) \<times> file_system" where
  "fs_write fault p bs fs =
     (case fault of
        CreateFails e \<Rightarrow> (Inl (OtherIo e), fs)
      | WriteFails e n \<Rightarrow>
          (let (i, fs1) = fs_create p fs in (Inl (OtherIo e), fs_write_at i 0 (take n bs) fs1))
      | WriteOk \<Rightarrow> (let (i, fs1) = fs_create p fs in (Inr (), fs_write_at i 0 bs fs1)))"

text \<open>\<^verbatim>\<open>std::fs::rename\<close>: the target name now refers to the source's inode, in one step.\<close>

definition fs_rename ::
  "string option \<Rightarrow> path \<Rightarrow> path \<Rightarrow> file_system \<Rightarrow> (io_error + unit) \<times> file_system" where
  "fs_rename fault src dst fs =
     (case fault of
        Some e \<Rightarrow> (Inl (OtherIo e), fs)
      | None \<Rightarrow>
          (case names fs src of
             None \<Rightarrow> (Inl NotFound, fs)
           | Some i \<Rightarrow>
               (Inr (), if src = dst then fs
                        else fs\<lparr>names := (names fs)(src := None, dst \<mapsto> i)\<rparr>)))"

text \<open>
  A well-formed file system: names refer to inodes in use, and no two names to the same one
  (no hard links).
\<close>

definition wf_fs :: "file_system \<Rightarrow> bool" where
  "wf_fs fs \<longleftrightarrow>
     (\<forall>p i. names fs p = Some i \<longrightarrow> i < next_inode fs)
     \<and> (\<forall>p q i. names fs p = Some i \<longrightarrow> names fs q = Some i \<longrightarrow> p = q)"

lemma wf_fsD:
  assumes "wf_fs fs"
  shows "names fs p = Some i \<Longrightarrow> i < next_inode fs"
    "names fs p = Some i \<Longrightarrow> names fs q = Some i \<Longrightarrow> p = q"
  using assms by (auto simp: wf_fs_def)

lemma write_at_0 [simp]: "write_at 0 bs [] = bs"
  by (simp add: write_at_def)

lemma fs_create_props:
  assumes wf: "wf_fs fs" and c: "fs_create p fs = (i, fs')"
  shows "wf_fs fs'" and "names fs' p = Some i" and "inodes fs' i = []"
    and "q \<noteq> p \<Longrightarrow> names fs' q = names fs q" and "q \<noteq> p \<Longrightarrow> content fs' q = content fs q"
proof -
  have new: "names fs q \<noteq> Some (next_inode fs)" for q
    using wf_fsD(1) [OF wf] by blast
  show "wf_fs fs'"
  proof (cases "names fs p")
    case None
    with c have fs': "fs' = fs\<lparr>names := (names fs)(p \<mapsto> next_inode fs),
        inodes := (inodes fs)(next_inode fs := []), next_inode := Suc (next_inode fs)\<rparr>"
      by (auto simp: fs_create_def)
    show ?thesis
      unfolding wf_fs_def fs' using wf_fsD [OF wf] new by (auto intro: less_SucI split: if_splits)
  next
    case (Some j)
    with c wf show ?thesis by (auto simp: fs_create_def wf_fs_def)
  qed
  show "names fs' p = Some i" and "inodes fs' i = []"
    using c by (auto simp: fs_create_def split: option.splits)
  assume q: "q \<noteq> p"
  then show "names fs' q = names fs q"
    using c by (auto simp: fs_create_def split: option.splits)
  show "content fs' q = content fs q"
  proof (cases "names fs p")
    case None
    with c q new [of q] show ?thesis
      by (cases "names fs q") (auto simp: fs_create_def content_def)
  next
    case (Some j)
    then have "names fs q \<noteq> Some j" using wf_fsD(2) [OF wf] q by blast
    with c q Some show ?thesis
      by (cases "names fs q") (auto simp: fs_create_def content_def)
  qed
qed

text \<open>An inode in use never gets a second name, and inodes are never taken back.\<close>

lemma fs_create_keeps:
  assumes "fs_create p fs = (i, fs')"
  shows "next_inode fs \<le> next_inode fs'"
    and "j < next_inode fs \<Longrightarrow> names fs' q = Some j \<Longrightarrow> names fs q = Some j"
  using assms by (auto simp: fs_create_def split: option.splits if_splits)

lemma fs_rename_keeps:
  assumes "fs_rename fault src dst fs = (r, fs')"
  shows "next_inode fs' = next_inode fs"
    and "names fs' q = Some j \<Longrightarrow> names fs q = Some j \<or> q = dst \<and> names fs src = Some j"
  using assms by (auto simp: fs_rename_def split: option.splits if_splits)

lemma fs_write_at_other:
  "names fs q \<noteq> Some i \<Longrightarrow> content (fs_write_at i off bs fs) q = content fs q"
  by (cases "names fs q") (auto simp: fs_write_at_def content_def)

lemma fs_write_at_wf: "wf_fs fs \<Longrightarrow> wf_fs (fs_write_at i off bs fs)"
  by (simp add: fs_write_at_def wf_fs_def)

lemma fs_write_at_names [simp]:
  "names (fs_write_at i off bs fs) = names fs" "next_inode (fs_write_at i off bs fs) = next_inode fs"
  by (simp_all add: fs_write_at_def)

lemma fs_write_at_props:
  assumes "wf_fs fs" and "names fs p = Some i"
  shows "wf_fs (fs_write_at i off bs fs)"
    and "names (fs_write_at i off bs fs) = names fs"
    and "content (fs_write_at i off bs fs) p = Some (write_at off bs (inodes fs i))"
    and "q \<noteq> p \<Longrightarrow> content (fs_write_at i off bs fs) q = content fs q"
proof -
  show "wf_fs (fs_write_at i off bs fs)" using assms(1) by (rule fs_write_at_wf)
  show "names (fs_write_at i off bs fs) = names fs" by simp
  show "content (fs_write_at i off bs fs) p = Some (write_at off bs (inodes fs i))"
    using assms(2) by (simp add: fs_write_at_def content_def)
  assume "q \<noteq> p"
  then have "names fs q \<noteq> Some i" using wf_fsD(2) [OF assms(1)] assms(2) by blast
  then show "content (fs_write_at i off bs fs) q = content fs q" by (rule fs_write_at_other)
qed

text \<open>What a write and a rename do to the contents of every path, fault or not.\<close>

lemma fs_write_props:
  assumes wf: "wf_fs fs" and w: "fs_write fault p bs fs = (r, fs')"
  shows "wf_fs fs'" and "q \<noteq> p \<Longrightarrow> content fs' q = content fs q"
    and "r = Inr () \<Longrightarrow> content fs' p = Some bs"
proof -
  obtain i fs1 where c: "fs_create p fs = (i, fs1)" by (cases "fs_create p fs")
  note cp = fs_create_props [OF wf c]
  note wp = fs_write_at_props [OF cp(1,2)]
  show "wf_fs fs'"
    using w c wf wp(1) by (auto simp: fs_write_def split: write_fault.splits)
  show "content fs' p = Some bs" if "r = Inr ()"
    using that w c wp(3) cp(3) by (auto simp: fs_write_def split: write_fault.splits)
  show "content fs' q = content fs q" if "q \<noteq> p"
    using that w c wp(4) cp(5) by (auto simp: fs_write_def split: write_fault.splits)
qed

lemma fs_rename_props:
  assumes wf: "wf_fs fs" and rn: "fs_rename fault src dst fs = (r, fs')" and ne: "src \<noteq> dst"
  shows "wf_fs fs'" and "q \<noteq> src \<Longrightarrow> q \<noteq> dst \<Longrightarrow> content fs' q = content fs q"
    and "r = Inr () \<Longrightarrow> content fs' dst = content fs src \<and> content fs' src = None"
    and "r = Inl e \<Longrightarrow> fs' = fs"
proof -
  show "wf_fs fs'"
  proof (cases "fs' = fs")
    case False
    with rn ne obtain i where "names fs src = Some i"
      and fs': "fs' = fs\<lparr>names := (names fs)(src := None, dst \<mapsto> i)\<rparr>"
      by (auto simp: fs_rename_def split: option.splits)
    with wf_fsD [OF wf] show ?thesis
      unfolding wf_fs_def fs' by (auto split: if_splits)
  qed (simp add: wf)
  show "content fs' q = content fs q" if "q \<noteq> src" "q \<noteq> dst"
    using that rn ne by (auto simp: fs_rename_def content_def split: option.splits)
  show "content fs' dst = content fs src \<and> content fs' src = None" if "r = Inr ()"
    using that rn ne by (auto simp: fs_rename_def content_def split: option.splits)
  show "fs' = fs" if "r = Inl e"
    using that rn ne by (auto simp: fs_rename_def split: option.splits)
qed

end
