(* ===== verification/File_Store.thy ===== *)
theory File_Store
  imports Memory_Store Store_Durable Host_Files
begin

text \<open>
  \<^verbatim>\<open>FileStore\<close> of \<^verbatim>\<open>store/file.rs\<close>: a \<^verbatim>\<open>MemoryStore\<close> that writes the whole document to a
  snapshot file after each mutation, to a temporary file first and then by rename. The state of
  a call is the store together with the disk. The calls here run one after the other; the
  interleaving of two flushes is the subject of \<open>File_Race\<close>.
\<close>


subsection \<open>Formats\<close>

datatype format = Json | Yaml | Toml

definition format_from_path :: "path \<Rightarrow> format option" where
  "format_from_path p =
     (case Option.bind (path_extension p) (\<lambda>e. from_utf8 (str_bytes e)) of
        None \<Rightarrow> None
      | Some e \<Rightarrow>
          if e = ''json'' then Some Json
          else if e = ''yaml'' \<or> e = ''yml'' then Some Yaml
          else if e = ''toml'' then Some Toml
          else None)"

text \<open>
  The serialisers of the three crates, with the text of their errors. \<^verbatim>\<open>serde_yaml\<close> and
  \<^verbatim>\<open>toml\<close> produce a \<^verbatim>\<open>String\<close>; \<^verbatim>\<open>toml\<close> also reads one. \<open>utf8_error\<close> is the text of
  \<^verbatim>\<open>Utf8Error\<close>.
\<close>

record codec =
  json_to_vec_pretty :: "store_document \<Rightarrow> string + bytes"
  yaml_to_string :: "store_document \<Rightarrow> string + string"
  toml_to_string_pretty :: "store_document \<Rightarrow> string + string"
  json_from_slice :: "bytes \<Rightarrow> string + store_document"
  yaml_from_slice :: "bytes \<Rightarrow> string + store_document"
  toml_from_str :: "string \<Rightarrow> string + store_document"
  utf8_error :: "bytes \<Rightarrow> string"

text \<open>
  The documented behaviour of these crates: a document that is written reads back, in each
  format, and a Rust \<^verbatim>\<open>String\<close> is valid UTF-8.
\<close>

definition codec_ok :: "codec \<Rightarrow> bool" where
  "codec_ok C \<longleftrightarrow>
     (\<forall>d b. json_to_vec_pretty C d = Inr b \<longrightarrow> json_from_slice C b = Inr d)
     \<and> (\<forall>d s. yaml_to_string C d = Inr s \<longrightarrow> yaml_from_slice C (str_bytes s) = Inr d)
     \<and> (\<forall>d s. toml_to_string_pretty C d = Inr s \<longrightarrow>
              valid_utf8 (str_bytes s) \<and> toml_from_str C s = Inr d)"

definition serialize_doc :: "codec \<Rightarrow> format \<Rightarrow> store_document \<Rightarrow> store_error + bytes" where
  "serialize_doc C f doc =
     (case f of
        Json \<Rightarrow> map_err Serde (json_to_vec_pretty C doc)
      | Yaml \<Rightarrow> map_err Serde (and_then (yaml_to_string C doc) (\<lambda>s. Inr (str_bytes s)))
      | Toml \<Rightarrow> map_err Serde (and_then (toml_to_string_pretty C doc) (\<lambda>s. Inr (str_bytes s))))"

definition deserialize_doc :: "codec \<Rightarrow> format \<Rightarrow> bytes \<Rightarrow> store_error + store_document" where
  "deserialize_doc C f bs =
     (case f of
        Json \<Rightarrow> map_err Serde (json_from_slice C bs)
      | Yaml \<Rightarrow> map_err Serde (yaml_from_slice C bs)
      | Toml \<Rightarrow>
          (case from_utf8 bs of
             None \<Rightarrow> Inl (Serde (''snapshot is not valid UTF-8: '' @ utf8_error C bs))
           | Some text \<Rightarrow> map_err Serde (toml_from_str C text)))"

lemma deserialize_serialize:
  "codec_ok C \<Longrightarrow> serialize_doc C f d = Inr bs \<Longrightarrow> deserialize_doc C f bs = Inr d"
  by (cases f)
    (auto simp: codec_ok_def serialize_doc_def deserialize_doc_def and_then_eq_Inr from_utf8_def)


subsection \<open>The store\<close>

record file_store =
  path :: path
  format :: format
  memory :: memory_store

text \<open>
  What the world supplies to a call: the clock, the fault of the read of a load, and the faults of
  the write and of the rename of a flush.
\<close>

record file_env =
  file_clock :: chrono_env
  read_fault :: "string option"
  write_fault :: write_fault
  rename_fault :: "string option"

text \<open>A store and the disk it lives on.\<close>

record file_world =
  store :: file_store
  disk :: file_system

definition file_load ::
  "codec \<Rightarrow> string option \<Rightarrow> file_system \<Rightarrow> file_store \<Rightarrow> (store_error + unit) \<times> file_store" where
  "file_load C fault fs st =
     (case fs_read fault (path st) fs of
        Inl NotFound \<Rightarrow> (Inr (), st)
      | Inl e \<Rightarrow> (Inl (Io e), st)
      | Inr bs \<Rightarrow>
          (case deserialize_doc C (format st) bs of
             Inl e \<Rightarrow> (Inl e, st)
           | Inr doc \<Rightarrow> (Inr (), st\<lparr>memory := memory_replace doc (memory st)\<rparr>)))"

definition file_open :: "codec \<Rightarrow> string option \<Rightarrow> file_system \<Rightarrow> path \<Rightarrow> store_error + file_store" where
  "file_open C fault fs p =
     and_then
       (ok_or (Serde ''unsupported file extension; use .json, .yaml, .yml, or .toml'')
          (format_from_path p))
       (\<lambda>f.
          let (r, st) = file_load C fault fs \<lparr>path = p, format = f, memory = memory_new\<rparr>
          in and_then r (\<lambda>_. Inr st))"

definition with_format :: "format \<Rightarrow> file_store \<Rightarrow> file_store" where
  "with_format f st = st\<lparr>format := f\<rparr>"

definition tmp_path :: "path \<Rightarrow> path" where
  "tmp_path p = with_extension ''tmp'' p"

definition file_flush :: "codec \<Rightarrow> file_env \<Rightarrow> file_world \<Rightarrow> (store_error + unit) \<times> file_world" where
  "file_flush C e w =
     (let doc = memory_snapshot (memory (store w)) in
      case serialize_doc C (format (store w)) doc of
        Inl err \<Rightarrow> (Inl err, w)
      | Inr bs \<Rightarrow>
          let tmp = tmp_path (path (store w)) in
          (case fs_write (write_fault e) tmp bs (disk w) of
             (Inl err, fs1) \<Rightarrow> (Inl (Io err), w\<lparr>disk := fs1\<rparr>)
           | (Inr _, fs1) \<Rightarrow>
               (case fs_rename (rename_fault e) tmp (path (store w)) fs1 of
                  (Inl err, fs2) \<Rightarrow> (Inl (Io err), w\<lparr>disk := fs2\<rparr>)
                | (Inr _, fs2) \<Rightarrow> (Inr (), w\<lparr>disk := fs2\<rparr>))))"

text \<open>\<^verbatim>\<open>self.memory.op(..).await?; self.flush().await\<close>, the body of every mutation but one.\<close>

definition in_memory :: "(memory_store \<Rightarrow> 'r \<times> memory_store) \<Rightarrow> file_world \<Rightarrow> 'r \<times> file_world" where
  "in_memory f w =
     (let (r, m) = f (memory (store w)) in (r, w\<lparr>store := (store w)\<lparr>memory := m\<rparr>\<rparr>))"

definition mutate_flush ::
  "codec \<Rightarrow> file_env \<Rightarrow> (memory_store \<Rightarrow> (store_error + unit) \<times> memory_store) \<Rightarrow> file_world
     \<Rightarrow> (store_error + unit) \<times> file_world" where
  "mutate_flush C e f w =
     (case in_memory f w of
        (Inl err, w1) \<Rightarrow> (Inl err, w1)
      | (Inr _, w1) \<Rightarrow> file_flush C e w1)"

definition file_upsert_network :: "codec \<Rightarrow> file_env \<Rightarrow> network \<Rightarrow> file_world \<Rightarrow> (store_error + unit) \<times> file_world" where
  "file_upsert_network C e net = mutate_flush C e (mem_upsert_network net)"

definition file_upsert_user :: "codec \<Rightarrow> file_env \<Rightarrow> user \<Rightarrow> file_world \<Rightarrow> (store_error + unit) \<times> file_world" where
  "file_upsert_user C e u = mutate_flush C e (mem_upsert_user u)"

definition file_upsert_node :: "codec \<Rightarrow> file_env \<Rightarrow> node \<Rightarrow> file_world \<Rightarrow> (store_error + unit) \<times> file_world" where
  "file_upsert_node C e x = mutate_flush C e (mem_upsert_node x)"

definition file_delete_node :: "codec \<Rightarrow> file_env \<Rightarrow> node_id \<Rightarrow> file_world \<Rightarrow> (store_error + unit) \<times> file_world" where
  "file_delete_node C e i = mutate_flush C e (mem_delete_node i)"

definition file_upsert_preauth_key :: "codec \<Rightarrow> file_env \<Rightarrow> preauth_key \<Rightarrow> file_world \<Rightarrow> (store_error + unit) \<times> file_world" where
  "file_upsert_preauth_key C e k = mutate_flush C e (mem_upsert_preauth_key k)"

definition file_set_policy :: "codec \<Rightarrow> file_env \<Rightarrow> network_id \<Rightarrow> string \<Rightarrow> file_world \<Rightarrow> (store_error + unit) \<times> file_world" where
  "file_set_policy C e n p = mutate_flush C e (mem_set_policy n p)"

definition file_consume_preauth_key ::
  "codec \<Rightarrow> file_env \<Rightarrow> preauth_key_id \<Rightarrow> file_world \<Rightarrow> (store_error + bool) \<times> file_world" where
  "file_consume_preauth_key C e i w =
     (case in_memory (mem_consume_preauth_key (file_clock e) i) w of
        (Inl err, w1) \<Rightarrow> (Inl err, w1)
      | (Inr consumed, w1) \<Rightarrow>
          if consumed then
            (case file_flush C e w1 of
               (Inl err, w2) \<Rightarrow> (Inl err, w2)
             | (Inr _, w2) \<Rightarrow> (Inr consumed, w2))
          else (Inr consumed, w1))"

definition file_list_networks :: "file_world \<Rightarrow> store_error + network list" where
  "file_list_networks w = mem_list_networks (memory (store w))"

definition file_list_users :: "network_id \<Rightarrow> file_world \<Rightarrow> store_error + user list" where
  "file_list_users n w = mem_list_users n (memory (store w))"

definition file_list_nodes :: "network_id \<Rightarrow> file_world \<Rightarrow> store_error + node list" where
  "file_list_nodes n w = mem_list_nodes n (memory (store w))"

definition file_get_node :: "node_id \<Rightarrow> file_world \<Rightarrow> store_error + node option" where
  "file_get_node i w = mem_get_node i (memory (store w))"

definition file_list_preauth_keys :: "network_id \<Rightarrow> file_world \<Rightarrow> store_error + preauth_key list" where
  "file_list_preauth_keys n w = mem_list_preauth_keys n (memory (store w))"

definition file_get_policy :: "network_id \<Rightarrow> file_world \<Rightarrow> store_error + string option" where
  "file_get_policy n w = mem_get_policy n (memory (store w))"

text \<open>\<^verbatim>\<open>impl Store for FileStore\<close>.\<close>

definition file_ops :: "codec \<Rightarrow> (file_env, file_world) store_ops" where
  "file_ops C =
     \<lparr>list_networks = (\<lambda>_. file_list_networks),
      upsert_network = file_upsert_network C,
      list_users = (\<lambda>_. file_list_users),
      upsert_user = file_upsert_user C,
      list_nodes = (\<lambda>_. file_list_nodes),
      get_node = (\<lambda>_. file_get_node),
      upsert_node = file_upsert_node C,
      delete_node = file_delete_node C,
      list_preauth_keys = (\<lambda>_. file_list_preauth_keys),
      upsert_preauth_key = file_upsert_preauth_key C,
      consume_preauth_key = file_consume_preauth_key C,
      get_policy = (\<lambda>_. file_get_policy),
      set_policy = file_set_policy C\<rparr>"


subsection \<open>Flushing\<close>

lemma format_from_path_extension:
  "format_from_path p = Some f \<Longrightarrow>
     \<exists>x \<in> {''json'', ''yaml'', ''yml'', ''toml''}. path_extension p = Some x"
  by (auto simp: format_from_path_def from_utf8_def bind_eq_Some_conv split: if_splits option.splits)

lemma tmp_path_other:
  assumes "format_from_path p = Some f"
  shows "tmp_path p \<noteq> p"
proof -
  obtain x where x: "x \<in> {''json'', ''yaml'', ''yml'', ''toml''}" and px: "path_extension p = Some x"
    using format_from_path_extension [OF assms] by blast
  have "with_extension ''tmp'' p \<noteq> p"
    using x by (intro with_extension_other [OF px]) auto
  then show ?thesis by (simp add: tmp_path_def)
qed

text \<open>
  A flush keeps the store; on success the snapshot file holds the serialised document, on any
  failure it holds what it held before. Files other than the snapshot and its temporary are left
  alone.
\<close>

lemma flush_store [simp]: "store (snd (file_flush C e w)) = store w"
  by (auto simp: file_flush_def Let_def split: sum.splits prod.splits)

lemma flush_props:
  assumes wf: "wf_fs (disk w)" and ne: "tmp_path (path (store w)) \<noteq> path (store w)"
    and fl: "file_flush C e w = (r, w')"
  shows "wf_fs (disk w')"
    and "q \<noteq> path (store w) \<Longrightarrow> q \<noteq> tmp_path (path (store w)) \<Longrightarrow>
           content (disk w') q = content (disk w) q"
    and "r = Inr () \<Longrightarrow>
           \<exists>bs. serialize_doc C (format (store w)) (memory (store w)) = Inr bs
              \<and> content (disk w') (path (store w)) = Some bs"
    and "r = Inl err \<Longrightarrow> content (disk w') (path (store w)) = content (disk w) (path (store w))"
proof -
  let ?p = "path (store w)" and ?t = "tmp_path (path (store w))"
  have "wf_fs (disk w')
      \<and> (q \<noteq> ?p \<longrightarrow> q \<noteq> ?t \<longrightarrow> content (disk w') q = content (disk w) q)
      \<and> (r = Inr () \<longrightarrow> (\<exists>bs. serialize_doc C (format (store w)) (memory (store w)) = Inr bs
            \<and> content (disk w') ?p = Some bs))
      \<and> (r = Inl err \<longrightarrow> content (disk w') ?p = content (disk w) ?p)"
  proof (cases "serialize_doc C (format (store w)) (memory (store w))")
    case (Inl se)
    with fl wf show ?thesis by (auto simp: file_flush_def memory_snapshot_def)
  next
    case (Inr bs)
    obtain r1 fs1 where w1: "fs_write (write_fault e) ?t bs (disk w) = (r1, fs1)"
      by (cases "fs_write (write_fault e) ?t bs (disk w)")
    obtain r2 fs2 where rn: "fs_rename (rename_fault e) ?t ?p fs1 = (r2, fs2)"
      by (cases "fs_rename (rename_fault e) ?t ?p fs1")
    note wp = fs_write_props [OF wf w1]
    note rp = fs_rename_props [OF wp(1) rn ne]
    show ?thesis
      using fl Inr w1 rn wp rp ne
      by (cases r1; cases r2) (auto simp: file_flush_def memory_snapshot_def Let_def)
  qed
  then show "wf_fs (disk w')"
    and "q \<noteq> ?p \<Longrightarrow> q \<noteq> ?t \<Longrightarrow> content (disk w') q = content (disk w) q"
    and "r = Inr () \<Longrightarrow> \<exists>bs. serialize_doc C (format (store w)) (memory (store w)) = Inr bs
            \<and> content (disk w') ?p = Some bs"
    and "r = Inl err \<Longrightarrow> content (disk w') ?p = content (disk w) ?p"
    by blast+
qed

text \<open>On a disk that works, only a document the serialiser refuses makes a flush fail.\<close>

definition no_faults :: "file_env \<Rightarrow> bool" where
  "no_faults e \<longleftrightarrow> read_fault e = None \<and> write_fault e = WriteOk \<and> rename_fault e = None"

lemma calm_file_flush:
  assumes "no_faults e" and "wf_fs (disk w)"
    and "serialize_doc C (format (store w)) (memory (store w)) = Inr bs"
  shows "\<exists>w'. file_flush C e w = (Inr (), w')"
proof -
  let ?tmp = "tmp_path (path (store w))"
  obtain i d where c: "fs_create ?tmp (disk w) = (i, d)" by (cases "fs_create ?tmp (disk w)")
  have "names (fs_write_at i 0 bs d) ?tmp = Some i" using fs_create_props(2) [OF assms(2) c] by simp
  then obtain d' where "fs_rename None ?tmp (path (store w)) (fs_write_at i 0 bs d) = (Inr (), d')"
    by (auto simp: fs_rename_def)
  with assms c show ?thesis
    by (simp add: file_flush_def memory_snapshot_def no_faults_def fs_write_def Let_def)
qed


subsection \<open>Each call against the memory store\<close>

definition set_memory :: "memory_store \<Rightarrow> file_world \<Rightarrow> file_world" where
  "set_memory m w = w\<lparr>store := (store w)\<lparr>memory := m\<rparr>\<rparr>"

lemma set_memory_simps [simp]:
  "memory (store (set_memory m w)) = m" "path (store (set_memory m w)) = path (store w)"
  "format (store (set_memory m w)) = format (store w)" "disk (set_memory m w) = disk w"
  by (simp_all add: set_memory_def)

text \<open>
  A mutating call performs the memory store's call on its document and flushes, unless it is a
  refused consumption; an error of the flush replaces the reply.
\<close>

lemma file_perform:
  "perform (file_ops C) e op w =
     (let p = perform memory_ops (file_clock e) op (memory (store w)); w1 = set_memory (snd p) w in
      if fst p = Inr (Consumed False) then (fst p, w1)
      else case file_flush C e w1 of
             (Inl err, w2) \<Rightarrow> (Inl err, w2)
           | (Inr _, w2) \<Rightarrow> (fst p, w2))"
proof (cases op)
  case (ConsumePreauthKey i)
  obtain r m where c: "mem_consume_preauth_key (file_clock e) i (memory (store w)) = (r, m)"
    by (cases "mem_consume_preauth_key (file_clock e) i (memory (store w))")
  then have "\<exists>b. r = Inr b" by (auto simp: consume_by_row split: option.splits)
  with ConsumePreauthKey c show ?thesis
    by (auto simp: file_ops_def memory_ops_def file_consume_preauth_key_def in_memory_def
        consumed_reply_def set_memory_def Let_def split: sum.splits prod.splits)
qed (auto simp: file_ops_def memory_ops_def store_simps mutate_flush_def in_memory_def
      file_upsert_network_def file_upsert_user_def file_upsert_node_def file_delete_node_def
      file_upsert_preauth_key_def file_set_policy_def
      done_reply_def set_memory_def Let_def split: sum.splits prod.splits)

lemma flush_storeD: "file_flush C e w = (r, w') \<Longrightarrow> store w' = store w"
  by (metis flush_store snd_conv)

text \<open>
  The simulation: whatever the disk does, a call moves the document as the memory store's call
  does, and an \<^verbatim>\<open>Ok\<close> reply is the memory store's.
\<close>

lemma file_simulates_memory:
  assumes "perform (file_ops C) e op w = (r, w')"
    and "perform memory_ops (file_clock e) op (memory (store w)) = (q, m)"
  shows "store w' = (store w)\<lparr>memory := m\<rparr>" and "r = Inr x \<Longrightarrow> q = Inr x"
proof -
  have "r = Inr x \<longrightarrow> q = Inr x" and "store w' = store (set_memory m w)"
    using assms
    by (auto simp: file_perform Let_def dest: flush_storeD split: if_splits sum.splits prod.splits)
  then show "store w' = (store w)\<lparr>memory := m\<rparr>" and "r = Inr x \<Longrightarrow> q = Inr x"
    by (simp_all add: set_memory_def)
qed

definition world_abs :: "file_world \<Rightarrow> store_spec" where
  "world_abs w = doc_abs (memory (store w))"

definition world_inv :: "file_world \<Rightarrow> bool" where
  "world_inv w \<longleftrightarrow> wf_doc (memory (store w))"

lemma file_contract_step:
  assumes "perform (file_ops C) e op w = (r, w')"
  shows "world_inv w \<Longrightarrow> world_inv w'"
    and "world_abs w' = spec_step (file_clock e) op (world_abs w)"
    and "r = Inr x \<Longrightarrow> x = spec_reply (file_clock e) op (world_abs w)"
proof -
  obtain q m where q: "perform memory_ops (file_clock e) op (memory (store w)) = (q, m)"
    by (cases "perform memory_ops (file_clock e) op (memory (store w))")
  note sim = file_simulates_memory [OF assms q]
  note mp = mem_perform [OF q]
  show "world_inv w \<Longrightarrow> world_inv w'" using sim(1) mp by (simp add: world_inv_def)
  show "world_abs w' = spec_step (file_clock e) op (world_abs w)"
    using sim(1) mp by (simp add: world_abs_def)
  show "r = Inr x \<Longrightarrow> x = spec_reply (file_clock e) op (world_abs w)"
    using sim(2) mp by (simp add: world_abs_def)
qed

lemmas file_reads [store_simps] =
  file_list_networks_def file_list_users_def file_list_nodes_def file_get_node_def
  file_list_preauth_keys_def file_get_policy_def

text \<open>\<^verbatim>\<open>FileStore\<close> meets the contract of the trait, with any serialisers and any faults.\<close>

interpretation fstore: store_contract "file_ops C" world_abs world_inv file_clock for C
proof (unfold_locales, goal_cases)
  case (1 st e op r st') show ?case using 1(2,1) by (rule file_contract_step)
next
  case (2 st e op r st') show ?case using 2(2) by (rule file_contract_step)
next
  case (3 st e op x st') show ?case using 3(2) by (rule file_contract_step) simp
qed (auto simp: file_ops_def store_simps world_abs_def world_inv_def doc_abs_def
      row_def [symmetric] set_row [symmetric] distinct_map wf_doc_def)


subsection \<open>Restarts\<close>

text \<open>
  A restart opens the same path again. Its invariant: the store was opened (so its format is the
  one of its path), the serialisers keep their documented behaviour, and a document on disk is
  well-formed.
\<close>

definition disk_ok :: "codec \<Rightarrow> file_world \<Rightarrow> bool" where
  "disk_ok C w \<longleftrightarrow>
     (\<forall>bs d. content (disk w) (path (store w)) = Some bs \<longrightarrow>
        deserialize_doc C (format (store w)) bs = Inr d \<longrightarrow> wf_doc d)"

definition durable_inv :: "codec \<Rightarrow> file_world \<Rightarrow> bool" where
  "durable_inv C w \<longleftrightarrow>
     world_inv w \<and> codec_ok C \<and> wf_fs (disk w) \<and> disk_ok C w
     \<and> format_from_path (path (store w)) = Some (format (store w))"

definition reopen :: "codec \<Rightarrow> file_world \<Rightarrow> file_world option" where
  "reopen C w =
     (case file_open C None (disk w) (path (store w)) of
        Inl _ \<Rightarrow> None
      | Inr st \<Rightarrow> Some (w\<lparr>store := st\<rparr>))"

text \<open>
  A load into the running store: on a failure to read or to parse, and when the file is missing, the
  store stays as it is.
\<close>

definition file_reload :: "codec \<Rightarrow> file_env \<Rightarrow> file_world \<Rightarrow> file_world" where
  "file_reload C e w = w\<lparr>store := snd (file_load C (read_fault e) (disk w) (store w))\<rparr>"

definition flush_again :: "codec \<Rightarrow> file_env \<Rightarrow> file_world \<Rightarrow> file_world" where
  "flush_again C e w = snd (file_flush C e w)"

definition saved_spec :: "codec \<Rightarrow> file_world \<Rightarrow> store_spec option" where
  "saved_spec C w = map_option world_abs (reopen C w)"

lemma open_none:
  "format_from_path p = Some f \<Longrightarrow> content fs p = None \<Longrightarrow>
     file_open C None fs p = Inr \<lparr>path = p, format = f, memory = memory_new\<rparr>"
  by (simp add: file_open_def file_load_def fs_read_def)

lemma open_some:
  "format_from_path p = Some f \<Longrightarrow> content fs p = Some bs \<Longrightarrow>
     file_open C None fs p =
       and_then (deserialize_doc C f bs) (\<lambda>d. Inr \<lparr>path = p, format = f, memory = d\<rparr>)"
  by (simp add: file_open_def file_load_def fs_read_def memory_replace_def split: sum.split)

text \<open>What a reopened store holds, by the content of its file.\<close>

lemma reopen_eq:
  assumes "format_from_path (path (store w)) = Some (format (store w))"
  shows "reopen C w =
    (case content (disk w) (path (store w)) of
       None \<Rightarrow> Some (set_memory memory_new w)
     | Some bs \<Rightarrow>
         (case deserialize_doc C (format (store w)) bs of
            Inl _ \<Rightarrow> None
          | Inr d \<Rightarrow> Some (set_memory d w)))"
proof -
  have st: "\<lparr>path = path (store w), format = format (store w), memory = m\<rparr> = (store w)\<lparr>memory := m\<rparr>"
    for m by simp
  show ?thesis
    using assms by (auto simp: reopen_def open_none open_some st set_memory_def
        simp del: file_store.update_convs split: option.splits sum.splits)
qed

definition decoded_spec :: "codec \<Rightarrow> format \<Rightarrow> bytes option \<Rightarrow> store_spec option" where
  "decoded_spec C f c =
    (case c of
       None \<Rightarrow> Some (doc_abs memory_new)
     | Some bs \<Rightarrow>
         (case deserialize_doc C f bs of
            Inl _ \<Rightarrow> None
          | Inr d \<Rightarrow> Some (doc_abs d)))"

lemma saved_spec_eq:
  assumes "format_from_path (path (store w)) = Some (format (store w))"
  shows "saved_spec C w = decoded_spec C (format (store w)) (content (disk w) (path (store w)))"
  by (simp add: saved_spec_def reopen_eq [OF assms] world_abs_def decoded_spec_def
      split: option.split sum.split)

lemma wf_memory_new [simp]: "wf_doc memory_new"
  by (simp add: memory_new_def wf_doc_def)

lemma reopen_keeps:
  assumes inv: "durable_inv C w" and ro: "reopen C w = Some w'"
  shows "durable_inv C w'" and "saved_spec C w = Some (world_abs w')"
    and "saved_spec C w' = saved_spec C w"
proof -
  have f: "format_from_path (path (store w)) = Some (format (store w))"
    using inv by (simp add: durable_inv_def)
  obtain m where w': "w' = set_memory m w" and wf: "wf_doc m"
    using ro inv by (auto simp: reopen_eq [OF f] durable_inv_def disk_ok_def
        split: option.splits sum.splits)
  show "durable_inv C w'"
    using inv wf w' by (simp add: durable_inv_def disk_ok_def world_inv_def)
  show "saved_spec C w = Some (world_abs w')"
    using ro by (simp add: saved_spec_def)
  have "format_from_path (path (store w')) = Some (format (store w'))" using f w' by simp
  then show "saved_spec C w' = saved_spec C w" using w' by (simp add: saved_spec_eq f)
qed

lemma flush_saves:
  assumes inv: "durable_inv C w" and fl: "file_flush C e w = (r, w')"
  shows "durable_inv C w'"
    and "saved_spec C w' = (case r of Inl _ \<Rightarrow> saved_spec C w | Inr _ \<Rightarrow> Some (world_abs w'))"
proof -
  have f: "format_from_path (path (store w)) = Some (format (store w))"
    and C: "codec_ok C" and wf: "wf_fs (disk w)"
    using inv by (simp_all add: durable_inv_def)
  note fp = flush_props [OF wf tmp_path_other [OF f] fl]
  have st: "store w' = store w" using fl by (rule flush_storeD)
  have f': "format_from_path (path (store w')) = Some (format (store w'))" using f st by simp
  have "durable_inv C w' \<and>
      saved_spec C w' = (case r of Inl _ \<Rightarrow> saved_spec C w | Inr _ \<Rightarrow> Some (world_abs w'))"
  proof (cases r)
    case (Inl err)
    with fp(1,4) inv st show ?thesis
      by (simp add: durable_inv_def world_inv_def disk_ok_def saved_spec_eq f f')
  next
    case (Inr u)
    then obtain bs where bs: "serialize_doc C (format (store w)) (memory (store w)) = Inr bs"
      and c: "content (disk w') (path (store w)) = Some bs" using fp(3) by auto
    have "deserialize_doc C (format (store w)) bs = Inr (memory (store w))"
      using C bs by (rule deserialize_serialize)
    with c Inr fp(1) inv st show ?thesis
      by (simp add: durable_inv_def world_inv_def disk_ok_def saved_spec_eq [OF f'] world_abs_def
          decoded_spec_def)
  qed
  then show "durable_inv C w'"
    and "saved_spec C w' = (case r of Inl _ \<Rightarrow> saved_spec C w | Inr _ \<Rightarrow> Some (world_abs w'))"
    by blast+
qed

lemma set_memory_durable:
  assumes "durable_inv C w" and "wf_doc m"
  shows "durable_inv C (set_memory m w)" and "saved_spec C (set_memory m w) = saved_spec C w"
proof -
  have f: "format_from_path (path (store w)) = Some (format (store w))"
    using assms(1) by (simp add: durable_inv_def)
  then have "format_from_path (path (store (set_memory m w))) = Some (format (store (set_memory m w)))"
    by simp
  then show "saved_spec C (set_memory m w) = saved_spec C w" by (simp add: saved_spec_eq f)
  show "durable_inv C (set_memory m w)"
    using assms by (simp add: durable_inv_def world_inv_def disk_ok_def)
qed

lemma file_perform_saves:
  assumes inv: "durable_inv C w" and p: "perform (file_ops C) e op w = (r, w')"
  shows "durable_inv C w'"
    and "saved_spec C w' = saved_spec C w \<or> saved_spec C w' = Some (world_abs w')"
    and "r = Inr x \<Longrightarrow> world_abs w' \<noteq> world_abs w \<Longrightarrow> saved_spec C w' = Some (world_abs w')"
proof -
  obtain q m where q: "perform memory_ops (file_clock e) op (memory (store w)) = (q, m)"
    by (cases "perform memory_ops (file_clock e) op (memory (store w))")
  have wm: "wf_doc m" using mem_perform [OF q] inv by (simp add: durable_inv_def world_inv_def)
  note sm = set_memory_durable [OF inv wm]
  have "durable_inv C w'
      \<and> (saved_spec C w' = saved_spec C w \<or> saved_spec C w' = Some (world_abs w'))
      \<and> (r = Inr x \<longrightarrow> world_abs w' \<noteq> world_abs w \<longrightarrow> saved_spec C w' = Some (world_abs w'))"
  proof (cases "q = Inr (Consumed False)")
    case True
    then have w': "w' = set_memory m w" using p q by (simp add: file_perform)
    obtain i where op: "op = ConsumePreauthKey i"
      using True mem_perform [OF q] by (cases op) auto
    have "\<not> spec_consumes (file_clock e) i (world_abs w)"
      using True mem_perform [OF q] op by (simp add: world_abs_def)
    then have "spec_step (file_clock e) op (world_abs w) = world_abs w"
      using op by (auto simp: spec_consumes_def split: option.split)
    then have "world_abs w' = world_abs w" using file_contract_step(2) [OF p] by simp
    with w' sm show ?thesis by simp
  next
    case False
    obtain u where fl: "file_flush C e (set_memory m w) = (u, w')"
      and r: "r = (case u of Inl err \<Rightarrow> Inl err | Inr _ \<Rightarrow> q)"
      using p q False by (auto simp: file_perform Let_def split: sum.splits prod.splits)
    from flush_saves [OF sm(1) fl] sm(2) r show ?thesis by (cases u) auto
  qed
  then show "durable_inv C w'"
    and "saved_spec C w' = saved_spec C w \<or> saved_spec C w' = Some (world_abs w')"
    and "r = Inr x \<Longrightarrow> world_abs w' \<noteq> world_abs w \<Longrightarrow> saved_spec C w' = Some (world_abs w')"
    by blast+
qed

lemma reload_eq:
  "file_reload C e w = w \<or>
     (\<exists>bs d. content (disk w) (path (store w)) = Some bs
        \<and> deserialize_doc C (format (store w)) bs = Inr d \<and> file_reload C e w = set_memory d w)"
proof (cases "content (disk w) (path (store w))")
  case None
  then show ?thesis
    by (simp add: file_reload_def file_load_def fs_read_def split: option.split)
next
  case (Some bs)
  then show ?thesis
    by (cases "deserialize_doc C (format (store w)) bs")
      (auto simp: file_reload_def file_load_def fs_read_def memory_replace_def set_memory_def
        split: option.split)
qed

lemma reload_keeps_durable:
  assumes inv: "durable_inv C w"
  shows "durable_inv C (file_reload C e w)"
    and "saved_spec C (file_reload C e w) = saved_spec C w"
    and "world_abs (file_reload C e w) = world_abs w
      \<or> saved_spec C w = Some (world_abs (file_reload C e w))"
proof -
  have f: "format_from_path (path (store w)) = Some (format (store w))"
    using inv by (simp add: durable_inv_def)
  have "durable_inv C (file_reload C e w) \<and> saved_spec C (file_reload C e w) = saved_spec C w
    \<and> (world_abs (file_reload C e w) = world_abs w
       \<or> saved_spec C w = Some (world_abs (file_reload C e w)))"
    using reload_eq [of C e w]
  proof (elim disjE exE conjE)
    fix bs d
    assume bs: "content (disk w) (path (store w)) = Some bs"
      "deserialize_doc C (format (store w)) bs = Inr d" and r: "file_reload C e w = set_memory d w"
    then have "wf_doc d" using inv by (auto simp: durable_inv_def disk_ok_def)
    then show ?thesis
      using inv bs r by (simp add: durable_inv_def disk_ok_def world_inv_def saved_spec_eq f
          decoded_spec_def world_abs_def)
  qed (simp add: inv)
  then show "durable_inv C (file_reload C e w)"
    and "saved_spec C (file_reload C e w) = saved_spec C w"
    and "world_abs (file_reload C e w) = world_abs w
      \<or> saved_spec C w = Some (world_abs (file_reload C e w))"
    by blast+
qed

text \<open>\<^verbatim>\<open>FileStore\<close>, called sequentially, is durable.\<close>

interpretation durable: durable_store
  "file_ops C" world_abs "durable_inv C" file_clock "saved_spec C" "reopen C"
  "file_reload C" "flush_again C" for C
proof (unfold_locales, goal_cases)
  case (1 st e op r st') then show ?case by (rule file_perform_saves)
next
  case (2 st e op r st') show ?case using 2(2) by (rule file_contract_step)
next
  case (3 st e op x st') show ?case using 3(2) by (rule file_contract_step) simp
next
  case (4 st e) then show ?case by (intro fstore.networks_read) (simp add: durable_inv_def)
next
  case (5 st e n) then show ?case by (intro fstore.users_read) (simp add: durable_inv_def)
next
  case (6 st e n) then show ?case by (intro fstore.nodes_read) (simp add: durable_inv_def)
next
  case (7 st e i) then show ?case by (intro fstore.node_read) (simp add: durable_inv_def)
next
  case (8 st e n) then show ?case by (intro fstore.keys_read) (simp add: durable_inv_def)
next
  case (9 st e n) then show ?case by (intro fstore.policy_read) (simp add: durable_inv_def)
next
  case (10 st st') then show ?case by (simp add: reopen_keeps)
next
  case (11 st e op r st') then show ?case by (rule file_perform_saves)
next
  case (12 st e op x st') show ?case using 12(1,2) _ 12(3) by (rule file_perform_saves) simp
next
  case (13 st e) then show ?case by (simp add: reload_keeps_durable)
next
  case (14 st e)
  obtain r st' where "file_flush C e st = (r, st')" by (cases "file_flush C e st")
  with flush_saves [OF 14 this] show ?case
    by (auto simp: flush_again_def world_abs_def dest: flush_storeD split: sum.splits)
qed

end
