(* ===== verification/Store_Samples.thy ===== *)
theory Store_Samples
  imports File_Store
begin

text \<open>
  Concrete inputs for the store: a serialiser that writes a document as its index in a fixed list
  (it has the documented round trip in every format), a clock, a file system, and documents with
  one network or one pre-auth key. The properties are applied to them to show that their
  hypotheses can hold together.
\<close>


subsection \<open>A serialiser\<close>

definition doc_index :: "store_document list \<Rightarrow> store_document \<Rightarrow> string + nat" where
  "doc_index ds d = ok_or ''no such document'' (find_index (\<lambda>x. x = d) ds)"

definition doc_at :: "store_document list \<Rightarrow> bytes \<Rightarrow> string + store_document" where
  "doc_at ds bs =
     (case bs of
        [b] \<Rightarrow> if unat b < length ds then Inr (ds ! unat b) else Inl ''no such document''
      | _ \<Rightarrow> Inl ''not one byte'')"

definition table_codec :: "store_document list \<Rightarrow> codec" where
  "table_codec ds =
     \<lparr>json_to_vec_pretty = (\<lambda>d. and_then (doc_index ds d) (\<lambda>j. Inr [of_nat j])),
      yaml_to_string = (\<lambda>d. and_then (doc_index ds d) (\<lambda>j. Inr [char_of j])),
      toml_to_string_pretty = (\<lambda>d. and_then (doc_index ds d) (\<lambda>j. Inr [char_of j])),
      json_from_slice = doc_at ds,
      yaml_from_slice = doc_at ds,
      toml_from_str = (\<lambda>s. doc_at ds (str_bytes s)),
      utf8_error = (\<lambda>_. ''invalid utf-8'')\<rparr>"

lemma doc_index_at:
  assumes "length ds \<le> 128" and "doc_index ds d = Inr j"
  shows "doc_at ds [of_nat j] = Inr d" and "j < 128"
proof -
  have "j < length ds" "ds ! j = d"
    using assms(2) find_index_Some [of "\<lambda>x. x = d" ds j] by (auto simp: doc_index_def)
  with assms(1) show "doc_at ds [of_nat j] = Inr d" "j < 128"
    by (simp_all add: doc_at_def unat_of_nat)
qed

lemma str_bytes_ascii: "n < 128 \<Longrightarrow> str_bytes [char_of n] = [of_nat n]"
  by (simp add: str_bytes_def)

lemma table_codec_ok:
  assumes "length ds \<le> 128"
  shows "codec_ok (table_codec ds)"
proof -
  have ascii: "(of_nat j :: u8) < 0x80" if "j < 128" for j :: nat
    using that by (simp add: word_less_nat_alt unat_of_nat)
  show ?thesis
    unfolding codec_ok_def table_codec_def
    by (auto simp: and_then_eq_Inr str_bytes_ascii doc_index_at [OF assms] ascii
        intro!: valid_utf8_ascii)
qed


subsection \<open>Documents\<close>

definition noon :: chrono_env where
  "noon = \<lparr>parse_rfc3339 = (\<lambda>s. if s = ''2026-01-01T12:00:00Z'' then Some 12 else None), utc_now = 12\<rparr>"

definition sample_network :: "u64 \<Rightarrow> string \<Rightarrow> network" where
  "sample_network i nm =
     \<lparr>net_id = NetworkId i, net_name = nm, server_host = ''control.example'',
      ipv4_prefix = ''100.64.0.0/10'', ipv6_prefix = ''fd7a:115c:a1e0::/48'', noise_key_id = ''k1'',
      net_policy = None, created_at = ''2026-01-01T12:00:00Z''\<rparr>"

definition sample_node :: "u64 \<Rightarrow> u64 \<Rightarrow> node" where
  "sample_node i n =
     \<lparr>nod_id = NodeId i, nod_network_id = NetworkId n, nod_user_id = UserId 1, machine_key = ''mkey:1'',
      node_key = ''nodekey:1'', disco_key = ''discokey:1'', nod_ipv4 = None, nod_ipv6 = None, nod_tags = []\<rparr>"

definition sample_key :: preauth_key where
  "sample_key =
     \<lparr>pak_id = PreAuthKeyId 7, pak_network_id = NetworkId 1, prefix = ''oxs'', secret_hash = ''h'',
      reusable = False, ephemeral = False, used = False, expires_at = None, pak_tags = []\<rparr>"

definition key_doc :: "bool \<Rightarrow> store_document" where
  "key_doc u = memory_new\<lparr>preauth_keys := [sample_key\<lparr>used := u\<rparr>]\<rparr>"

lemma wf_key_doc [simp]: "wf_doc (key_doc u)"
  by (simp add: key_doc_def wf_doc_def memory_new_def)

lemma sample_key_fields [simp]:
  "pak_id sample_key = PreAuthKeyId 7" "\<not> reusable sample_key" "\<not> used sample_key"
  "expires_at sample_key = None"
  by (simp_all add: sample_key_def)

lemma key_doc_row [simp]:
  "row pak_id (preauth_keys (key_doc u)) (PreAuthKeyId 7) = Some (sample_key\<lparr>used := u\<rparr>)"
  by (simp add: key_doc_def)

lemma sample_key_used: "sample_key\<lparr>used := False\<rparr> = sample_key"
  by (simp add: sample_key_def)

lemma key_doc_key: "sp_keys (doc_abs (key_doc False)) (PreAuthKeyId 7) = Some sample_key"
  by (simp add: doc_abs_def sample_key_used)

lemma consume_key_doc:
  "mem_consume_preauth_key c (PreAuthKeyId 7) (key_doc u) = (Inr (\<not> u), key_doc True)"
  by (cases u)
    (simp_all add: mem_consume_preauth_key_def key_doc_def preauth_key_expired_def memory_new_def)


subsection \<open>A disk\<close>

definition empty_fs :: file_system where
  "empty_fs = \<lparr>names = Map.empty, inodes = (\<lambda>_. []), next_inode = 0\<rparr>"

definition json_path :: path where
  "json_path = [RootDir, Normal ''db'', Normal ''store.json'']"

lemma wf_empty_fs [simp]: "wf_fs empty_fs"
  by (simp add: wf_fs_def empty_fs_def)

lemma json_path_format [simp]: "format_from_path json_path = Some Json"
proof -
  have "str_bytes ''json'' = [0x6A, 0x73, 0x6F, 0x6E]" by (simp add: str_bytes_def)
  then have "valid_utf8 (str_bytes ''json'')" by (simp add: valid_utf8_ascii)
  then show ?thesis
    by (simp add: format_from_path_def json_path_def path_extension_def file_name_def
        os_extension_def from_utf8_def)
qed

definition key_world :: file_world where
  "key_world =
     \<lparr>store = \<lparr>path = json_path, format = Json, memory = key_doc False\<rparr>, disk = empty_fs\<rparr>"

definition key_codec :: codec where
  "key_codec = table_codec [key_doc False, key_doc True, memory_new]"

lemma key_codec_ok [simp]: "codec_ok key_codec"
  by (simp add: key_codec_def table_codec_ok)

definition calm :: file_env where
  "calm = \<lparr>file_clock = noon, read_fault = None, write_fault = WriteOk, rename_fault = None\<rparr>"

lemma calm_no_faults [simp]: "no_faults calm" "file_clock calm = noon"
  by (simp_all add: no_faults_def calm_def)

definition full_disk :: file_env where
  "full_disk = \<lparr>file_clock = noon, read_fault = None, write_fault = WriteFails ''no space left'' 1, rename_fault = None\<rparr>"

lemma key_docs_differ [simp]: "key_doc False \<noteq> key_doc True" "key_doc u \<noteq> memory_new"
  by (simp_all add: key_doc_def memory_new_def sample_key_def)

lemma key_doc_json [simp]:
  "serialize_doc key_codec Json (key_doc u) = Inr [if u then 1 else 0]"
  by (simp add: serialize_doc_def key_codec_def table_codec_def doc_index_def)

lemma durable_key_world [simp]: "durable_inv key_codec key_world"
  by (simp add: durable_inv_def world_inv_def key_world_def disk_ok_def empty_fs_def content_def)
    (simp add: wf_fs_def)

text \<open>Every flush to the full disk fails.\<close>

lemma full_disk_flush: "\<exists>err w'. file_flush C full_disk w = (Inl err, w')"
proof (cases "serialize_doc C (format (store w)) (memory (store w))")
  case (Inr bs)
  obtain i fs where "fs_create (tmp_path (path (store w))) (disk w) = (i, fs)"
    by (cases "fs_create (tmp_path (path (store w))) (disk w)")
  with Inr show ?thesis
    by (simp add: file_flush_def memory_snapshot_def full_disk_def fs_write_def)
qed (simp add: file_flush_def memory_snapshot_def)

end
