(* ===== verification/File_Race.thy ===== *)
theory File_Race
  imports File_Store
begin

text \<open>
  Mutating calls of one \<^verbatim>\<open>FileStore\<close> running in parallel, as tasks on the threads of the runtime
  do. A call takes the write lock for its change of the document, releases it, and then flushes
  with no lock held: it reads the document under the read lock and serialises it, creates (or
  truncates) the temporary file, writes it piece by piece, and renames it. The step relation
  interleaves these actions of any number of tasks.
\<close>


subsection \<open>Tasks and their steps\<close>

datatype phase =
    Waiting
  | Mutated reply
  | Snapped reply bytes
  | Writing reply nat nat bytes
  | Returned "store_error + reply"

text \<open>
  \<open>Writing r i off bs\<close>: the call will reply \<open>r\<close>; its open file is inode \<open>i\<close>, the next write
  goes to offset \<open>off\<close>, and \<open>bs\<close> is still to be written. A task is the clock of its call, the
  operation and the phase.
\<close>

type_synonym task = "chrono_env \<times> store_op \<times> phase"

record race =
  race_memory :: memory_store
  race_disk :: file_system
  tasks :: "nat \<rightharpoonup> task"

definition after_mutation :: "store_error + reply \<Rightarrow> phase" where
  "after_mutation q =
     (case q of
        Inl e \<Rightarrow> Returned (Inl e)
      | Inr r \<Rightarrow> if r = Consumed False then Returned (Inr r) else Mutated r)"

definition goto :: "nat \<Rightarrow> chrono_env \<Rightarrow> store_op \<Rightarrow> phase \<Rightarrow> race \<Rightarrow> race" where
  "goto t c op ph s = s\<lparr>tasks := (tasks s)(t \<mapsto> (c, op, ph))\<rparr>"

inductive race_step :: "codec \<Rightarrow> format \<Rightarrow> path \<Rightarrow> race \<Rightarrow> race \<Rightarrow> bool" for C f p where
  mutate:
    "tasks s t = Some (c, op, Waiting) \<Longrightarrow> perform memory_ops c op (race_memory s) = (q, m) \<Longrightarrow>
     race_step C f p s (goto t c op (after_mutation q) (s\<lparr>race_memory := m\<rparr>))"
| snapshot:
    "tasks s t = Some (c, op, Mutated r) \<Longrightarrow>
     serialize_doc C f (memory_snapshot (race_memory s)) = Inr bs \<Longrightarrow>
     race_step C f p s (goto t c op (Snapped r bs) s)"
| snapshot_fails:
    "tasks s t = Some (c, op, Mutated r) \<Longrightarrow>
     serialize_doc C f (memory_snapshot (race_memory s)) = Inl e \<Longrightarrow>
     race_step C f p s (goto t c op (Returned (Inl e)) s)"
| create:
    "tasks s t = Some (c, op, Snapped r bs) \<Longrightarrow>
     fs_create (tmp_path p) (race_disk s) = (i, d) \<Longrightarrow>
     race_step C f p s (goto t c op (Writing r i 0 bs) (s\<lparr>race_disk := d\<rparr>))"
| create_fails:
    "tasks s t = Some (c, op, Snapped r bs) \<Longrightarrow>
     race_step C f p s (goto t c op (Returned (Inl (Io (OtherIo e)))) s)"
| write_some:
    "tasks s t = Some (c, op, Writing r i off bs) \<Longrightarrow> 0 < n \<Longrightarrow> n \<le> length bs \<Longrightarrow>
     race_step C f p s
       (goto t c op (Writing r i (off + n) (drop n bs))
          (s\<lparr>race_disk := fs_write_at i off (take n bs) (race_disk s)\<rparr>))"
| write_fails:
    "tasks s t = Some (c, op, Writing r i off bs) \<Longrightarrow>
     race_step C f p s (goto t c op (Returned (Inl (Io (OtherIo e)))) s)"
| rename:
    "tasks s t = Some (c, op, Writing r i off []) \<Longrightarrow>
     fs_rename None (tmp_path p) p (race_disk s) = (u, d) \<Longrightarrow>
     race_step C f p s
       (goto t c op (Returned (and_then (map_err Io u) (\<lambda>_. Inr r))) (s\<lparr>race_disk := d\<rparr>))"

abbreviation race_steps :: "codec \<Rightarrow> format \<Rightarrow> path \<Rightarrow> race \<Rightarrow> race \<Rightarrow> bool" where
  "race_steps C f p \<equiv> (race_step C f p)\<^sup>*\<^sup>*"

definition race_start :: "memory_store \<Rightarrow> file_system \<Rightarrow> (nat \<rightharpoonup> chrono_env \<times> store_op) \<Rightarrow> race" where
  "race_start m d calls =
     \<lparr>race_memory = m, race_disk = d, tasks = (\<lambda>t. map_option (\<lambda>(c, op). (c, op, Waiting)) (calls t))\<rparr>"

lemma goto_simps [simp]:
  "tasks (goto t c op ph s) = (tasks s)(t \<mapsto> (c, op, ph))"
  "race_memory (goto t c op ph s) = race_memory s"
  "race_disk (goto t c op ph s) = race_disk s"
  by (simp_all add: goto_def)

text \<open>Every step moves one task, and keeps its clock and operation.\<close>

fun phase_reply :: "phase \<Rightarrow> reply option" where
  "phase_reply Waiting = None"
| "phase_reply (Mutated r) = Some r"
| "phase_reply (Snapped r bs) = Some r"
| "phase_reply (Writing r i off bs) = Some r"
| "phase_reply (Returned (Inr r)) = Some r"
| "phase_reply (Returned (Inl e)) = None"

text \<open>Task \<open>t\<close> has redeemed key \<open>i\<close>: its call replies, or is going to reply, \<^verbatim>\<open>Ok(true)\<close>.\<close>

definition holds_win :: "preauth_key_id \<Rightarrow> race \<Rightarrow> nat \<Rightarrow> bool" where
  "holds_win i s t \<longleftrightarrow>
     (\<exists>c ph. tasks s t = Some (c, ConsumePreauthKey i, ph) \<and> phase_reply ph = Some (Consumed True))"


subsection \<open>One winner under every interleaving\<close>

definition win_inv :: "preauth_key_id \<Rightarrow> race \<Rightarrow> bool" where
  "win_inv i s \<longleftrightarrow>
     single_use i (doc_abs (race_memory s))
     \<and> (\<forall>t c op ph. tasks s t = Some (c, op, ph) \<longrightarrow> \<not> rekeys i op)
     \<and> (\<forall>t. holds_win i s t \<longrightarrow> spent i (doc_abs (race_memory s)))
     \<and> (\<forall>t u. holds_win i s t \<longrightarrow> holds_win i s u \<longrightarrow> t = u)"

text \<open>
  A step that leaves the document alone: the moved task keeps its operation and keeps or loses
  its reply.
\<close>

lemma win_inv_quiet:
  assumes "win_inv i s" and "tasks s t = Some (c, op, ph)" and "race_memory s' = race_memory s"
    and "tasks s' = (tasks s)(t \<mapsto> (c, op, ph'))"
    and "phase_reply ph' = None \<or> phase_reply ph' = phase_reply ph"
  shows "win_inv i s'"
proof -
  have w: "holds_win i s' u \<Longrightarrow> holds_win i s u" for u
    using assms(2,4,5) by (auto simp: holds_win_def split: if_splits)
  show ?thesis
    unfolding win_inv_def
  proof (intro conjI allI impI)
    show "single_use i (doc_abs (race_memory s'))"
      using assms(1,3) by (simp add: win_inv_def)
    show "\<not> rekeys i op1" if "tasks s' u = Some (c1, op1, ph1)" for u c1 op1 ph1
      using that assms(1,2,4) unfolding win_inv_def by (metis fun_upd_apply option.inject prod.inject)
    show "spent i (doc_abs (race_memory s'))" if "holds_win i s' u" for u
      using w [OF that] assms(1,3) by (auto simp: win_inv_def)
    show "u = v" if "holds_win i s' u" "holds_win i s' v" for u v
      using w [OF that(1)] w [OF that(2)] assms(1) by (auto simp: win_inv_def)
  qed
qed

lemma win_inv_mutate:
  assumes inv: "win_inv i s" and t: "tasks s t = Some (c, op, Waiting)"
    and pf: "perform memory_ops c op (race_memory s) = (q, m)"
  shows "win_inv i (goto t c op (after_mutation q) (s\<lparr>race_memory := m\<rparr>))" (is "win_inv i ?s")
proof -
  have nr: "\<not> rekeys i op" using inv t by (auto simp: win_inv_def)
  note mp = mem_perform [OF pf]
  have old: "holds_win i ?s u \<longleftrightarrow> holds_win i s u" if "u \<noteq> t" for u
    using that by (simp add: holds_win_def)
  have new: "spec_consumes c i (doc_abs (race_memory s))
      \<and> spent i (doc_abs (race_memory ?s))" if "holds_win i ?s t"
  proof -
    from that have op: "op = ConsumePreauthKey i" and "phase_reply (after_mutation q) = Some (Consumed True)"
      by (auto simp: holds_win_def)
    then have c: "spec_consumes c i (doc_abs (race_memory s))"
      using mp by (auto simp: after_mutation_def split: if_splits)
    have "spent i (spec_step c (ConsumePreauthKey i) (doc_abs (race_memory s)))"
      using inv c by (intro consume_spends) (simp_all add: win_inv_def)
    with c mp op show ?thesis by simp
  qed
  have clash: False if "holds_win i ?s t" "holds_win i s u" for u
    using new [OF that(1)] that(2) inv spent_no_consume by (auto simp: win_inv_def)
  show ?thesis
    unfolding win_inv_def
  proof (intro conjI allI impI)
    show "single_use i (doc_abs (race_memory ?s))"
      using mp inv nr by (simp add: win_inv_def single_use_step)
    show "\<not> rekeys i op1" if "tasks ?s u = Some (c1, op1, ph1)" for u c1 op1 ph1
      using that inv nr by (auto simp: win_inv_def split: if_splits)
    show "spent i (doc_abs (race_memory ?s))" if "holds_win i ?s u" for u
    proof (cases "u = t")
      case True
      with new that show ?thesis by blast
    next
      case False
      then have "spent i (doc_abs (race_memory s))" using that old inv by (auto simp: win_inv_def)
      then show ?thesis using mp nr by (simp add: spent_step)
    qed
    show "u = v" if "holds_win i ?s u" "holds_win i ?s v" for u v
      using that old clash inv unfolding win_inv_def by metis
  qed
qed

lemma win_inv_step: "race_step C f p s s' \<Longrightarrow> win_inv i s \<Longrightarrow> win_inv i s'"
proof (induction rule: race_step.induct)
  case (mutate s t c op q m)
  then show ?case by (intro win_inv_mutate)
next
  case (rename s t c op r j off u d)
  then show ?case by (intro win_inv_quiet [OF rename(3) rename(1)]) (auto split: sum.split, cases u, auto)
qed (erule win_inv_quiet, assumption, auto)+

lemma win_inv_steps: "race_steps C f p s s' \<Longrightarrow> win_inv i s \<Longrightarrow> win_inv i s'"
  by (induction rule: rtranclp_induct) (auto intro: win_inv_step)

lemma win_inv_start:
  assumes "single_use i (doc_abs m)" and "\<forall>t c op. calls t = Some (c, op) \<longrightarrow> \<not> rekeys i op"
  shows "win_inv i (race_start m d calls)"
  using assms by (auto simp: win_inv_def race_start_def holds_win_def)


subsection \<open>The order of the mutations\<close>

lemma run_ops_append:
  "run_ops S (xs @ ys) st =
     (fst (run_ops S xs st) @ fst (run_ops S ys (snd (run_ops S xs st))),
      snd (run_ops S ys (snd (run_ops S xs st))))"
  by (induction S xs st rule: run_ops.induct) (simp_all add: Let_def del: perform.simps)

lemma length_run_ops [simp]: "length (fst (run_ops S ops st)) = length ops"
  by (induction S ops st rule: run_ops.induct) (simp_all add: Let_def del: perform.simps)

text \<open>
  \<open>ts\<close> lists the tasks in the order in which they took the write lock; the document is the one
  the memory store reaches by their calls in that order, and the replies are its replies.
\<close>

definition lin_inv ::
  "memory_store \<Rightarrow> (nat \<rightharpoonup> chrono_env \<times> store_op) \<Rightarrow> nat list \<Rightarrow> race \<Rightarrow> bool" where
  "lin_inv m calls ts s \<longleftrightarrow>
     distinct ts
     \<and> (\<forall>t c op ph. tasks s t = Some (c, op, ph) \<longrightarrow> calls t = Some (c, op) \<and> (t \<in> set ts \<longleftrightarrow> ph \<noteq> Waiting))
     \<and> (\<forall>t \<in> set ts. tasks s t \<noteq> None)
     \<and> race_memory s = snd (run_ops memory_ops (map (the \<circ> calls) ts) m)
     \<and> (\<forall>n < length ts. \<forall>c op ph r. tasks s (ts ! n) = Some (c, op, ph) \<longrightarrow> phase_reply ph = Some r
          \<longrightarrow> fst (run_ops memory_ops (map (the \<circ> calls) ts) m) ! n = Inr r)"

lemma lin_inv_quiet:
  assumes "lin_inv m calls ts s" and "tasks s t = Some (c, op, ph)" and "ph \<noteq> Waiting" and "ph' \<noteq> Waiting"
    and "race_memory s' = race_memory s" and "tasks s' = (tasks s)(t \<mapsto> (c, op, ph'))"
    and "phase_reply ph' = None \<or> phase_reply ph' = phase_reply ph"
  shows "lin_inv m calls ts s'"
  using assms unfolding lin_inv_def by (auto split: if_splits)

lemma phase_reply_mutated: "phase_reply (after_mutation q) = Some r \<Longrightarrow> q = Inr r"
  by (auto simp: after_mutation_def split: sum.splits if_splits)

lemma after_mutation_started: "after_mutation q \<noteq> Waiting"
  by (simp add: after_mutation_def split: sum.split)

lemma lin_inv_mutate:
  assumes inv: "lin_inv m calls ts s" and t: "tasks s t = Some (c, op, Waiting)"
    and pf: "perform memory_ops c op (race_memory s) = (q, m1)"
  shows "lin_inv m calls (ts @ [t]) (goto t c op (after_mutation q) (s\<lparr>race_memory := m1\<rparr>))"
proof -
  have new: "t \<notin> set ts" and call: "calls t = Some (c, op)"
    using inv t by (auto simp: lin_inv_def)
  have run: "run_ops memory_ops (map (the \<circ> calls) (ts @ [t])) m
      = (fst (run_ops memory_ops (map (the \<circ> calls) ts) m) @ [q], m1)"
    using inv call pf by (simp add: run_ops_append lin_inv_def del: perform.simps)
  have old: "tasks (goto t c op (after_mutation q) (s\<lparr>race_memory := m1\<rparr>)) (ts ! n) = tasks s (ts ! n)"
    if "n < length ts" for n
    using new that nth_mem by fastforce
  have replies: "fst (run_ops memory_ops (map (the \<circ> calls) (ts @ [t])) m) ! n = Inr r"
    if "n < length (ts @ [t])" "phase_reply ph = Some r"
      "tasks (goto t c op (after_mutation q) (s\<lparr>race_memory := m1\<rparr>)) ((ts @ [t]) ! n) = Some (c1, op1, ph)"
    for n c1 op1 ph r
  proof (cases "n < length ts")
    case True
    with that old inv run show ?thesis by (simp add: lin_inv_def nth_append)
  next
    case False
    with that have "n = length ts" by simp
    with that run phase_reply_mutated show ?thesis by (auto simp: nth_append)
  qed
  show ?thesis
    using inv new call run replies after_mutation_started [of q]
    unfolding lin_inv_def by (auto simp del: fun_upd_apply simp: fun_upd_apply split: if_splits)
qed

lemma lin_inv_step:
  "race_step C f p s s' \<Longrightarrow> lin_inv m calls ts s \<Longrightarrow> \<exists>us. lin_inv m calls (ts @ us) s'"
proof (induction rule: race_step.induct)
  case (mutate s t c op q m1)
  then show ?case by (blast intro: lin_inv_mutate)
next
  case (rename s t c op r j off u d)
  have "lin_inv m calls ts (goto t c op (Returned (and_then (map_err Io u) (\<lambda>_. Inr r))) (s\<lparr>race_disk := d\<rparr>))"
    by (rule lin_inv_quiet [OF rename(3) rename(1)]) (auto split: sum.split, cases u, auto)
  then show ?case by (intro exI [of _ "[]"]) simp
qed (rule exI [of _ "[]"], simp only: append_Nil2, erule lin_inv_quiet, assumption, auto)+

lemma lin_inv_extends:
  "race_steps C f p s s' \<Longrightarrow> lin_inv m calls ts s \<Longrightarrow> \<exists>us. lin_inv m calls (ts @ us) s'"
proof (induction rule: rtranclp_induct)
  case base
  then show ?case by (intro exI [of _ "[]"]) simp
next
  case (step s1 s2)
  then obtain us where "lin_inv m calls (ts @ us) s1" by blast
  with lin_inv_step [OF step(2)] obtain vs where "lin_inv m calls ((ts @ us) @ vs) s2" by blast
  then show ?case by (intro exI [of _ "us @ vs"]) simp
qed

lemma lin_inv_steps:
  "race_steps C f p s s' \<Longrightarrow> lin_inv m calls ts s \<Longrightarrow> \<exists>us. lin_inv m calls us s'"
  using lin_inv_extends by blast

lemma lin_inv_start: "lin_inv m calls [] (race_start m d calls)"
  by (auto simp: lin_inv_def race_start_def)


subsection \<open>Composite runs\<close>

lemma one_step: "race_step C f p s s' \<Longrightarrow> race_steps C f p s s'"
  by (rule r_into_rtranclp)

lemma fs_write_at_Nil [simp]: "fs_write_at i off [] fs = fs"
  by (simp add: fs_write_at_def write_at_def fun_upd_idem)

lemma write_all:
  assumes "tasks s t = Some (c, op, Writing r i 0 bs)"
  shows "race_steps C f p s
    (goto t c op (Writing r i (length bs) []) (s\<lparr>race_disk := fs_write_at i 0 bs (race_disk s)\<rparr>))"
proof (cases "bs = []")
  case True
  with assms show ?thesis by (simp add: goto_def fun_upd_idem)
next
  case False
  then show ?thesis
    using one_step [OF race_step.write_some [OF assms, of "length bs" C f p]] by simp
qed

lemma mutate_snapshot:
  assumes "tasks s t = Some (c, op, Waiting)"
    and "perform memory_ops c op (race_memory s) = (Inr r, m)" and "r \<noteq> Consumed False"
    and "serialize_doc C f m = Inr bs"
  shows "race_steps C f p s (goto t c op (Snapped r bs) (s\<lparr>race_memory := m\<rparr>))"
proof -
  let ?s1 = "goto t c op (Mutated r) (s\<lparr>race_memory := m\<rparr>)"
  have a: "race_step C f p s ?s1"
    using race_step.mutate [OF assms(1,2), of C f p] assms(3) by (simp add: after_mutation_def)
  have "race_step C f p ?s1 (goto t c op (Snapped r bs) ?s1)"
    using assms(4) by (intro race_step.snapshot) (auto simp: memory_snapshot_def)
  moreover have "goto t c op (Snapped r bs) ?s1 = goto t c op (Snapped r bs) (s\<lparr>race_memory := m\<rparr>)"
    by (simp add: goto_def)
  ultimately show ?thesis using a one_step by (metis converse_rtranclp_into_rtranclp)
qed

text \<open>The temporary file created and written in full, from a serialised snapshot.\<close>

lemma create_write:
  assumes t: "tasks s t = Some (c, op, Snapped r bs)" and wf: "wf_fs (race_disk s)"
  shows "\<exists>i d. race_steps C f p s
      (goto t c op (Writing r i (length bs) []) (s\<lparr>race_disk := d\<rparr>))
    \<and> wf_fs d \<and> names d (tmp_path p) = Some i \<and> content d (tmp_path p) = Some bs
    \<and> (\<forall>q. q \<noteq> tmp_path p \<longrightarrow> content d q = content (race_disk s) q)"
proof -
  obtain i d1 where c: "fs_create (tmp_path p) (race_disk s) = (i, d1)"
    by (cases "fs_create (tmp_path p) (race_disk s)")
  note cp = fs_create_props [OF wf c]
  note wp = fs_write_at_props [OF cp(1,2)]
  let ?s1 = "goto t c op (Writing r i 0 bs) (s\<lparr>race_disk := d1\<rparr>)"
  let ?d = "fs_write_at i 0 bs d1"
  have "race_step C f p s ?s1" using t c by (rule race_step.create)
  moreover have "race_steps C f p ?s1
      (goto t c op (Writing r i (length bs) []) (?s1\<lparr>race_disk := fs_write_at i 0 bs (race_disk ?s1)\<rparr>))"
    by (rule write_all) simp
  moreover have "goto t c op (Writing r i (length bs) []) (?s1\<lparr>race_disk := fs_write_at i 0 bs (race_disk ?s1)\<rparr>)
      = goto t c op (Writing r i (length bs) []) (s\<lparr>race_disk := ?d\<rparr>)"
    by (simp add: goto_def)
  ultimately have "race_steps C f p s
      (goto t c op (Writing r i (length bs) []) (s\<lparr>race_disk := ?d\<rparr>))"
    by (metis converse_rtranclp_into_rtranclp)
  moreover have "\<forall>q. q \<noteq> tmp_path p \<longrightarrow> content ?d q = content (race_disk s) q"
    using wp(4) cp(5) by simp
  ultimately show ?thesis using wp(1-3) cp(2,3) by (metis write_at_0)
qed

text \<open>An undisturbed flush from a serialised snapshot puts exactly that snapshot into the file.\<close>

lemma finish_flush:
  assumes t: "tasks s t = Some (c, op, Snapped r bs)" and wf: "wf_fs (race_disk s)"
    and ne: "tmp_path p \<noteq> p"
  shows "\<exists>d. race_steps C f p s (goto t c op (Returned (Inr r)) (s\<lparr>race_disk := d\<rparr>))
    \<and> wf_fs d \<and> content d p = Some bs"
proof -
  obtain i d where run: "race_steps C f p s
      (goto t c op (Writing r i (length bs) []) (s\<lparr>race_disk := d\<rparr>))"
    and d: "wf_fs d" "names d (tmp_path p) = Some i" "content d (tmp_path p) = Some bs"
    using create_write [OF t wf] by blast
  let ?s1 = "goto t c op (Writing r i (length bs) []) (s\<lparr>race_disk := d\<rparr>)"
  obtain u d' where rn: "fs_rename None (tmp_path p) p d = (u, d')"
    by (cases "fs_rename None (tmp_path p) p d")
  have u: "u = Inr ()" using rn d(2) by (simp add: fs_rename_def)
  note rp = fs_rename_props [OF d(1) rn ne]
  have "race_step C f p ?s1
      (goto t c op (Returned (and_then (map_err Io u) (\<lambda>_. Inr r))) (?s1\<lparr>race_disk := d'\<rparr>))"
    using rn by (intro race_step.rename) auto
  moreover have "goto t c op (Returned (and_then (map_err Io u) (\<lambda>_. Inr r))) (?s1\<lparr>race_disk := d'\<rparr>)
      = goto t c op (Returned (Inr r)) (s\<lparr>race_disk := d'\<rparr>)"
    using u by (simp add: goto_def)
  ultimately have "race_steps C f p s (goto t c op (Returned (Inr r)) (s\<lparr>race_disk := d'\<rparr>))"
    using run by (metis rtranclp.rtrancl_into_rtrancl)
  with rp u d(3) show ?thesis by auto
qed


text \<open>A whole call, undisturbed.\<close>

lemma undisturbed_call:
  assumes "tasks s t = Some (c, op, Waiting)"
    and "perform memory_ops c op (race_memory s) = (Inr r, m)" and "r \<noteq> Consumed False"
    and "serialize_doc C f m = Inr bs" and "wf_fs (race_disk s)" and "tmp_path p \<noteq> p"
  shows "\<exists>s' d. race_steps C f p s s' \<and> tasks s' = (tasks s)(t \<mapsto> (c, op, Returned (Inr r)))
    \<and> race_memory s' = m \<and> race_disk s' = d \<and> wf_fs d \<and> content d p = Some bs"
proof -
  let ?s1 = "goto t c op (Snapped r bs) (s\<lparr>race_memory := m\<rparr>)"
  have "race_steps C f p s ?s1" using assms(1-4) by (rule mutate_snapshot)
  moreover have "tasks ?s1 t = Some (c, op, Snapped r bs)" "wf_fs (race_disk ?s1)"
    using assms(5) by simp_all
  then obtain d where "race_steps C f p ?s1 (goto t c op (Returned (Inr r)) (?s1\<lparr>race_disk := d\<rparr>))"
    and "wf_fs d" "content d p = Some bs" using finish_flush [OF _ _ assms(6)] by blast
  ultimately show ?thesis
    by (intro exI [of _ "goto t c op (Returned (Inr r)) (?s1\<lparr>race_disk := d\<rparr>)"] exI [of _ d])
      (auto intro: rtranclp_trans)
qed


subsection \<open>Two flushes that overlap\<close>

lemma upsert_network_performs:
  "perform memory_ops c (UpsertNetwork n) m
     = (Inr Done, m\<lparr>networks := upsert_by net_id n (networks m)\<rparr>)"
  by (simp add: memory_ops_def mem_upsert_network_def done_reply_def)

lemma consume_performs:
  assumes "row pak_id (preauth_keys m) i = Some k" and "redeemable c k"
  shows "perform memory_ops c (ConsumePreauthKey i) m
    = (Inr (Consumed True), snd (mem_consume_preauth_key c i m))"
  using assms by (simp add: memory_ops_def consumed_reply_def consume_by_row)


subsection \<open>What every interleaving keeps\<close>

text \<open>
  The typing of a task: what it replies, or is going to reply, is a reply of its operation, and
  only a change is flushed; its open file is an inode in use, which has no other name than the
  snapshot's or the temporary file's.
\<close>

definition reply_typed :: "store_op \<Rightarrow> reply \<Rightarrow> bool" where
  "reply_typed op r \<longleftrightarrow> (r = Done \<longleftrightarrow> (\<forall>i. op \<noteq> ConsumePreauthKey i))"

fun task_typed :: "path \<Rightarrow> file_system \<Rightarrow> store_op \<Rightarrow> phase \<Rightarrow> bool" where
  "task_typed p d op Waiting = True"
| "task_typed p d op (Mutated r) = (reply_typed op r \<and> r \<noteq> Consumed False)"
| "task_typed p d op (Snapped r bs) = (reply_typed op r \<and> r \<noteq> Consumed False)"
| "task_typed p d op (Writing r i off bs) =
     (reply_typed op r \<and> r \<noteq> Consumed False \<and> i < next_inode d
      \<and> (\<forall>q. names d q = Some i \<longrightarrow> q = p \<or> q = tmp_path p))"
| "task_typed p d op (Returned (Inr r)) = reply_typed op r"
| "task_typed p d op (Returned (Inl e)) = (e \<noteq> NotImplemented)"

definition race_ok :: "path \<Rightarrow> file_system \<Rightarrow> race \<Rightarrow> bool" where
  "race_ok p d s \<longleftrightarrow>
     wf_doc (race_memory s) \<and> wf_fs (race_disk s)
     \<and> (\<forall>q. q \<noteq> p \<longrightarrow> q \<noteq> tmp_path p \<longrightarrow> content (race_disk s) q = content d q)
     \<and> (\<forall>t c op ph. tasks s t = Some (c, op, ph) \<longrightarrow> task_typed p (race_disk s) op ph)"

lemma race_okD:
  "race_ok p d s \<Longrightarrow> tasks s t = Some (c, op, ph) \<Longrightarrow> task_typed p (race_disk s) op ph"
  by (auto simp: race_ok_def)

lemma race_ok_move:
  assumes "race_ok p d s" and "tasks s' = (tasks s)(t \<mapsto> (c, op, ph))"
    and "wf_doc (race_memory s')" and "wf_fs (race_disk s')"
    and "\<And>q. q \<noteq> p \<Longrightarrow> q \<noteq> tmp_path p \<Longrightarrow> content (race_disk s') q = content (race_disk s) q"
    and "\<And>op ph. task_typed p (race_disk s) op ph \<Longrightarrow> task_typed p (race_disk s') op ph"
    and "task_typed p (race_disk s') op ph"
  shows "race_ok p d s'"
  using assms unfolding race_ok_def by auto

lemma task_typed_mono:
  assumes "task_typed p d op ph" and "next_inode d \<le> next_inode d'"
    and "\<And>j q. j < next_inode d \<Longrightarrow> names d' q = Some j \<Longrightarrow>
           names d q = Some j \<or> q = p \<or> q = tmp_path p"
  shows "task_typed p d' op ph"
  using assms by (cases "(p, d, op, ph)" rule: task_typed.cases) (auto dest: less_le_trans)

lemma mem_perform_typed:
  "perform memory_ops c op m = (q, m') \<Longrightarrow> \<exists>r. q = Inr r \<and> reply_typed op r"
  by (drule mem_perform) (cases op; simp add: reply_typed_def)

lemma serialize_error: "serialize_doc C f d = Inl e \<Longrightarrow> e \<noteq> NotImplemented"
  by (auto simp: serialize_doc_def map_err_def split: format.splits sum.splits)

lemma race_ok_step: "race_step C f p s s' \<Longrightarrow> race_ok p d s \<Longrightarrow> race_ok p d s'"
proof (induction rule: race_step.induct)
  case (mutate s t c op q m)
  obtain r where r: "q = Inr r" "reply_typed op r" using mem_perform_typed [OF mutate(2)] by blast
  have "task_typed p (race_disk s) op (after_mutation q)"
    using r by (auto simp: after_mutation_def)
  moreover have "wf_doc m" using mem_perform [OF mutate(2)] mutate(3) by (simp add: race_ok_def)
  ultimately show ?case
    using mutate(3) by (intro race_ok_move [OF mutate(3)]) (auto simp: race_ok_def)
next
  case (snapshot s t c op r bs)
  then have "task_typed p (race_disk s) op (Snapped r bs)" using race_okD [OF snapshot(3,1)] by simp
  with snapshot show ?case by (intro race_ok_move [OF snapshot(3)]) (auto simp: race_ok_def)
next
  case (snapshot_fails s t c op r e)
  with serialize_error have "task_typed p (race_disk s) op (Returned (Inl e))" by simp
  with snapshot_fails show ?case
    by (intro race_ok_move [OF snapshot_fails(3)]) (auto simp: race_ok_def)
next
  case (create s t c op r bs i d1)
  have wf: "wf_fs (race_disk s)" using create(3) by (simp add: race_ok_def)
  note ty = race_okD [OF create(3,1)]
  note cp = fs_create_props [OF wf create(2)]
  note ck = fs_create_keeps [OF create(2)]
  have "i < next_inode d1" using wf_fsD(1) [OF cp(1,2)] .
  moreover have "\<forall>q. names d1 q = Some i \<longrightarrow> q = tmp_path p" using wf_fsD(2) [OF cp(1) _ cp(2)] by blast
  ultimately have new: "task_typed p d1 op (Writing r i 0 bs)" using ty by auto
  have old: "task_typed p d1 op' ph'" if "task_typed p (race_disk s) op' ph'" for op' ph'
    using task_typed_mono [OF that ck(1)] ck(2) by blast
  show ?case
    using create(3) new old cp(1,5)
    by (intro race_ok_move [OF create(3)]) (auto simp: race_ok_def)
next
  case (create_fails s t c op r bs e)
  then show ?case by (intro race_ok_move [OF create_fails(2)]) (auto simp: race_ok_def)
next
  case (write_some s t c op r i off bs n)
  note ty = race_okD [OF write_some(4,1)]
  have old: "task_typed p (fs_write_at i off (take n bs) (race_disk s)) op' ph'"
    if "task_typed p (race_disk s) op' ph'" for op' ph'
    by (rule task_typed_mono [OF that]) simp_all
  have new: "task_typed p (fs_write_at i off (take n bs) (race_disk s)) op (Writing r i (off + n) (drop n bs))"
    using ty by simp
  have "content (fs_write_at i off (take n bs) (race_disk s)) q = content (race_disk s) q"
    if "q \<noteq> p" "q \<noteq> tmp_path p" for q
    using that ty by (intro fs_write_at_other) auto
  with old new write_some(4) show ?case
    by (intro race_ok_move [OF write_some(4)]) (auto simp: race_ok_def fs_write_at_wf)
next
  case (write_fails s t c op r i off bs e)
  then show ?case by (intro race_ok_move [OF write_fails(2)]) (auto simp: race_ok_def)
next
  case (rename s t c op r i off u d1)
  have wf: "wf_fs (race_disk s)" using rename(3) by (simp add: race_ok_def)
  note ty = race_okD [OF rename(3,1)]
  note rk = fs_rename_keeps [OF rename(2)]
  have old: "task_typed p d1 op' ph'" if "task_typed p (race_disk s) op' ph'" for op' ph'
    by (rule task_typed_mono [OF that]) (use rk in auto)
  have new: "task_typed p d1 op (Returned (and_then (map_err Io u) (\<lambda>_. Inr r)))"
    using ty by (cases u) auto
  have d1: "wf_fs d1 \<and> (\<forall>q. q \<noteq> p \<longrightarrow> q \<noteq> tmp_path p \<longrightarrow> content d1 q = content (race_disk s) q)"
  proof (cases "tmp_path p = p")
    case True
    then have "d1 = race_disk s" using rename(2) by (auto simp: fs_rename_def split: option.splits)
    with wf show ?thesis by simp
  next
    case False
    from fs_rename_props [OF wf rename(2) False] show ?thesis by blast
  qed
  show ?case
    using rename(3) new old d1
    by (intro race_ok_move [OF rename(3)]) (auto simp: race_ok_def)
qed

lemma race_ok_steps: "race_steps C f p s s' \<Longrightarrow> race_ok p d s \<Longrightarrow> race_ok p d s'"
  by (induction rule: rtranclp_induct) (auto intro: race_ok_step)

lemma race_ok_start: "wf_doc m \<Longrightarrow> wf_fs d \<Longrightarrow> race_ok p d (race_start m d calls)"
  by (auto simp: race_ok_def race_start_def)


subsection \<open>One step of one call\<close>

text \<open>
  How far the flush of a call has got while no other call changes the document \<open>m\<close> or the
  temporary file, and what the snapshot file holds then: \<open>old\<close>, or the serialised \<open>m\<close>.
\<close>

fun flush_ok :: "codec \<Rightarrow> format \<Rightarrow> path \<Rightarrow> memory_store \<Rightarrow> file_system \<Rightarrow> phase \<Rightarrow> bool" where
  "flush_ok C f p m d (Mutated r) = (r \<noteq> Consumed False)"
| "flush_ok C f p m d (Snapped r bs) = (r \<noteq> Consumed False \<and> serialize_doc C f m = Inr bs)"
| "flush_ok C f p m d (Writing r i off bs) =
     (r \<noteq> Consumed False \<and> names d (tmp_path p) = Some i
      \<and> serialize_doc C f m = Inr (inodes d i @ bs) \<and> length (inodes d i) = off)"
| "flush_ok C f p m d ph = True"

definition saved :: "codec \<Rightarrow> format \<Rightarrow> path \<Rightarrow> memory_store \<Rightarrow> file_system \<Rightarrow> bool" where
  "saved C f p m d \<longleftrightarrow> (\<exists>bs. serialize_doc C f m = Inr bs \<and> content d p = Some bs)"

definition acknowledged :: "phase \<Rightarrow> bool" where
  "acknowledged ph \<longleftrightarrow> (\<exists>r. ph = Returned (Inr r) \<and> r \<noteq> Consumed False)"

lemma acknowledged_simps [simp]:
  "\<not> acknowledged Waiting" "\<not> acknowledged (Mutated r)" "\<not> acknowledged (Snapped r bs)"
  "\<not> acknowledged (Writing r i off bs)" "\<not> acknowledged (Returned (Inl e))"
  "acknowledged (Returned (Inr r)) \<longleftrightarrow> r \<noteq> Consumed False"
  by (simp_all add: acknowledged_def)

lemma write_at_end: "length old = off \<Longrightarrow> write_at off bs old = old @ bs"
  by (simp add: write_at_def)

lemma acknowledged_mutation: "\<not> acknowledged (after_mutation q)"
  by (simp add: after_mutation_def split: sum.split)

lemma flush_ok_mutation: "flush_ok C f p m d (after_mutation q)"
  by (simp add: after_mutation_def split: sum.split)

text \<open>
  A step takes the mutation of a waiting call, or takes a flush in flight one action further; then
  the document stays, and so does the snapshot file unless the call is acknowledged, when it
  holds the document.
\<close>

definition flush_moves ::
  "codec \<Rightarrow> format \<Rightarrow> path \<Rightarrow> nat \<Rightarrow> chrono_env \<Rightarrow> store_op \<Rightarrow> phase \<Rightarrow> phase \<Rightarrow> race \<Rightarrow> race \<Rightarrow> bool"
where
  "flush_moves C f p t c op ph ph' s s' \<longleftrightarrow>
     tasks s' = (tasks s)(t \<mapsto> (c, op, ph')) \<and> race_memory s' = race_memory s \<and> wf_fs (race_disk s')
     \<and> ph \<noteq> Waiting \<and> (\<forall>q. ph \<noteq> Returned q) \<and> ph' \<noteq> Waiting
     \<and> (phase_reply ph' = None \<or> phase_reply ph' = phase_reply ph)
     \<and> flush_ok C f p (race_memory s') (race_disk s') ph'
     \<and> (if acknowledged ph' then saved C f p (race_memory s') (race_disk s')
        else (\<forall>r. ph' \<noteq> Returned (Inr r)) \<and> content (race_disk s') p = content (race_disk s) p)"

lemma flush_step:
  assumes step: "race_step C f p s s'" and wf: "wf_fs (race_disk s)" and ne: "tmp_path p \<noteq> p"
    and all: "\<forall>t c op ph. tasks s t = Some (c, op, ph) \<longrightarrow> flush_ok C f p (race_memory s) (race_disk s) ph"
  obtains (mutation) t c op q m where "tasks s t = Some (c, op, Waiting)"
      "perform memory_ops c op (race_memory s) = (q, m)"
      "s' = goto t c op (after_mutation q) (s\<lparr>race_memory := m\<rparr>)"
    | (flush) t c op ph ph' where "tasks s t = Some (c, op, ph)" "flush_moves C f p t c op ph ph' s s'"
proof -
  note ok = all [rule_format]
  from step show ?thesis
proof cases
  case (mutate t c op q m)
  then show ?thesis using mutation by blast
next
  case (snapshot t c op r bs)
  with wf ok [OF snapshot(2)] show ?thesis
    by (intro flush [OF snapshot(2), of "Snapped r bs"]) (simp add: flush_moves_def memory_snapshot_def)
next
  case (snapshot_fails t c op r e)
  with wf show ?thesis
    by (intro flush [OF snapshot_fails(2), of "Returned (Inl e)"]) (simp add: flush_moves_def)
next
  case (create t c op r bs i d1)
  note cp = fs_create_props [OF wf create(3)]
  have "content d1 p = content (race_disk s) p" using cp(5) ne by simp
  with create cp(1-3) ok [OF create(2)] show ?thesis
    by (intro flush [OF create(2), of "Writing r i 0 bs"]) (simp add: flush_moves_def)
next
  case (create_fails t c op r bs e)
  with wf show ?thesis
    by (intro flush [OF create_fails(2), of "Returned (Inl (Io (OtherIo e)))"]) (simp add: flush_moves_def)
next
  case (write_some t c op r i off bs n)
  have nm: "names (race_disk s) (tmp_path p) = Some i" and len: "length (inodes (race_disk s) i) = off"
    using ok [OF write_some(2)] by simp_all
  note wp = fs_write_at_props [OF wf nm]
  have "inodes (fs_write_at i off (take n bs) (race_disk s)) i = inodes (race_disk s) i @ take n bs"
    using len by (simp add: fs_write_at_def write_at_end)
  moreover have "content (fs_write_at i off (take n bs) (race_disk s)) p = content (race_disk s) p"
    using wp(4) ne by simp
  ultimately show ?thesis
    using write_some(1,4) wp(1) ok [OF write_some(2)]
    by (intro flush [OF write_some(2), of "Writing r i (off + n) (drop n bs)"]) (simp add: flush_moves_def)
next
  case (write_fails t c op r i off bs e)
  with wf show ?thesis
    by (intro flush [OF write_fails(2), of "Returned (Inl (Io (OtherIo e)))"]) (simp add: flush_moves_def)
next
  case (rename t c op r i off u d1)
  note rp = fs_rename_props [OF wf rename(3) ne]
  have nm: "names (race_disk s) (tmp_path p) = Some i" using ok [OF rename(2)] by simp
  have u: "u = Inr ()" using rename(3) nm by (simp add: fs_rename_def)
  have "content d1 p = Some (inodes (race_disk s) i)" using rp(3) u nm by (simp add: content_def)
  with rename(1) rp(1) u ok [OF rename(2)] show ?thesis
    by (intro flush [OF rename(2), of "Returned (Inr r)"]) (simp add: flush_moves_def saved_def)
qed
qed


subsection \<open>A call that runs alone\<close>

definition lone_inv ::
  "codec \<Rightarrow> format \<Rightarrow> path \<Rightarrow> memory_store \<Rightarrow> file_system \<Rightarrow> nat \<Rightarrow> chrono_env \<Rightarrow> store_op \<Rightarrow> race \<Rightarrow> bool"
where
  "lone_inv C f p m d t c op s \<longleftrightarrow>
     wf_fs (race_disk s)
     \<and> (\<exists>ph. tasks s = [t \<mapsto> (c, op, ph)]
           \<and> race_memory s = (if ph = Waiting then m else snd (perform memory_ops c op m))
           \<and> flush_ok C f p (race_memory s) (race_disk s) ph
           \<and> (if acknowledged ph then saved C f p (snd (perform memory_ops c op m)) (race_disk s)
              else content (race_disk s) p = content d p))"

lemma lone_step:
  assumes step: "race_step C f p s s'" and inv: "lone_inv C f p m d t c op s" and ne: "tmp_path p \<noteq> p"
  shows "lone_inv C f p m d t c op s'"
proof -
  have wf: "wf_fs (race_disk s)" using inv by (simp add: lone_inv_def)
  obtain ph where ph: "tasks s = [t \<mapsto> (c, op, ph)]"
    "race_memory s = (if ph = Waiting then m else snd (perform memory_ops c op m))"
    "flush_ok C f p (race_memory s) (race_disk s) ph"
    "if acknowledged ph then saved C f p (snd (perform memory_ops c op m)) (race_disk s)
     else content (race_disk s) p = content d p"
    using inv unfolding lone_inv_def by blast
  then have ok: "\<forall>u c1 op1 ph1. tasks s u = Some (c1, op1, ph1) \<longrightarrow>
      flush_ok C f p (race_memory s) (race_disk s) ph1" by (auto split: if_splits)
  from step wf ne ok show ?thesis
  proof (cases rule: flush_step)
    case (mutation u c1 op1 q m1)
    with ph wf show ?thesis
      unfolding lone_inv_def
      by (intro conjI exI [of _ "after_mutation q"])
        (auto simp: acknowledged_mutation flush_ok_mutation after_mutation_started split: if_splits)
  next
    case (flush u c1 op1 ph1 ph')
    then have "u = t" "c1 = c" "op1 = op" "ph1 = ph" using ph(1) by (auto split: if_splits)
    moreover have "\<not> acknowledged ph" using flush ph(1) by (auto simp: flush_moves_def acknowledged_def split: if_splits)
    ultimately show ?thesis
      using flush(2) ph unfolding lone_inv_def flush_moves_def
      by (intro conjI exI [of _ ph']) (auto split: if_splits)
  qed
qed

lemma lone_steps:
  assumes "race_steps C f p s s'" and "lone_inv C f p m d t c op s" and "tmp_path p \<noteq> p"
  shows "lone_inv C f p m d t c op s'"
  using assms by (induction rule: rtranclp_induct) (auto intro: lone_step)

lemma lone_start:
  assumes "wf_fs d"
  shows "lone_inv C f p m d t c op (race_start m d [t \<mapsto> (c, op)])"
proof -
  have "tasks (race_start m d [t \<mapsto> (c, op)]) = [t \<mapsto> (c, op, Waiting)]"
    by (auto simp: race_start_def fun_eq_iff)
  then show ?thesis
    unfolding lone_inv_def using assms
    by (intro conjI exI [of _ Waiting]) (simp_all add: race_start_def)
qed


subsection \<open>Calls that do not overlap\<close>

text \<open>
  A task is in flight between its mutation and its reply. In the runs of \<open>calm_steps\<close> at most one
  is at any moment, as when a lock is held over the mutation and the flush. The invariant: the
  snapshot file holds the document after the first \<open>k\<close> calls, in the order of their mutations,
  and every acknowledged change is among them.
\<close>

definition in_flight :: "race \<Rightarrow> nat \<Rightarrow> bool" where
  "in_flight s t \<longleftrightarrow> (\<exists>c op ph. tasks s t = Some (c, op, ph) \<and> ph \<noteq> Waiting \<and> (\<forall>q. ph \<noteq> Returned q))"

definition one_in_flight :: "race \<Rightarrow> bool" where
  "one_in_flight s \<longleftrightarrow> (\<forall>t u. in_flight s t \<longrightarrow> in_flight s u \<longrightarrow> t = u)"

abbreviation calm_steps :: "codec \<Rightarrow> format \<Rightarrow> path \<Rightarrow> race \<Rightarrow> race \<Rightarrow> bool" where
  "calm_steps C f p \<equiv> (\<lambda>s s'. race_step C f p s s' \<and> one_in_flight s')\<^sup>*\<^sup>*"

definition after_calls ::
  "memory_store \<Rightarrow> (nat \<rightharpoonup> chrono_env \<times> store_op) \<Rightarrow> nat list \<Rightarrow> memory_store" where
  "after_calls m calls ts = snd (run_ops memory_ops (map (the \<circ> calls) ts) m)"

definition calm_inv ::
  "codec \<Rightarrow> format \<Rightarrow> path \<Rightarrow> memory_store \<Rightarrow> file_system \<Rightarrow> (nat \<rightharpoonup> chrono_env \<times> store_op)
     \<Rightarrow> nat list \<Rightarrow> nat \<Rightarrow> race \<Rightarrow> bool" where
  "calm_inv C f p m d calls ts k s \<longleftrightarrow>
     lin_inv m calls ts s \<and> wf_fs (race_disk s) \<and> one_in_flight s \<and> k \<le> length ts
     \<and> (k = 0 \<and> content (race_disk s) p = content d p
        \<or> saved C f p (after_calls m calls (take k ts)) (race_disk s))
     \<and> (\<forall>t c op ph. tasks s t = Some (c, op, ph) \<longrightarrow>
          flush_ok C f p (race_memory s) (race_disk s) ph
          \<and> (acknowledged ph \<longrightarrow> t \<in> set (take k ts)))"

lemma quiet_flush_ok: "ph = Waiting \<or> (\<exists>q. ph = Returned q) \<Longrightarrow> flush_ok C f p m d ph"
  by auto

lemma others_quiet:
  assumes "one_in_flight s" and "in_flight s t" and "tasks s u = Some (c, op, ph)" and "u \<noteq> t"
  shows "flush_ok C f p m d ph"
  using assms unfolding one_in_flight_def in_flight_def by (intro quiet_flush_ok) blast

lemma refused_keeps: "perform memory_ops c op m = (Inr (Consumed False), m') \<Longrightarrow> m' = m"
  by (cases op)
    (auto simp: memory_ops_def store_simps done_reply_def consumed_reply_def consume_by_row
      split: option.splits if_splits)

lemma calm_mutation:
  assumes inv: "calm_inv C f p m d calls ts k s" and t: "tasks s t = Some (c, op, Waiting)"
    and pf: "perform memory_ops c op (race_memory s) = (q, m1)"
    and s': "s' = goto t c op (after_mutation q) (s\<lparr>race_memory := m1\<rparr>)" and calm: "one_in_flight s'"
  shows "calm_inv C f p m d calls (ts @ [t]) k s'"
proof -
  have lin: "lin_inv m calls (ts @ [t]) s'"
    unfolding s' using inv t pf by (intro lin_inv_mutate) (simp_all add: calm_inv_def)
  have k: "take k (ts @ [t]) = take k ts" using inv by (simp add: calm_inv_def)
  have fl: "flush_ok C f p m1 (race_disk s) ph" if u: "tasks s' u = Some (c1, op1, ph)" for u c1 op1 ph
  proof (cases "u = t")
    case True
    with u have "ph = after_mutation q" by (simp add: s')
    then show ?thesis by (simp add: flush_ok_mutation)
  next
    case False
    show ?thesis
    proof (cases "in_flight s' t")
      case True
      from others_quiet [OF calm True u False] show ?thesis .
    next
      case refused: False
      obtain r where "q = Inr r" using mem_perform_typed [OF pf] by blast
      with refused have "q = Inr (Consumed False)"
        by (auto simp: s' in_flight_def after_mutation_def split: if_splits)
      with pf refused_keeps have "m1 = race_memory s" by blast
      with u False inv show ?thesis by (auto simp: s' calm_inv_def)
    qed
  qed
  have ack: "u \<in> set (take k ts)" if "tasks s' u = Some (c1, op1, ph)" "acknowledged ph" for u c1 op1 ph
    using that inv by (auto simp: s' calm_inv_def acknowledged_mutation split: if_splits)
  from inv lin calm fl ack show ?thesis unfolding calm_inv_def k by (simp add: s')
qed

lemma calm_flush_step:
  assumes inv: "calm_inv C f p m d calls ts k s" and t: "tasks s t = Some (c, op, ph)"
    and mv: "flush_moves C f p t c op ph ph' s s'" and calm: "one_in_flight s'"
  shows "\<exists>k. calm_inv C f p m d calls ts k s'"
proof -
  have mem: "race_memory s' = race_memory s" and tk: "tasks s' = (tasks s)(t \<mapsto> (c, op, ph'))"
    and ph: "ph \<noteq> Waiting" "\<forall>q. ph \<noteq> Returned q" and ph': "ph' \<noteq> Waiting"
    and rep: "phase_reply ph' = None \<or> phase_reply ph' = phase_reply ph"
    and okt: "flush_ok C f p (race_memory s') (race_disk s') ph'"
    using mv unfolding flush_moves_def by blast+
  have linv: "lin_inv m calls ts s" using inv by (simp add: calm_inv_def)
  have lin: "lin_inv m calls ts s'" using linv t ph(1) ph' mem tk rep by (rule lin_inv_quiet)
  have fl: "in_flight s t" using t ph by (auto simp: in_flight_def)
  have one: "one_in_flight s" using inv by (simp add: calm_inv_def)
  have ok: "flush_ok C f p (race_memory s') (race_disk s') ph1"
    if u: "tasks s' u = Some (c1, op1, ph1)" for u c1 op1 ph1
  proof (cases "u = t")
    case True
    with u tk okt show ?thesis by simp
  next
    case False
    with u tk have "tasks s u = Some (c1, op1, ph1)" by simp
    from others_quiet [OF one fl this False] show ?thesis .
  qed
  have doc: "race_memory s = after_calls m calls ts"
    using linv by (simp add: lin_inv_def after_calls_def)
  show ?thesis
  proof (cases "acknowledged ph'")
    case True
    have "u \<in> set ts" if "tasks s' u = Some (c1, op1, ph1)" "acknowledged ph1" for u c1 op1 ph1
    proof -
      have "tasks s' u = Some (c1, op1, ph1) \<longrightarrow> (u \<in> set ts \<longleftrightarrow> ph1 \<noteq> Waiting)"
        using lin by (simp add: lin_inv_def)
      with that show ?thesis by auto
    qed
    moreover have "saved C f p (after_calls m calls ts) (race_disk s')"
      using True mv mem doc by (simp add: flush_moves_def)
    ultimately show ?thesis
      using lin calm ok mv by (intro exI [of _ "length ts"]) (auto simp: calm_inv_def flush_moves_def)
  next
    case False
    then have c: "content (race_disk s') p = content (race_disk s) p"
      using mv by (simp add: flush_moves_def)
    have "u \<in> set (take k ts)" if "tasks s' u = Some (c1, op1, ph1)" "acknowledged ph1" for u c1 op1 ph1
      using that tk False inv by (auto simp: calm_inv_def split: if_splits)
    with inv lin calm ok c mv show ?thesis
      by (intro exI [of _ k]) (auto simp: calm_inv_def flush_moves_def saved_def)
  qed
qed

lemma calm_step:
  assumes step: "race_step C f p s s'" and calm: "one_in_flight s'" and ne: "tmp_path p \<noteq> p"
    and inv: "calm_inv C f p m d calls ts k s"
  shows "\<exists>ts k. calm_inv C f p m d calls ts k s'"
proof -
  have wf: "wf_fs (race_disk s)" and ok: "\<forall>t c op ph. tasks s t = Some (c, op, ph) \<longrightarrow>
      flush_ok C f p (race_memory s) (race_disk s) ph"
    using inv by (simp_all add: calm_inv_def)
  from step wf ne ok show ?thesis
  proof (cases rule: flush_step)
    case (mutation t c op q m1)
    from calm_mutation [OF inv mutation calm] show ?thesis by blast
  next
    case (flush t c op ph ph')
    from calm_flush_step [OF inv flush calm] show ?thesis by blast
  qed
qed

lemma calm_inv_start:
  assumes "wf_fs d"
  shows "calm_inv C f p m d calls [] 0 (race_start m d calls)"
  using assms lin_inv_start
  by (auto simp: calm_inv_def one_in_flight_def in_flight_def) (auto simp: race_start_def)

lemma calm_run:
  assumes "calm_steps C f p (race_start m d calls) s" and "wf_fs d" and "tmp_path p \<noteq> p"
  shows "\<exists>ts k. calm_inv C f p m d calls ts k s"
  using assms(1)
proof (induction rule: rtranclp_induct)
  case base
  show ?case using calm_inv_start [OF assms(2)] by blast
next
  case (step s s')
  then show ?case using calm_step assms(3) by blast
qed

text \<open>A call that runs alone is such a run.\<close>

lemma lone_run_is_calm:
  assumes "race_steps C f p (race_start m d [t \<mapsto> (c, op)]) s" and "wf_fs d" and "tmp_path p \<noteq> p"
  shows "calm_steps C f p (race_start m d [t \<mapsto> (c, op)]) s"
  using assms(1)
proof (induction rule: rtranclp_induct)
  case (step s s')
  have "race_steps C f p (race_start m d [t \<mapsto> (c, op)]) s'" using step(1,2) by simp
  then have "lone_inv C f p m d t c op s'" using lone_steps [OF _ lone_start [OF assms(2)] assms(3)] by blast
  then have "one_in_flight s'" by (auto simp: lone_inv_def one_in_flight_def in_flight_def split: if_splits)
  with step show ?case by (simp add: rtranclp.rtrancl_into_rtrancl)
qed (rule rtranclp.rtrancl_refl)

end
