(* ===== verification/Store_Correctness.thy ===== *)
theory Store_Correctness
  imports Store_Samples File_Race
begin

text \<open>
  The properties of the store: the memory store against its specification, the file store against
  the memory store, what a snapshot file survives, and what happens when calls run in parallel.
  Each property with hypotheses is followed by its application to the inputs of
  \<open>Store_Samples\<close>.
\<close>


subsection \<open>The memory store\<close>

lemma map_upsert_present: "key x \<in> key ` set xs \<Longrightarrow> map key (upsert_by key x xs) = map key xs"
  by (induction xs) auto

lemma used_same [simp]: "(k :: preauth_key)\<lparr>used := used k\<rparr> = k"
  by simp

lemma mem_perform_ok: "is_ok (fst (perform memory_ops c op m))"
  by (metis is_ok_simps(2) mem_perform prod.collapse)

lemma mem_run_ok: "list_all is_ok (fst (run_ops memory_ops ops m))"
  by (induction ops arbitrary: m)
    (auto simp: Let_def mem_perform_ok simp del: perform.simps)

lemma replies_determined:
  "list_all2 (\<lambda>r x. \<forall>y. r = Inr y \<longrightarrow> y = x) rs xs \<Longrightarrow> list_all is_ok rs \<Longrightarrow> rs = map Inr xs"
proof (induction rule: list_all2_induct)
  case (Cons r rs x xs)
  then show ?case by (cases r) auto
qed simp

text \<open>
  C10. Any sequence of calls on the memory store behaves as the abstract store of finite maps does:
  it gives the abstract replies, never an error, ends in a document that represents the abstract
  state, and keeps the row ids of every table distinct.
\<close>

theorem memory_runs_refine_spec:
  assumes "wf_doc m" and "run_ops memory_ops ops m = (rs, m')"
  shows "rs = map Inr (fst (spec_run ops (doc_abs m)))
    \<and> doc_abs m' = snd (spec_run ops (doc_abs m)) \<and> wf_doc m'"
  using mem.run_replies [OF assms(1), of ops] mem.run_abs [OF assms(1), of ops]
    mem.run_inv [OF assms(1), of ops] mem_run_ok [of ops m] assms(2)
  by (auto simp: replies_determined apfst_def map_prod_def)

theorem memory_runs_refine_spec_witness:
  "fst (run_ops memory_ops
     [(noon, ConsumePreauthKey (PreAuthKeyId 7)), (noon, ConsumePreauthKey (PreAuthKeyId 7))]
     (key_doc False)) = [Inr (Consumed True), Inr (Consumed False)]
   \<and> wf_doc (key_doc True)"
proof -
  let ?c = "(noon, ConsumePreauthKey (PreAuthKeyId 7))"
  have run: "run_ops memory_ops [?c, ?c] (key_doc False)
      = ([Inr (Consumed True), Inr (Consumed False)], key_doc True)"
    by (simp add: memory_ops_def consume_key_doc consumed_reply_def)
  from memory_runs_refine_spec [OF wf_key_doc run] run show ?thesis by simp
qed

text \<open>
  Of all the callers that present a fresh single-use key to the memory store, in any sequence
  of calls that does not rewrite the key's row, exactly one is told that it redeemed the key, as
  long as the key has not expired and somebody asks.
\<close>

lemma memory_single_use_key_redeemed_once:
  assumes "wf_doc m" and "row pak_id (preauth_keys m) i = Some k"
    and "\<not> reusable k" and "\<not> used k"
    and "\<forall>(c, op) \<in> set ops. \<not> rekeys i op \<and> \<not> preauth_key_expired c k"
    and "\<exists>c. (c, ConsumePreauthKey i) \<in> set ops"
  shows "wins i ops (fst (run_ops memory_ops ops m)) = 1"
  using assms mem_run_ok [of ops m]
  by (intro mem.exactly_one_winner [where k = k])
    (auto simp: doc_abs_def key_live_iff list_all_iff)

lemma memory_single_use_key_redeemed_once_witness:
  "wins (PreAuthKeyId 7)
     [(noon, ConsumePreauthKey (PreAuthKeyId 7)), (noon, SetPolicy (NetworkId 1) ''{}''),
      (noon, ConsumePreauthKey (PreAuthKeyId 7))]
     (fst (run_ops memory_ops
       [(noon, ConsumePreauthKey (PreAuthKeyId 7)), (noon, SetPolicy (NetworkId 1) ''{}''),
        (noon, ConsumePreauthKey (PreAuthKeyId 7))] (key_doc False))) = 1"
  by (rule memory_single_use_key_redeemed_once [where k = sample_key])
    (auto simp: preauth_key_expired_def sample_key_used)

text \<open>
  C34. A redemption succeeds for exactly the keys that exist, are not expired (a timestamp that does
  not parse counts as expired, and so does one that is not in the future) and are reusable or not
  yet used. It changes nothing but the used flag of that key, and not even that for a reusable key,
  although the trait says \<^verbatim>\<open>true\<close> means that the key was flipped from unused to used.
\<close>

theorem redemption_changes_one_flag:
  "(fst (mem_consume_preauth_key c i m) = Inr True
      \<longleftrightarrow> (\<exists>k. row pak_id (preauth_keys m) i = Some k \<and> (reusable k \<or> \<not> used k)
        \<and> (expires_at k = None
           \<or> (\<exists>ts t. expires_at k = Some ts \<and> parse_rfc3339 c ts = Some t \<and> utc_now c < t))))
   \<and> row pak_id (preauth_keys (snd (mem_consume_preauth_key c i m))) j
      = map_option
          (\<lambda>k. k\<lparr>used := used k \<or> (j = i \<and> \<not> reusable k
                    \<and> fst (mem_consume_preauth_key c i m) = Inr True)\<rparr>)
          (row pak_id (preauth_keys m) j)
   \<and> map pak_id (preauth_keys (snd (mem_consume_preauth_key c i m))) = map pak_id (preauth_keys m)
   \<and> (snd (mem_consume_preauth_key c i m))\<lparr>preauth_keys := preauth_keys m\<rparr> = m"
proof (cases "row pak_id (preauth_keys m) i")
  case None
  then show ?thesis by (auto simp: consume_by_row option.map_ident)
next
  case (Some k)
  then have k: "pak_id k = i" "i \<in> pak_id ` set (preauth_keys m)"
    using row_Some_key row_Some_in by fastforce+
  have ok: "redeemable c k \<longleftrightarrow> (reusable k \<or> \<not> used k) \<and> (expires_at k = None
      \<or> (\<exists>ts t. expires_at k = Some ts \<and> parse_rfc3339 c ts = Some t \<and> utc_now c < t))"
    by (cases "expires_at k") (auto simp: redeemable_def key_live_def)
  have flag: "redeemable c k \<Longrightarrow> \<not> reusable k \<Longrightarrow> \<not> used k" by (simp add: redeemable_def)
  have iff: "fst (mem_consume_preauth_key c i m) = Inr True \<longleftrightarrow>
      (\<exists>k. row pak_id (preauth_keys m) i = Some k \<and> (reusable k \<or> \<not> used k) \<and> (expires_at k = None
         \<or> (\<exists>ts t. expires_at k = Some ts \<and> parse_rfc3339 c ts = Some t \<and> utc_now c < t)))"
    using Some ok by (simp add: consume_by_row)
  show ?thesis
    using Some k flag
    by (intro conjI iff; cases "redeemable c k"; cases "reusable k"; cases "j = i")
      (auto simp: consume_by_row map_upsert_present option.map_ident)
qed

theorem redemption_changes_one_flag_witness:
  "fst (mem_consume_preauth_key noon (PreAuthKeyId 7) (key_doc False)) = Inr True
   \<and> row pak_id (preauth_keys (snd (mem_consume_preauth_key noon (PreAuthKeyId 7) (key_doc False))))
        (PreAuthKeyId 7) = Some (sample_key\<lparr>used := True\<rparr>)"
proof -
  have "\<exists>k. row pak_id (preauth_keys (key_doc False)) (PreAuthKeyId 7) = Some k \<and> (reusable k \<or> \<not> used k)
      \<and> (expires_at k = None
        \<or> (\<exists>ts t. expires_at k = Some ts \<and> parse_rfc3339 noon ts = Some t \<and> utc_now noon < t))"
    by simp
  then have won: "fst (mem_consume_preauth_key noon (PreAuthKeyId 7) (key_doc False)) = Inr True"
    using redemption_changes_one_flag [of noon "PreAuthKeyId 7" "key_doc False" "PreAuthKeyId 7"] by blast
  with redemption_changes_one_flag [of noon "PreAuthKeyId 7" "key_doc False" "PreAuthKeyId 7"]
  show ?thesis by simp
qed

lemma upsert_others:
  "filter (\<lambda>y. P y \<and> key y \<noteq> key x) (upsert_by key x xs) = filter (\<lambda>y. P y \<and> key y \<noteq> key x) xs"
  by (induction xs) auto

lemma upsert_single:
  "distinct (map key xs) \<Longrightarrow> filter (\<lambda>y. key y = key x) (upsert_by key x xs) = [x]"
proof (induction xs)
  case (Cons a xs)
  then have "key a \<notin> key ` set xs" by simp
  then have "\<forall>y \<in> set xs. key y \<noteq> key a" by (metis imageI)
  then have "filter (\<lambda>y. key y = key a) xs = []" by (simp add: filter_empty_conv)
  with Cons show ?case by auto
qed simp

text \<open>
  After an upsert of a node, \<^verbatim>\<open>get_node\<close> finds it, every other node of every network is listed
  as before and in the same order, and the node is listed once in its own network and in no
  other, also when it moved from one network to another. After a delete it is gone and the others
  stay.
\<close>

lemma node_upsert_is_local:
  assumes "wf_doc m"
  shows "mem_get_node i (snd (mem_upsert_node x m)) = (if i = nod_id x then Inr (Some x) else mem_get_node i m)
    \<and> mem_get_node i (snd (mem_delete_node j m)) = (if i = j then Inr None else mem_get_node i m)
    \<and> (\<exists>old new. mem_list_nodes n m = Inr old \<and> mem_list_nodes n (snd (mem_upsert_node x m)) = Inr new
        \<and> filter (\<lambda>y. nod_id y \<noteq> nod_id x) new = filter (\<lambda>y. nod_id y \<noteq> nod_id x) old
        \<and> filter (\<lambda>y. nod_id y = nod_id x) new = (if nod_network_id x = n then [x] else []))"
proof -
  let ?new = "filter (\<lambda>y. nod_network_id y = n) (upsert_by nod_id x (nodes m))"
  have "filter (\<lambda>y. nod_network_id y = n)
      (filter (\<lambda>y. nod_id y = nod_id x) (upsert_by nod_id x (nodes m)))
      = (if nod_network_id x = n then [x] else [])"
    using wf_docD(3) [OF assms] by (simp add: upsert_single)
  then have "filter (\<lambda>y. nod_id y = nod_id x) ?new = (if nod_network_id x = n then [x] else [])"
    by (simp add: conj_commute)
  then show ?thesis
    using upsert_others [of "\<lambda>y. nod_network_id y = n" nod_id x "nodes m"]
    by (auto simp: mem_defs row_def [symmetric])
qed

lemma node_upsert_is_local_witness:
  "mem_get_node (NodeId 5) (snd (mem_upsert_node (sample_node 5 2) (memory_new\<lparr>nodes := [sample_node 5 1]\<rparr>)))
     = Inr (Some (sample_node 5 2))"
  using node_upsert_is_local [of "memory_new\<lparr>nodes := [sample_node 5 1]\<rparr>" "NodeId 5" "sample_node 5 2"]
  by (simp add: wf_doc_def memory_new_def sample_node_def)


subsection \<open>The file store\<close>

lemma file_step_memory:
  "store (snd (perform (file_ops C) e op w))
     = (store w)\<lparr>memory := snd (perform memory_ops (file_clock e) op (memory (store w)))\<rparr>
   \<and> (fst (perform (file_ops C) e op w) = fst (perform memory_ops (file_clock e) op (memory (store w)))
      \<or> (\<exists>err. fst (perform (file_ops C) e op w) = Inl err))"
proof -
  obtain r w' where p: "perform (file_ops C) e op w = (r, w')" by (cases "perform (file_ops C) e op w")
  obtain q m where q: "perform memory_ops (file_clock e) op (memory (store w)) = (q, m)"
    by (cases "perform memory_ops (file_clock e) op (memory (store w))")
  from file_simulates_memory [OF p q] p q show ?thesis by (cases r) auto
qed

lemma file_run_memory:
  "store (snd (run_ops (file_ops C) ops w))
     = (store w)\<lparr>memory := snd (run_ops memory_ops (map (apfst file_clock) ops) (memory (store w)))\<rparr>
   \<and> list_all2 (\<lambda>r q. r = q \<or> (\<exists>err. r = Inl err))
        (fst (run_ops (file_ops C) ops w))
        (fst (run_ops memory_ops (map (apfst file_clock) ops) (memory (store w))))"
proof (induction ops arbitrary: w)
  case (Cons a ops)
  obtain e op where a: "a = (e, op)" by (cases a)
  from file_step_memory [of C e op w] Cons [of "snd (perform (file_ops C) e op w)"] a
  show ?case by (auto simp: Let_def simp del: perform.simps)
qed simp

text \<open>
  C30. The file store keeps in memory exactly what the memory store would hold after the same calls,
  whatever fails on the disk, and each call replies what the memory store replies or an error.
\<close>

theorem file_runs_simulate_memory:
  "store (snd (run_ops (file_ops C) ops w))
     = (store w)\<lparr>memory := snd (run_ops memory_ops (map (apfst file_clock) ops) (memory (store w)))\<rparr>
   \<and> list_all2 (\<lambda>r q. r = q \<or> (\<exists>err. r = Inl err))
        (fst (run_ops (file_ops C) ops w))
        (fst (run_ops memory_ops (map (apfst file_clock) ops) (memory (store w))))"
  by (rule file_run_memory)

lemma perform_flushed:
  assumes "perform (file_ops C) e op w = (Inr x, w')" and "x \<noteq> Consumed False"
  obtains w1 where "file_flush C e w1 = (Inr (), w')" and "disk w1 = disk w"
    and "path (store w1) = path (store w)" and "format (store w1) = format (store w)"
proof -
  let ?m = "snd (perform memory_ops (file_clock e) op (memory (store w)))"
  have "file_flush C e (set_memory ?m w) = (Inr (), w')"
    using assms by (auto simp: file_perform Let_def simp del: perform.simps
        split: if_splits sum.splits prod.splits)
  then show ?thesis by (rule that) simp_all
qed

text \<open>
  When a call on an opened file store has replied \<^verbatim>\<open>Ok\<close> and was not a refused redemption, a
  restart that opens the file again gets exactly the store the call left: every table, row and
  policy.
\<close>

lemma ok_call_survives_restart:
  assumes "durable_inv C w" and "perform (file_ops C) e op w = (Inr x, w')" and "x \<noteq> Consumed False"
  shows "reopen C w' = Some w'"
proof -
  obtain w1 where fl: "file_flush C e w1 = (Inr (), w')" and w1: "disk w1 = disk w"
    "path (store w1) = path (store w)" "format (store w1) = format (store w)"
    using assms(2,3) by (rule perform_flushed)
  have f: "format_from_path (path (store w1)) = Some (format (store w1))" and wf: "wf_fs (disk w1)"
    and C: "codec_ok C" using assms(1) w1 by (simp_all add: durable_inv_def)
  have st: "store w' = store w1" using fl by (rule flush_storeD)
  obtain bs where "serialize_doc C (format (store w')) (memory (store w')) = Inr bs"
    "content (disk w') (path (store w')) = Some bs"
    using flush_props(3) [OF wf tmp_path_other [OF f] fl] st by auto
  with deserialize_serialize [OF C] f st show ?thesis
    by (simp add: reopen_eq set_memory_def)
qed

lemma key_world_consume:
  "perform (file_ops key_codec) calm (ConsumePreauthKey (PreAuthKeyId 7)) key_world
     = (Inr (Consumed True), snd (perform (file_ops key_codec) calm (ConsumePreauthKey (PreAuthKeyId 7)) key_world))"
  by (simp add: file_ops_def file_consume_preauth_key_def in_memory_def key_world_def consume_key_doc
      file_flush_def memory_snapshot_def calm_def fs_write_def fs_create_def fs_rename_def
      fs_write_at_def empty_fs_def consumed_reply_def Let_def split: prod.splits)

lemma ok_call_survives_restart_witness:
  "reopen key_codec (snd (perform (file_ops key_codec) calm (ConsumePreauthKey (PreAuthKeyId 7)) key_world))
     = Some (snd (perform (file_ops key_codec) calm (ConsumePreauthKey (PreAuthKeyId 7)) key_world))"
  by (rule ok_call_survives_restart [OF durable_key_world key_world_consume]) simp


lemma perform_disk:
  assumes "perform (file_ops C) e op w = (r, w')"
  shows "(disk w' = disk w \<and> r = Inr (Consumed False)) \<or>
    (\<exists>w1 u. file_flush C e w1 = (u, w') \<and> disk w1 = disk w \<and> path (store w1) = path (store w)
      \<and> (\<forall>err. r = Inl err \<longrightarrow> u = Inl err))"
proof -
  let ?w1 = "set_memory (snd (perform memory_ops (file_clock e) op (memory (store w)))) w"
  note ok = mem_perform_ok [of "file_clock e" op "memory (store w)"]
  show ?thesis
  proof (cases "fst (perform memory_ops (file_clock e) op (memory (store w))) = Inr (Consumed False)")
    case True
    with assms show ?thesis by (auto simp: file_perform Let_def simp del: perform.simps)
  next
    case False
    then obtain u w2 where fl: "file_flush C e ?w1 = (u, w2)" by (cases "file_flush C e ?w1")
    then have "w2 = w'" and "\<forall>err. r = Inl err \<longrightarrow> u = Inl err"
      using False assms ok
      by (auto simp: file_perform Let_def simp del: perform.simps split: sum.splits)
    with fl have "file_flush C e ?w1 = (u, w') \<and> disk ?w1 = disk w
        \<and> path (store ?w1) = path (store w) \<and> (\<forall>err. r = Inl err \<longrightarrow> u = Inl err)" by simp
    then show ?thesis by blast
  qed
qed

text \<open>
  C33. A call that fails on the disk leaves the snapshot file as it was, and no call touches a file
  other than the snapshot and its temporary.
\<close>

theorem failed_call_keeps_snapshot:
  assumes "wf_fs (disk w)" and "format_from_path (path (store w)) = Some f"
    and "perform (file_ops C) e op w = (r, w')"
  shows "content (disk w') q = content (disk w) q
    \<or> q = tmp_path (path (store w)) \<or> (q = path (store w) \<and> is_ok r)"
  using perform_disk [OF assms(3)]
proof (elim disjE exE conjE)
  fix w1 u
  assume fl: "file_flush C e w1 = (u, w')" and w1: "disk w1 = disk w" "path (store w1) = path (store w)"
    and err: "\<forall>err. r = Inl err \<longrightarrow> u = Inl err"
  have wf: "wf_fs (disk w1)" and ne: "tmp_path (path (store w1)) \<noteq> path (store w1)"
    using assms(1,2) w1 tmp_path_other by simp_all
  note fp = flush_props(2,4) [OF wf ne fl]
  show ?thesis
  proof (cases r)
    case (Inl er)
    then show ?thesis using fp(1) [of q] fp(2) [of er] err w1 by auto
  next
    case (Inr x)
    then show ?thesis using fp(1) [of q] w1 by auto
  qed
qed simp

theorem failed_call_keeps_snapshot_witness:
  "content (disk (snd (perform (file_ops key_codec) full_disk (UpsertNetwork (sample_network 1 ''tailnet'')) key_world))) json_path
     = content (disk key_world) json_path"
proof -
  have "wf_fs (disk key_world)" "format_from_path (path (store key_world)) = Some Json"
    by (simp_all add: key_world_def)
  moreover obtain err w' where "file_flush key_codec full_disk
      (set_memory ((key_doc False)\<lparr>networks := upsert_by net_id (sample_network 1 ''tailnet'') (networks (key_doc False))\<rparr>) key_world)
      = (Inl err, w')" using full_disk_flush by blast
  then have p: "perform (file_ops key_codec) full_disk (UpsertNetwork (sample_network 1 ''tailnet'')) key_world = (Inl err, w')"
    by (simp add: file_perform upsert_network_performs Let_def key_world_def del: perform.simps)
  ultimately have "content (disk w') json_path = content (disk key_world) json_path
    \<or> json_path = tmp_path (path (store key_world))"
    using failed_call_keeps_snapshot [of key_world Json key_codec full_disk "UpsertNetwork (sample_network 1 ''tailnet'')" "Inl err" w' json_path]
    by auto
  then show ?thesis
    using p tmp_path_other [OF json_path_format] by (auto simp: key_world_def simp del: perform.simps)
qed

text \<open>
  C1. Over any history of sequential calls, some failing, of flushes, reloads of the running store and
  restarts, a key that is single-use in memory and on disk, and for which no call writes a reusable row, is
  redeemed at most once more often than its row is rewritten. When nobody rewrites it, no two callers are told
  \<^verbatim>\<open>true\<close>, also when the process dies in between and loads the file again.
\<close>

theorem single_redemption_over_restarts:
  assumes "durable_inv C w" and "single_use i (world_abs w)"
    and "\<forall>sp. saved_spec C w = Some sp \<longrightarrow> single_use i sp"
    and "\<forall>ev \<in> set evs. \<not> opens_key i ev"
  shows "redemptions i (fst (run_events (file_ops C) (reopen C) (file_reload C) (flush_again C) evs w))
    \<le> 1 + rekeyings i evs"
  using durable.redemptions_bound [OF assms(1,4)] assms(2,3) by (simp add: durable.on_disk_def)

theorem single_redemption_over_restarts_witness:
  "redemptions (PreAuthKeyId 7)
     (fst (run_events (file_ops key_codec) (reopen key_codec) (file_reload key_codec) (flush_again key_codec)
       [Call full_disk (SetPolicy (NetworkId 1) ''{}''), Reload calm, Flush full_disk, Call calm (ConsumePreauthKey (PreAuthKeyId 7)),
        Restart, Call calm (ConsumePreauthKey (PreAuthKeyId 7))] key_world)) \<le> 1
   \<and> redemptions (PreAuthKeyId 7)
     (fst (run_events (file_ops key_codec) (reopen key_codec) (file_reload key_codec) (flush_again key_codec)
       [Call calm (ConsumePreauthKey (PreAuthKeyId 7)), Restart, Call calm (UpsertPreauthKey sample_key),
        Call calm (ConsumePreauthKey (PreAuthKeyId 7)), Call calm (ConsumePreauthKey (PreAuthKeyId 7))] key_world)) \<le> 2"
proof -
  have w: "single_use (PreAuthKeyId 7) (world_abs key_world)"
    by (simp add: single_use_def world_abs_def key_world_def key_doc_key)
  have d: "\<forall>sp. saved_spec key_codec key_world = Some sp \<longrightarrow> single_use (PreAuthKeyId 7) sp"
    by (simp add: saved_spec_eq key_world_def decoded_spec_def content_def empty_fs_def single_use_def
        doc_abs_def memory_new_def)
  note r = single_redemption_over_restarts [OF durable_key_world w d]
  show ?thesis
    using r [of "[Call full_disk (SetPolicy (NetworkId 1) ''{}''), Reload calm, Flush full_disk,
        Call calm (ConsumePreauthKey (PreAuthKeyId 7)), Restart, Call calm (ConsumePreauthKey (PreAuthKeyId 7))]"]
      r [of "[Call calm (ConsumePreauthKey (PreAuthKeyId 7)), Restart, Call calm (UpsertPreauthKey sample_key),
        Call calm (ConsumePreauthKey (PreAuthKeyId 7)), Call calm (ConsumePreauthKey (PreAuthKeyId 7))]"]
    by (simp del: run_events.simps)
qed

text \<open>
  C20. Every history of calls, whatever fails, of flushes, reloads and restarts leaves a sound store:
  no two rows of a table share an id in memory, nor in any snapshot a restart would load, and
  a snapshot that could be loaded before the history can be loaded after it.
\<close>

theorem histories_keep_store_sound:
  assumes "durable_inv C w"
    and "snd (run_events (file_ops C) (reopen C) (file_reload C) (flush_again C) evs w) = w'"
  shows "wf_doc (memory (store w')) \<and> wf_fs (disk w')
    \<and> (\<forall>w''. reopen C w' = Some w'' \<longrightarrow> wf_doc (memory (store w'')))
    \<and> (reopen C w \<noteq> None \<longrightarrow> reopen C w' \<noteq> None)"
proof -
  have inv: "durable_inv C w'" using durable.history_inv [OF assms(1)] assms(2) by blast
  then have "wf_doc (memory (store w')) \<and> wf_fs (disk w')" by (simp add: durable_inv_def world_inv_def)
  moreover have "wf_doc (memory (store w''))" if "reopen C w' = Some w''" for w''
    using reopen_keeps(1) [OF inv that] by (simp add: durable_inv_def world_inv_def)
  moreover have "reopen C w \<noteq> None \<longrightarrow> reopen C w' \<noteq> None"
    using durable.history_loadable [OF assms(1)] assms(2) by (auto simp: saved_spec_def)
  ultimately show ?thesis by blast
qed

theorem histories_keep_store_sound_witness:
  "\<exists>w'. snd (run_events (file_ops key_codec) (reopen key_codec) (file_reload key_codec) (flush_again key_codec)
       [Call full_disk (SetPolicy (NetworkId 1) ''{}''), Flush calm, Restart, Reload full_disk] key_world) = w'
     \<and> wf_doc (memory (store w')) \<and> reopen key_codec w' \<noteq> None"
proof -
  have "reopen key_codec key_world \<noteq> None"
    by (simp add: reopen_eq key_world_def content_def empty_fs_def)
  with histories_keep_store_sound [OF durable_key_world refl, of
      "[Call full_disk (SetPolicy (NetworkId 1) ''{}''), Flush calm, Restart, Reload full_disk]"]
  show ?thesis by blast
qed

text \<open>
  When the flush of a redemption fails, the caller gets the error, but the key is already spent
  in memory: the same process refuses it from then on, while a restart would still load the state
  before the call.
\<close>

lemma failed_redemption_burns_key:
  assumes "durable_inv C w" and "row pak_id (preauth_keys (memory (store w))) i = Some k"
    and "\<not> reusable k" and "file_consume_preauth_key C e i w = (Inl err, w')"
  shows "fst (file_consume_preauth_key C e2 i w') = Inr False
    \<and> map_option store (reopen C w') = map_option store (reopen C w)"
proof -
  let ?c = "mem_consume_preauth_key (file_clock e) i (memory (store w))"
  have f: "format_from_path (path (store w)) = Some (format (store w))"
    using assms(1) by (simp add: durable_inv_def)
  have fl: "file_flush C e (set_memory (snd ?c) w) = (Inl err, w')" and ok: "fst ?c = Inr True"
    using assms(4)
    by (auto simp: file_consume_preauth_key_def in_memory_def set_memory_def consume_by_row
        split: prod.splits sum.splits if_splits option.splits)
  have red: "redeemable (file_clock e) k" using ok assms(2) by (simp add: consume_by_row)
  have st: "store w' = (store w)\<lparr>memory := snd ?c\<rparr>" using flush_storeD [OF fl] by (simp add: set_memory_def)
  have "pak_id k = i" using assms(2) by (rule row_Some_key)
  then have "row pak_id (preauth_keys (memory (store w'))) i = Some (k\<lparr>used := True\<rparr>)"
    using st assms(2,3) red by (auto simp: consume_by_row)
  then have "mem_consume_preauth_key (file_clock e2) i (memory (store w')) = (Inr False, memory (store w'))"
    using assms(3) by (simp add: consume_by_row redeemable_def)
  then have "fst (file_consume_preauth_key C e2 i w') = Inr False"
    by (simp add: file_consume_preauth_key_def in_memory_def)
  moreover have "content (disk w') (path (store w)) = content (disk w) (path (store w))"
    using flush_props(4) [of "set_memory (snd ?c) w" C e "Inl err" w' err] fl assms(1) tmp_path_other [OF f]
    by (simp add: durable_inv_def)
  ultimately show ?thesis
    using f st by (auto simp: reopen_eq set_memory_def split: option.split sum.split)
qed

lemma failed_redemption_burns_key_witness:
  "fst (file_consume_preauth_key key_codec calm (PreAuthKeyId 7)
     (snd (file_consume_preauth_key key_codec full_disk (PreAuthKeyId 7) key_world))) = Inr False"
proof -
  obtain err w' where "file_flush key_codec full_disk (set_memory (key_doc True) key_world) = (Inl err, w')"
    using full_disk_flush by blast
  then have "file_consume_preauth_key key_codec full_disk (PreAuthKeyId 7) key_world = (Inl err, w')"
    by (simp add: file_consume_preauth_key_def in_memory_def key_world_def consume_key_doc set_memory_def)
  then show ?thesis
    using failed_redemption_burns_key [OF durable_key_world, of "PreAuthKeyId 7" sample_key full_disk err w' calm]
    by (simp add: key_world_def sample_key_used)
qed


subsection \<open>Opening a file\<close>

definition format_extensions :: "(string \<times> format) list" where
  "format_extensions =
     [(''json'', Json), (''yaml'', Yaml), (''yml'', Yaml), (''toml'', Toml)]"

lemma ascii_extension:
  "x \<in> {''json'', ''yaml'', ''yml'', ''toml''} \<Longrightarrow> from_utf8 (str_bytes x) = Some x"
  by (intro from_utf8_str_bytes valid_utf8_ascii) (auto simp: str_bytes_def)

lemma format_by_table: "format_from_path p = Option.bind (path_extension p) (map_of format_extensions)"
proof (cases "path_extension p")
  case (Some x)
  show ?thesis
  proof (cases "valid_utf8 (str_bytes x)")
    case True
    with Some show ?thesis by (simp add: format_from_path_def from_utf8_def format_extensions_def)
  next
    case False
    with ascii_extension [of x] have "x \<notin> {''json'', ''yaml'', ''yml'', ''toml''}"
      by (auto simp: from_utf8_def)
    with Some False show ?thesis by (simp add: format_from_path_def from_utf8_def format_extensions_def)
  qed
qed (simp add: format_from_path_def)

lemma format_extensions_map: "map_of format_extensions x = Some f \<longleftrightarrow> (x, f) \<in> set format_extensions"
  by (rule map_of_eq_Some_iff) (simp add: format_extensions_def)

lemma tmp_extension: "path_extension (tmp_path p) \<in> {None, Some ''tmp''}"
proof (cases "file_name p")
  case None
  then show ?thesis by (simp add: tmp_path_def with_extension_def path_extension_def)
next
  case (Some s)
  have "rsplit_dot (os_stem s @ CHR ''.'' # ''tmp'') = Some (os_stem s, ''tmp'')"
    by (rule rsplit_dot_append) simp
  with Some show ?thesis
    by (simp add: tmp_path_def with_extension_def path_extension_def file_name_def os_extension_def)
qed

lemma stem_of_extension:
  assumes "s \<noteq> []" and "CHR ''.'' \<notin> set x" and "x \<noteq> []"
  shows "os_stem (s @ CHR ''.'' # x) = s"
proof -
  have "s @ CHR ''.'' # x \<noteq> ''..''"
    using assms by (cases s) (auto simp: append_eq_Cons_conv)
  then show ?thesis using assms by (simp add: os_stem_def rsplit_dot_append)
qed

text \<open>
  A path is a snapshot path exactly when its extension is one of the four the code lists, with
  the format listed for it. The temporary file of a path is never a snapshot path, so it cannot be
  opened as a store, and it differs from any snapshot path; but stores that differ only in the
  extension share it.
\<close>

lemma snapshot_extensions:
  assumes "s \<noteq> []"
  shows "(format_from_path p = Some f
      \<longleftrightarrow> (\<exists>x. path_extension p = Some x \<and> (x, f) \<in> set format_extensions))
   \<and> format_from_path (tmp_path p) = None
   \<and> (\<lambda>(x, g). tmp_path (d @ [Normal (s @ CHR ''.'' # x)])) ` set format_extensions
      = {d @ [Normal (s @ ''.tmp'')]}"
proof (intro conjI)
  show "format_from_path p = Some f
      \<longleftrightarrow> (\<exists>x. path_extension p = Some x \<and> (x, f) \<in> set format_extensions)"
    by (simp add: format_by_table bind_eq_Some_conv format_extensions_map)
  have "from_utf8 (str_bytes ''tmp'') = Some ''tmp''"
    by (intro from_utf8_str_bytes valid_utf8_ascii) (auto simp: str_bytes_def)
  then show "format_from_path (tmp_path p) = None"
    using tmp_extension [of p] by (auto simp: format_from_path_def)
  show "(\<lambda>(x, g). tmp_path (d @ [Normal (s @ CHR ''.'' # x)])) ` set format_extensions
      = {d @ [Normal (s @ ''.tmp'')]}"
    by (simp add: format_extensions_def tmp_path_def with_extension_def file_name_def
        stem_of_extension [OF assms])
qed

text \<open>
  Opening a file the store wrote gives back the written document, whatever version number it
  carries: no version is rejected and none is converted.
\<close>

lemma open_returns_any_version:
  assumes "codec_ok C" and "format_from_path p = Some f"
    and "serialize_doc C f d = Inr bs" and "content fs p = Some bs"
  shows "\<exists>st. file_open C None fs p = Inr st \<and> memory st = d \<and> version (memory st) = version d
    \<and> format st = f"
  using open_some [OF assms(2,4)] deserialize_serialize [OF assms(1,3)] by simp

text \<open>
  A missing file opens as an empty store; loading it again into a store that is running changes
  nothing there, so the documents in memory stay, although the comment on \<^verbatim>\<open>load\<close> calls the missing
  file an empty store.
\<close>

lemma missing_file_reload_keeps_documents:
  assumes "format_from_path (path st) = Some (format st)" and "content fs (path st) = None"
  shows "file_open C None fs (path st) = Inr (st\<lparr>memory := memory_new\<rparr>)
    \<and> file_load C None fs st = (Inr (), st)"
  using open_none [OF assms] assms(2) by (simp add: file_load_def fs_read_def)

text \<open>
  A store whose format was overridden writes that format, but a restart reads the file in the
  format of the path's extension.
\<close>

lemma format_override_is_not_read_back:
  assumes "wf_fs (disk w)" and "format_from_path (path (store w)) = Some g"
    and "file_flush C e (w\<lparr>store := with_format f (store w)\<rparr>) = (Inr (), w')"
  shows "\<exists>bs. serialize_doc C f (memory (store w)) = Inr bs
    \<and> file_open C None (disk w') (path (store w))
      = and_then (deserialize_doc C g bs)
          (\<lambda>d. Inr \<lparr>path = path (store w), format = g, memory = d\<rparr>)"
proof -
  let ?w = "w\<lparr>store := with_format f (store w)\<rparr>"
  have "wf_fs (disk ?w)" "tmp_path (path (store ?w)) \<noteq> path (store ?w)"
    using assms(1,2) tmp_path_other by (simp_all add: with_format_def)
  from flush_props(3) [OF this assms(3)] obtain bs
    where "serialize_doc C f (memory (store w)) = Inr bs"
      "content (disk w') (path (store w)) = Some bs" by (auto simp: with_format_def)
  with open_some [OF assms(2)] show ?thesis by blast
qed

subsection \<open>Calls in parallel\<close>

text \<open>
  C2. A flush that took its snapshot before a redemption and renames after it overwrites the file
  with the older document. Both calls reply \<^verbatim>\<open>Ok\<close>, the redemption with \<^verbatim>\<open>true\<close>, and the store
  opened from that file redeems the same single-use key again.
\<close>

theorem stale_flush_loses_redemption:
  assumes "wf_fs d" and "format_from_path p = Some f" and "codec_ok C"
    and "row pak_id (preauth_keys m) i = Some k"
    and "\<not> reusable k" and "\<not> used k" and "\<not> preauth_key_expired c k"
    and "serialize_doc C f (m\<lparr>networks := upsert_by net_id n (networks m)\<rparr>) = Inr b1"
    and "serialize_doc C f
      (snd (mem_consume_preauth_key c i (m\<lparr>networks := upsert_by net_id n (networks m)\<rparr>))) = Inr b2"
  shows "\<exists>s st. race_steps C f p
      (race_start m d [0 \<mapsto> (c, UpsertNetwork n), 1 \<mapsto> (c, ConsumePreauthKey i)]) s
    \<and> tasks s 0 = Some (c, UpsertNetwork n, Returned (Inr Done))
    \<and> tasks s 1 = Some (c, ConsumePreauthKey i, Returned (Inr (Consumed True)))
    \<and> file_open C None (race_disk s) p = Inr st
    \<and> fst (mem_consume_preauth_key c i (memory st)) = Inr True"
proof -
  let ?m1 = "m\<lparr>networks := upsert_by net_id n (networks m)\<rparr>"
  let ?m2 = "snd (mem_consume_preauth_key c i ?m1)"
  let ?up = "UpsertNetwork n" and ?co = "ConsumePreauthKey i"
  let ?s0 = "race_start m d [0 \<mapsto> (c, ?up), 1 \<mapsto> (c, ?co)]"
  have red: "redeemable c k" using assms(5-7) by (simp add: redeemable_def key_live_iff)
  have ne: "tmp_path p \<noteq> p" using assms(2) by (rule tmp_path_other)
  let ?s1 = "goto 0 c ?up (Snapped Done b1) (?s0\<lparr>race_memory := ?m1\<rparr>)"
  have r1: "race_steps C f p ?s0 ?s1"
    by (rule mutate_snapshot) (auto simp: race_start_def upsert_network_performs assms(8) simp del: perform.simps)
  let ?s2 = "goto 1 c ?co (Snapped (Consumed True) b2) (?s1\<lparr>race_memory := ?m2\<rparr>)"
  have r2: "race_steps C f p ?s1 ?s2"
    using assms(4,9) red
    by (intro mutate_snapshot) (auto simp: race_start_def consume_performs [where k = k] simp del: perform.simps)
  have "tasks ?s2 1 = Some (c, ?co, Snapped (Consumed True) b2)" "wf_fs (race_disk ?s2)"
    using assms(1) by (simp_all add: race_start_def)
  from finish_flush [OF this ne] obtain d3
    where r3: "race_steps C f p ?s2 (goto 1 c ?co (Returned (Inr (Consumed True))) (?s2\<lparr>race_disk := d3\<rparr>))"
      and d3: "wf_fs d3" by blast
  let ?s3 = "goto 1 c ?co (Returned (Inr (Consumed True))) (?s2\<lparr>race_disk := d3\<rparr>)"
  have "tasks ?s3 0 = Some (c, ?up, Snapped Done b1)" "wf_fs (race_disk ?s3)"
    using d3 by (simp_all add: race_start_def)
  from finish_flush [OF this ne] obtain d4
    where r4: "race_steps C f p ?s3 (goto 0 c ?up (Returned (Inr Done)) (?s3\<lparr>race_disk := d4\<rparr>))"
      and d4: "content d4 p = Some b1" by blast
  let ?s4 = "goto 0 c ?up (Returned (Inr Done)) (?s3\<lparr>race_disk := d4\<rparr>)"
  let ?st = "\<lparr>path = p, format = f, memory = ?m1\<rparr>"
  have "race_steps C f p ?s0 ?s4" using r1 r2 r3 r4 by (meson rtranclp_trans)
  moreover have "file_open C None (race_disk ?s4) p = Inr ?st"
    using open_some [OF assms(2) d4] deserialize_serialize [OF assms(3,8)] by simp
  moreover have "fst (mem_consume_preauth_key c i (memory ?st)) = Inr True"
    using assms(4) red by (simp add: consume_by_row)
  moreover have "tasks ?s4 0 = Some (c, ?up, Returned (Inr Done))"
    and "tasks ?s4 1 = Some (c, ?co, Returned (Inr (Consumed True)))" by simp_all
  ultimately show ?thesis by blast
qed

definition race_network :: network where
  "race_network = sample_network 1 ''tailnet''"

definition race_codec :: codec where
  "race_codec =
     table_codec
       [(key_doc False)\<lparr>networks := [race_network]\<rparr>, (key_doc True)\<lparr>networks := [race_network]\<rparr>,
        memory_new\<lparr>networks := [race_network]\<rparr>,
        memory_new\<lparr>networks := [race_network, sample_network 2 ''other'']\<rparr>]"

lemma race_docs_differ [simp]:
  "(key_doc False)\<lparr>networks := ns\<rparr> \<noteq> (key_doc True)\<lparr>networks := ms\<rparr>"
  "(key_doc u)\<lparr>networks := ns\<rparr> \<noteq> memory_new\<lparr>networks := ms\<rparr>"
  by (simp_all add: key_doc_def memory_new_def sample_key_def)

lemma consume_key_doc_networks:
  "mem_consume_preauth_key c (PreAuthKeyId 7) ((key_doc False)\<lparr>networks := ns\<rparr>)
     = (Inr True, (key_doc True)\<lparr>networks := ns\<rparr>)"
  by (simp add: mem_consume_preauth_key_def key_doc_def preauth_key_expired_def memory_new_def)

theorem stale_flush_loses_redemption_witness:
  "\<exists>s st. race_steps race_codec Json json_path
      (race_start (key_doc False) empty_fs
        [0 \<mapsto> (noon, UpsertNetwork race_network), 1 \<mapsto> (noon, ConsumePreauthKey (PreAuthKeyId 7))]) s
    \<and> tasks s 1 = Some (noon, ConsumePreauthKey (PreAuthKeyId 7), Returned (Inr (Consumed True)))
    \<and> file_open race_codec None (race_disk s) json_path = Inr st
    \<and> fst (mem_consume_preauth_key noon (PreAuthKeyId 7) (memory st)) = Inr True"
proof -
  have nets: "(key_doc False)\<lparr>networks := upsert_by net_id race_network (networks (key_doc False))\<rparr>
      = (key_doc False)\<lparr>networks := [race_network]\<rparr>"
    by (simp add: key_doc_def memory_new_def)
  have "codec_ok race_codec" by (simp add: race_codec_def table_codec_ok)
  from stale_flush_loses_redemption [OF wf_empty_fs json_path_format this,
      of "key_doc False" "PreAuthKeyId 7" sample_key noon race_network "[0]" "[1]"]
  show ?thesis
    by (fastforce simp: nets consume_key_doc_networks sample_key_used preauth_key_expired_def
        serialize_doc_def race_codec_def table_codec_def doc_index_def)
qed

text \<open>
  C28. Two overlapping flushes share the temporary file: one truncates it after the other has
  written it and before that one renames it. The first call replies \<^verbatim>\<open>Ok\<close> and the snapshot file
  is empty, so a crash at this point loses every document the file ever held.
\<close>

theorem overlapping_flush_empties_file:
  assumes "wf_fs d" and "format_from_path p = Some f"
    and "serialize_doc C f (m\<lparr>networks := upsert_by net_id n1 (networks m)\<rparr>) = Inr b1"
    and "serialize_doc C f
      (m\<lparr>networks := upsert_by net_id n2 (upsert_by net_id n1 (networks m))\<rparr>) = Inr b2"
  shows "\<exists>s. race_steps C f p
      (race_start m d [0 \<mapsto> (c, UpsertNetwork n1), 1 \<mapsto> (c, UpsertNetwork n2)]) s
    \<and> tasks s 0 = Some (c, UpsertNetwork n1, Returned (Inr Done))
    \<and> content (race_disk s) p = Some []"
proof -
  let ?m1 = "m\<lparr>networks := upsert_by net_id n1 (networks m)\<rparr>"
  let ?m2 = "m\<lparr>networks := upsert_by net_id n2 (upsert_by net_id n1 (networks m))\<rparr>"
  let ?u1 = "UpsertNetwork n1" and ?u2 = "UpsertNetwork n2" and ?tmp = "tmp_path p"
  let ?s0 = "race_start m d [0 \<mapsto> (c, ?u1), 1 \<mapsto> (c, ?u2)]"
  have ne: "?tmp \<noteq> p" using assms(2) by (rule tmp_path_other)
  let ?s1 = "goto 0 c ?u1 (Snapped Done b1) (?s0\<lparr>race_memory := ?m1\<rparr>)"
  have r1: "race_steps C f p ?s0 ?s1"
    by (rule mutate_snapshot) (auto simp: race_start_def upsert_network_performs assms(3) simp del: perform.simps)
  let ?s2 = "goto 1 c ?u2 (Snapped Done b2) (?s1\<lparr>race_memory := ?m2\<rparr>)"
  have r2: "race_steps C f p ?s1 ?s2"
    by (rule mutate_snapshot) (auto simp: race_start_def upsert_network_performs assms(4) simp del: perform.simps)
  have "tasks ?s2 0 = Some (c, ?u1, Snapped Done b1)" "wf_fs (race_disk ?s2)"
    using assms(1) by (simp_all add: race_start_def)
  from create_write [OF this, where p = p and C = C and f = f] obtain i d3
    where r3: "race_steps C f p ?s2
        (goto 0 c ?u1 (Writing Done i (length b1) []) (?s2\<lparr>race_disk := d3\<rparr>))"
      and d3: "wf_fs d3" "names d3 ?tmp = Some i" by blast
  let ?s3 = "goto 0 c ?u1 (Writing Done i (length b1) []) (?s2\<lparr>race_disk := d3\<rparr>)"
  let ?d4 = "d3\<lparr>inodes := (inodes d3)(i := [])\<rparr>"
  let ?s4 = "goto 1 c ?u2 (Writing Done i 0 b2) (?s3\<lparr>race_disk := ?d4\<rparr>)"
  have r4: "race_step C f p ?s3 ?s4"
    using d3(2) by (intro race_step.create) (auto simp: race_start_def fs_create_def)
  let ?d5 = "?d4\<lparr>names := (names ?d4)(?tmp := None, p \<mapsto> i)\<rparr>"
  let ?s5 = "goto 0 c ?u1 (Returned (Inr Done)) (?s4\<lparr>race_disk := ?d5\<rparr>)"
  have "race_step C f p ?s4
      (goto 0 c ?u1 (Returned (and_then (map_err Io (Inr ())) (\<lambda>_. Inr Done))) (?s4\<lparr>race_disk := ?d5\<rparr>))"
    using d3(2) ne by (intro race_step.rename) (auto simp: fs_rename_def)
  then have r5: "race_step C f p ?s4 ?s5" by simp
  have "race_steps C f p ?s0 ?s5"
    using r1 r2 r3 one_step [OF r4] one_step [OF r5] by (meson rtranclp_trans)
  moreover have "content (race_disk ?s5) p = Some []" by (simp add: content_def)
  ultimately show ?thesis by fastforce
qed


theorem overlapping_flush_empties_file_witness:
  "\<exists>s. race_steps race_codec Json json_path
      (race_start memory_new empty_fs
        [0 \<mapsto> (noon, UpsertNetwork race_network), 1 \<mapsto> (noon, UpsertNetwork (sample_network 2 ''other''))]) s
    \<and> tasks s 0 = Some (noon, UpsertNetwork race_network, Returned (Inr Done))
    \<and> content (race_disk s) json_path = Some []"
  by (rule overlapping_flush_empties_file [OF wf_empty_fs json_path_format, of _ _ _ "[2]" _ "[3]"])
    (simp_all add: serialize_doc_def race_codec_def table_codec_def doc_index_def memory_new_def
      key_doc_def race_network_def sample_network_def)

text \<open>
  C29. Whatever the interleaving of the calls and the faults of the disk, as long as none of the calls is an
  upsert of the key's own row, at most one of the tasks that present a single-use key is told that it redeemed it:
  the write lock around the document makes the flush races harmless for one process that only redeems the key.
\<close>

theorem parallel_single_winner:
  assumes "single_use i (doc_abs m)"
    and "\<forall>t c op. calls t = Some (c, op) \<longrightarrow> \<not> rekeys i op"
    and "race_steps C f p (race_start m d calls) s"
    and "tasks s t = Some (c1, ConsumePreauthKey i, Returned (Inr (Consumed True)))"
    and "tasks s u = Some (c2, ConsumePreauthKey i, Returned (Inr (Consumed True)))"
  shows "t = u"
proof -
  have "win_inv i s" using win_inv_steps [OF assms(3)] win_inv_start [OF assms(1,2)] by blast
  moreover have "holds_win i s t" "holds_win i s u" using assms(4,5) by (auto simp: holds_win_def)
  ultimately show ?thesis by (auto simp: win_inv_def)
qed

definition key_calls :: "nat \<rightharpoonup> chrono_env \<times> store_op" where
  "key_calls =
     [0 \<mapsto> (noon, ConsumePreauthKey (PreAuthKeyId 7)), 1 \<mapsto> (noon, ConsumePreauthKey (PreAuthKeyId 7))]"

lemma key_race_run:
  "\<exists>s. race_steps key_codec Json json_path (race_start (key_doc False) empty_fs key_calls) s
    \<and> tasks s 0 = Some (noon, ConsumePreauthKey (PreAuthKeyId 7), Returned (Inr (Consumed True)))
    \<and> content (race_disk s) json_path = Some [1]"
proof -
  let ?s0 = "race_start (key_doc False) empty_fs key_calls"
  have "tasks ?s0 0 = Some (noon, ConsumePreauthKey (PreAuthKeyId 7), Waiting)"
    "perform memory_ops noon (ConsumePreauthKey (PreAuthKeyId 7)) (race_memory ?s0)
       = (Inr (Consumed True), key_doc True)" "wf_fs (race_disk ?s0)"
    by (simp_all add: race_start_def key_calls_def memory_ops_def consumed_reply_def consume_key_doc)
  from undisturbed_call [OF this(1,2) _ _ this(3) tmp_path_other [OF json_path_format],
      of key_codec Json "[1]"]
  show ?thesis by fastforce
qed

theorem parallel_single_winner_witness:
  "\<exists>s. race_steps key_codec Json json_path (race_start (key_doc False) empty_fs key_calls) s
    \<and> tasks s 0 = Some (noon, ConsumePreauthKey (PreAuthKeyId 7), Returned (Inr (Consumed True)))
    \<and> tasks s 1 \<noteq> Some (noon, ConsumePreauthKey (PreAuthKeyId 7), Returned (Inr (Consumed True)))"
proof -
  obtain s where run: "race_steps key_codec Json json_path (race_start (key_doc False) empty_fs key_calls) s"
    and s0: "tasks s 0 = Some (noon, ConsumePreauthKey (PreAuthKeyId 7), Returned (Inr (Consumed True)))"
    using key_race_run by blast
  have su: "single_use (PreAuthKeyId 7) (doc_abs (key_doc False))"
    by (simp add: single_use_def key_doc_key)
  have nr: "\<forall>t c op. key_calls t = Some (c, op) \<longrightarrow> \<not> rekeys (PreAuthKeyId 7) op"
    by (auto simp: key_calls_def split: if_splits)
  have "tasks s 1 \<noteq> Some (noon, ConsumePreauthKey (PreAuthKeyId 7), Returned (Inr (Consumed True)))"
    using parallel_single_winner [OF su nr run s0, of 1 noon] by auto
  with run s0 show ?thesis by blast
qed

lemma key_lone_run:
  "\<exists>s. race_steps key_codec Json json_path
      (race_start (key_doc False) empty_fs [0 \<mapsto> (noon, ConsumePreauthKey (PreAuthKeyId 7))]) s
    \<and> tasks s 0 = Some (noon, ConsumePreauthKey (PreAuthKeyId 7), Returned (Inr (Consumed True)))"
proof -
  let ?s0 = "race_start (key_doc False) empty_fs [0 \<mapsto> (noon, ConsumePreauthKey (PreAuthKeyId 7))]"
  have "tasks ?s0 0 = Some (noon, ConsumePreauthKey (PreAuthKeyId 7), Waiting)"
    "perform memory_ops noon (ConsumePreauthKey (PreAuthKeyId 7)) (race_memory ?s0)
       = (Inr (Consumed True), key_doc True)" "wf_fs (race_disk ?s0)"
    by (simp_all add: race_start_def memory_ops_def consumed_reply_def consume_key_doc)
  from undisturbed_call [OF this(1,2) _ _ this(3) tmp_path_other [OF json_path_format],
      of key_codec Json "[1]"] show ?thesis by fastforce
qed

text \<open>
  A mutating call that runs alone replaces the snapshot atomically: at every moment of it, so
  also where the process dies or the disk fails half-way through the temporary file, the snapshot
  file holds what it held before or the complete document after the call, and the latter once the
  call has replied \<^verbatim>\<open>Ok\<close> to a change.
\<close>

lemma lone_call_is_crash_atomic:
  assumes "wf_fs d" and "format_from_path p = Some f"
    and "race_steps C f p (race_start m d [t \<mapsto> (c, op)]) s"
  shows "\<exists>ph. tasks s t = Some (c, op, ph)
    \<and> (if \<exists>r. ph = Returned (Inr r) \<and> r \<noteq> Consumed False
       then \<exists>bs. serialize_doc C f (snd (perform memory_ops c op m)) = Inr bs
              \<and> content (race_disk s) p = Some bs
       else content (race_disk s) p = content d p)"
proof -
  have ne: "tmp_path p \<noteq> p" using assms(2) by (rule tmp_path_other)
  have "lone_inv C f p m d t c op s" using lone_steps [OF assms(3) lone_start [OF assms(1)] ne] .
  then show ?thesis by (fastforce simp: lone_inv_def acknowledged_def saved_def)
qed

lemma lone_call_is_crash_atomic_witness:
  "\<exists>s. race_steps key_codec Json json_path
      (race_start (key_doc False) empty_fs [0 \<mapsto> (noon, ConsumePreauthKey (PreAuthKeyId 7))]) s
    \<and> content (race_disk s) json_path = Some [1]"
proof -
  have pf: "perform memory_ops noon (ConsumePreauthKey (PreAuthKeyId 7)) (key_doc False)
       = (Inr (Consumed True), key_doc True)"
    by (simp add: memory_ops_def consumed_reply_def consume_key_doc)
  obtain s where run: "race_steps key_codec Json json_path
      (race_start (key_doc False) empty_fs [0 \<mapsto> (noon, ConsumePreauthKey (PreAuthKeyId 7))]) s"
    and "tasks s 0 = Some (noon, ConsumePreauthKey (PreAuthKeyId 7), Returned (Inr (Consumed True)))"
    using key_lone_run by blast
  with lone_call_is_crash_atomic [OF wf_empty_fs json_path_format run] pf
  show ?thesis by (intro exI [of _ s]) (auto simp del: perform.simps)
qed

lemma lin_inv_begun:
  assumes "lin_inv m calls ts s"
  shows "t \<in> set ts \<longleftrightarrow> (\<exists>c op ph. calls t = Some (c, op) \<and> tasks s t = Some (c, op, ph) \<and> ph \<noteq> Waiting)"
proof (cases "tasks s t")
  case None
  with assms show ?thesis by (auto simp: lin_inv_def)
next
  case (Some x)
  with assms show ?thesis by (cases x) (auto simp: lin_inv_def)
qed

text \<open>
  C3. The calls linearize: every interleaving is equivalent to some order of the calls, which respects time.
  The document, and every \<^verbatim>\<open>Ok\<close> reply given so far, are those of the memory store serving the calls that took
  the write lock, one after the other, in the order in which they took it; and of that order, what was settled
  at an earlier moment \<open>s1\<close> is the beginning, so a call that replied before another was made comes before it.
\<close>

theorem parallel_calls_linearize:
  assumes "race_steps C f p (race_start m d calls) s1" and "race_steps C f p s1 s"
  shows "\<exists>ts us. distinct (ts @ us)
    \<and> (\<forall>t. t \<in> set ts \<longleftrightarrow>
          (\<exists>c op ph. calls t = Some (c, op) \<and> tasks s1 t = Some (c, op, ph) \<and> ph \<noteq> Waiting))
    \<and> (\<forall>t. t \<in> set (ts @ us) \<longleftrightarrow>
          (\<exists>c op ph. calls t = Some (c, op) \<and> tasks s t = Some (c, op, ph) \<and> ph \<noteq> Waiting))
    \<and> race_memory s = snd (run_ops memory_ops (map (the \<circ> calls) (ts @ us)) m)
    \<and> (\<forall>n < length (ts @ us). \<forall>c op r. tasks s ((ts @ us) ! n) = Some (c, op, Returned (Inr r)) \<longrightarrow>
          fst (run_ops memory_ops (map (the \<circ> calls) (ts @ us)) m) ! n = Inr r)"
proof -
  obtain ts where ts: "lin_inv m calls ts s1" using lin_inv_steps [OF assms(1) lin_inv_start] by blast
  obtain us where us: "lin_inv m calls (ts @ us) s" using lin_inv_extends [OF assms(2) ts] by blast
  have "distinct (ts @ us)" "race_memory s = snd (run_ops memory_ops (map (the \<circ> calls) (ts @ us)) m)"
    using us by (simp_all add: lin_inv_def)
  moreover have "fst (run_ops memory_ops (map (the \<circ> calls) (ts @ us)) m) ! n = Inr r"
    if "n < length (ts @ us)" "tasks s ((ts @ us) ! n) = Some (c, op, Returned (Inr r))" for n c op r
    using us that unfolding lin_inv_def by fastforce
  ultimately show ?thesis
    using lin_inv_begun [OF ts] lin_inv_begun [OF us] by (intro exI [of _ ts] exI [of _ us]) blast
qed

theorem parallel_calls_linearize_witness:
  "\<exists>s ts us. race_steps key_codec Json json_path (race_start (key_doc False) empty_fs key_calls) s
    \<and> tasks s 0 = Some (noon, ConsumePreauthKey (PreAuthKeyId 7), Returned (Inr (Consumed True)))
    \<and> 0 \<in> set ts \<and> race_memory s = snd (run_ops memory_ops (map (the \<circ> key_calls) (ts @ us)) (key_doc False))"
proof -
  obtain s where run: "race_steps key_codec Json json_path (race_start (key_doc False) empty_fs key_calls) s"
    and s0: "tasks s 0 = Some (noon, ConsumePreauthKey (PreAuthKeyId 7), Returned (Inr (Consumed True)))"
    using key_race_run by blast
  obtain ts us where ts: "\<forall>t. t \<in> set ts \<longleftrightarrow>
        (\<exists>c op ph. key_calls t = Some (c, op) \<and> tasks s t = Some (c, op, ph) \<and> ph \<noteq> Waiting)"
      and m: "race_memory s = snd (run_ops memory_ops (map (the \<circ> key_calls) (ts @ us)) (key_doc False))"
    using parallel_calls_linearize [OF run rtranclp.rtrancl_refl] by (elim exE conjE) (rule that)
  have "key_calls 0 = Some (noon, ConsumePreauthKey (PreAuthKeyId 7))" by (simp add: key_calls_def)
  with ts s0 have "0 \<in> set ts" by simp
  with run m s0 show ?thesis by blast
qed

text \<open>
  C21. What every interleaving keeps, with faults anywhere and calls abandoned at any point: the
  tables in memory stay free of duplicate ids, the file system stays well-formed, and no file
  other than the snapshot and its temporary is touched.
\<close>

theorem interleavings_keep_store_sound:
  assumes "wf_doc m" and "wf_fs d" and "race_steps C f p (race_start m d calls) s"
  shows "wf_doc (race_memory s) \<and> wf_fs (race_disk s)
    \<and> (content (race_disk s) q = content d q \<or> q = p \<or> q = tmp_path p)"
  using race_ok_steps [OF assms(3) race_ok_start [OF assms(1,2)]] by (auto simp: race_ok_def)

theorem interleavings_keep_store_sound_witness:
  "\<exists>s. race_steps key_codec Json json_path (race_start (key_doc False) empty_fs key_calls) s
    \<and> content (race_disk s) json_path = Some [1] \<and> wf_doc (race_memory s)
    \<and> content (race_disk s) [Normal ''other.json''] = None"
proof -
  obtain s where run: "race_steps key_codec Json json_path (race_start (key_doc False) empty_fs key_calls) s"
    and c: "content (race_disk s) json_path = Some [1]"
    using key_race_run by blast
  have "tmp_path json_path \<noteq> [Normal ''other.json'']"
    by (simp add: tmp_path_def with_extension_def json_path_def file_name_def)
  with interleavings_keep_store_sound [OF wf_key_doc wf_empty_fs run, of "[Normal ''other.json'']"] run c
  show ?thesis by (auto simp: json_path_def content_def empty_fs_def)
qed



text \<open>
  C7. Calls whose mutation-to-reply spans do not overlap are durable, even though any of them may
  fail or be abandoned: the snapshot file holds what it held at the start or the document after some
  first calls in the order of their mutations, and every call that has replied \<^verbatim>\<open>Ok\<close> to a change
  is among these. The overlap is thus the only cause of the lost redemption: holding a lock over mutation
  and flush would be enough to exclude it.
\<close>

theorem calls_that_do_not_overlap_are_durable:
  assumes "wf_fs d" and "format_from_path p = Some f"
    and "calm_steps C f p (race_start m d calls) s"
  shows "\<exists>ts k. distinct ts
    \<and> (k = 0 \<and> content (race_disk s) p = content d p
       \<or> (\<exists>bs. serialize_doc C f (after_calls m calls (take k ts)) = Inr bs
            \<and> content (race_disk s) p = Some bs))
    \<and> race_memory s = after_calls m calls ts
    \<and> (\<forall>t c op r. tasks s t = Some (c, op, Returned (Inr r)) \<longrightarrow> r \<noteq> Consumed False \<longrightarrow>
         t \<in> set (take k ts))"
proof -
  obtain ts k where inv: "calm_inv C f p m d calls ts k s"
    using calm_run [OF assms(3,1) tmp_path_other [OF assms(2)]] by blast
  have "t \<in> set (take k ts)" if "tasks s t = Some (c, op, Returned (Inr r))" "r \<noteq> Consumed False"
    for t c op r using that inv by (fastforce simp: calm_inv_def)
  with inv show ?thesis
    by (intro exI [of _ ts] exI [of _ k]) (auto simp: calm_inv_def lin_inv_def after_calls_def saved_def)
qed

theorem calls_that_do_not_overlap_are_durable_witness:
  "\<exists>s ts k bs. calm_steps key_codec Json json_path
      (race_start (key_doc False) empty_fs [0 \<mapsto> (noon, ConsumePreauthKey (PreAuthKeyId 7))]) s
    \<and> 0 \<in> set (take k ts)
    \<and> serialize_doc key_codec Json
        (after_calls (key_doc False) [0 \<mapsto> (noon, ConsumePreauthKey (PreAuthKeyId 7))] (take k ts)) = Inr bs
    \<and> content (race_disk s) json_path = Some bs"
proof -
  let ?calls = "[0 \<mapsto> (noon, ConsumePreauthKey (PreAuthKeyId 7))] :: nat \<rightharpoonup> chrono_env \<times> store_op"
  obtain s where run: "race_steps key_codec Json json_path (race_start (key_doc False) empty_fs ?calls) s"
    and s0: "tasks s 0 = Some (noon, ConsumePreauthKey (PreAuthKeyId 7), Returned (Inr (Consumed True)))"
    using key_lone_run by blast
  have calm: "calm_steps key_codec Json json_path (race_start (key_doc False) empty_fs ?calls) s"
    by (rule lone_run_is_calm [OF run wf_empty_fs tmp_path_other [OF json_path_format]])
  from calls_that_do_not_overlap_are_durable [OF wf_empty_fs json_path_format calm] obtain ts k
    where k: "k = 0 \<and> content (race_disk s) json_path = content empty_fs json_path
       \<or> (\<exists>bs. serialize_doc key_codec Json (after_calls (key_doc False) ?calls (take k ts)) = Inr bs
            \<and> content (race_disk s) json_path = Some bs)"
      and ack: "\<forall>t c op r. tasks s t = Some (c, op, Returned (Inr r)) \<longrightarrow> r \<noteq> Consumed False \<longrightarrow>
         t \<in> set (take k ts)" by blast
  have "0 \<in> set (take k ts)" using ack s0 by blast
  with k calm show ?thesis by fastforce
qed

text \<open>
  The interleaving model contains the sequential one: a call that the file store answers with
  \<^verbatim>\<open>Ok\<close> is a run of its one task to the same reply, the same document and the same snapshot.
\<close>

lemma sequential_call_is_a_run:
  assumes "format_from_path (path (store w)) = Some (format (store w))" and "wf_fs (disk w)"
    and "perform (file_ops C) e op w = (Inr r, w')"
  shows "\<exists>s. race_steps C (format (store w)) (path (store w))
        (race_start (memory (store w)) (disk w) [t \<mapsto> (file_clock e, op)]) s
    \<and> tasks s t = Some (file_clock e, op, Returned (Inr r))
    \<and> race_memory s = memory (store w')
    \<and> content (race_disk s) (path (store w)) = content (disk w') (path (store w))"
proof -
  let ?s0 = "race_start (memory (store w)) (disk w) [t \<mapsto> (file_clock e, op)]"
  let ?m = "snd (perform memory_ops (file_clock e) op (memory (store w)))"
  have t: "tasks ?s0 t = Some (file_clock e, op, Waiting)" by (simp add: race_start_def)
  have m: "memory (store w') = ?m" using file_step_memory [of C e op w] assms(3) by simp
  have pf: "perform memory_ops (file_clock e) op (race_memory ?s0) = (Inr r, ?m)"
    using file_step_memory [of C e op w] assms(3) by (auto simp: race_start_def prod_eq_iff)
  have ne: "tmp_path (path (store w)) \<noteq> path (store w)" using assms(1) by (rule tmp_path_other)
  show ?thesis
  proof (cases "r = Consumed False")
    case True
    have "fst (perform memory_ops (file_clock e) op (memory (store w))) = Inr (Consumed False)"
      using True file_step_memory [of C e op w] assms(3) by simp
    then have "disk w' = disk w"
      using assms(3) by (auto simp: file_perform Let_def simp del: perform.simps)
    with True m one_step [OF race_step.mutate [OF t pf, of C "format (store w)" "path (store w)"]]
    show ?thesis
      by (intro exI [of _ "goto t (file_clock e) op (Returned (Inr r)) (?s0\<lparr>race_memory := ?m\<rparr>)"])
        (simp add: after_mutation_def race_start_def)
  next
    case False
    obtain w1 where fl: "file_flush C e w1 = (Inr (), w')" and w1: "disk w1 = disk w"
      "path (store w1) = path (store w)" "format (store w1) = format (store w)"
      using assms(3) False by (rule perform_flushed)
    have wf: "wf_fs (disk w1)" "tmp_path (path (store w1)) \<noteq> path (store w1)"
      using assms(2) ne w1 by simp_all
    have "memory (store w1) = ?m" using flush_storeD [OF fl] m by simp
    with flush_props(3) [OF wf fl] w1 obtain bs where bs:
      "serialize_doc C (format (store w)) ?m = Inr bs" "content (disk w') (path (store w)) = Some bs"
      by auto
    have "wf_fs (race_disk ?s0)" using assms(2) by (simp add: race_start_def)
    from undisturbed_call [OF t pf False bs(1) this ne] bs(2) m show ?thesis by fastforce
  qed
qed

lemma sequential_call_is_a_run_witness:
  "\<exists>s. race_steps key_codec Json json_path
        (race_start (key_doc False) empty_fs [3 \<mapsto> (noon, ConsumePreauthKey (PreAuthKeyId 7))]) s
    \<and> tasks s 3 = Some (noon, ConsumePreauthKey (PreAuthKeyId 7), Returned (Inr (Consumed True)))"
proof -
  have "format_from_path (path (store key_world)) = Some (format (store key_world))"
    "wf_fs (disk key_world)" by (simp_all add: key_world_def)
  from sequential_call_is_a_run [OF this key_world_consume, of 3] show ?thesis
    by (auto simp: key_world_def calm_def simp del: perform.simps)
qed

end
