(* ===== verification/Failed_Calls.thy ===== *)
theory Failed_Calls
  imports Store_Correctness
begin

text \<open>
  What becomes of calls of a \<^verbatim>\<open>FileStore\<close> that replied an error. Such a call has changed the document in
  memory and is not rolled back: the next flush that succeeds saves its change. And a row that the
  serialiser of the store's format refuses stays in the document, so every later change fails
  until the row is removed.
\<close>


subsection \<open>The next flush saves the failed calls\<close>

text \<open>On a disk that works, a call replies as the memory store if its document can be serialised.\<close>

lemma calm_call:
  assumes "no_faults e" and "wf_fs (disk w)"
    and "perform memory_ops (file_clock e) op (memory (store w)) = (Inr x, m)"
    and "serialize_doc C (format (store w)) m = Inr bs"
  shows "\<exists>w'. perform (file_ops C) e op w = (Inr x, w')"
proof -
  obtain w' where "file_flush C e (set_memory m w) = (Inr (), w')"
    using calm_file_flush [of e "set_memory m w" C bs] assms(1,2,4) by auto
  with assms(3) show ?thesis by (auto simp: file_perform Let_def simp del: perform.simps)
qed

text \<open>
  C23. An error reply is not a rollback. After any calls, failed or not, the next call that replies
  \<^verbatim>\<open>Ok\<close> to a change saves the document in which all of them took effect: a restart gets exactly that
  store, with the changes whose callers were told they failed.
\<close>

theorem next_flush_saves_failed_calls:
  assumes "durable_inv C w"
    and "perform (file_ops C) e op (snd (run_ops (file_ops C) ops w)) = (Inr x, w')"
    and "x \<noteq> Consumed False"
  shows "reopen C w' = Some w'
    \<and> memory (store w')
      = snd (run_ops memory_ops (map (apfst file_clock) (ops @ [(e, op)])) (memory (store w)))"
proof -
  have "durable_inv C (snd (run_ops (file_ops C) ops w))" using assms(1) by (rule durable.run_inv)
  then have "reopen C w' = Some w'" using assms(2,3) by (rule ok_call_survives_restart)
  moreover have "w' = snd (run_ops (file_ops C) (ops @ [(e, op)]) w)"
    using assms(2) by (simp add: run_ops_append Let_def del: perform.simps)
  ultimately show ?thesis using file_run_memory [of C "ops @ [(e, op)]" w] by simp
qed

text \<open>A redemption that failed on the full disk is saved by the flush of a policy that is set next.\<close>

definition policy_doc :: store_document where
  "policy_doc = (key_doc True)\<lparr>policies := [NetworkId 1 \<mapsto> ''{}'']\<rparr>"

definition policy_codec :: codec where
  "policy_codec = table_codec [key_doc False, key_doc True, policy_doc]"

lemma policy_doc_differs [simp]: "key_doc u \<noteq> policy_doc"
  by (simp add: policy_doc_def key_doc_def memory_new_def) (metis map_upd_nonempty)

lemma set_policy_key_doc [simp]:
  "mem_set_policy (NetworkId 1) ''{}'' (key_doc True) = (Inr (), policy_doc)"
  by (simp add: mem_set_policy_def policy_doc_def key_doc_def memory_new_def)

lemma policy_world_durable: "durable_inv policy_codec key_world"
  using durable_key_world
  by (simp add: durable_inv_def policy_codec_def table_codec_ok disk_ok_def key_world_def content_def empty_fs_def)

theorem next_flush_saves_failed_calls_witness:
  "\<exists>w'. fst (run_ops (file_ops policy_codec) [(full_disk, ConsumePreauthKey (PreAuthKeyId 7))] key_world)
       = [Inl (Io (OtherIo ''no space left''))]
    \<and> reopen policy_codec w' = Some w' \<and> memory (store w') = policy_doc"
proof -
  let ?ops = "[(full_disk, ConsumePreauthKey (PreAuthKeyId 7))]"
  let ?w1 = "snd (run_ops (file_ops policy_codec) ?ops key_world)"
  have c: "serialize_doc policy_codec Json (key_doc True) = Inr [1]"
    "serialize_doc policy_codec Json policy_doc = Inr [2]"
    by (simp_all add: serialize_doc_def policy_codec_def table_codec_def doc_index_def)
  have ops: "run_ops memory_ops (map (apfst file_clock) (?ops @ [(calm, SetPolicy (NetworkId 1) ''{}'')])) (key_doc False)
      = ([Inr (Consumed True), Inr Done], policy_doc)"
    by (simp add: memory_ops_def consume_key_doc consumed_reply_def done_reply_def)
  have st: "store ?w1 = (store key_world)\<lparr>memory := key_doc True\<rparr>"
    using file_step_memory [of policy_codec full_disk "ConsumePreauthKey (PreAuthKeyId 7)" key_world]
    by (simp add: key_world_def memory_ops_def consume_key_doc Let_def)
  have "wf_fs (disk ?w1)" using durable.run_inv [OF policy_world_durable, of ?ops] by (simp add: durable_inv_def del: run_ops.simps)
  moreover have "perform memory_ops (file_clock calm) (SetPolicy (NetworkId 1) ''{}'') (memory (store ?w1)) = (Inr Done, policy_doc)"
    using st by (simp add: memory_ops_def done_reply_def)
  moreover have "serialize_doc policy_codec (format (store ?w1)) policy_doc = Inr [2]"
    using st c(2) by (simp add: key_world_def)
  ultimately have "\<exists>w'. perform (file_ops policy_codec) calm (SetPolicy (NetworkId 1) ''{}'') ?w1 = (Inr Done, w')"
    by (intro calm_call) auto
  then obtain w' where pf: "perform (file_ops policy_codec) calm (SetPolicy (NetworkId 1) ''{}'') ?w1 = (Inr Done, w')"
    by blast
  have "perform memory_ops (file_clock full_disk) (ConsumePreauthKey (PreAuthKeyId 7)) (key_doc False)
      = (Inr (Consumed True), key_doc True)"
    by (simp add: memory_ops_def consume_key_doc consumed_reply_def)
  then have "fst (run_ops (file_ops policy_codec) ?ops key_world) = [Inl (Io (OtherIo ''no space left''))]"
    using c(1)
    by (simp add: file_perform key_world_def Let_def
        set_memory_def file_flush_def memory_snapshot_def full_disk_def fs_write_def fs_create_def
        empty_fs_def del: perform.simps)
  with next_flush_saves_failed_calls [OF policy_world_durable pf] ops show ?thesis
    by (auto simp: key_world_def)
qed

subsection \<open>A row the serialiser refuses\<close>

fun rewrites_node :: "node_id \<Rightarrow> store_op \<Rightarrow> bool" where
  "rewrites_node i (UpsertNode x) = (nod_id x = i)"
| "rewrites_node i (DeleteNode j) = (j = i)"
| "rewrites_node i _ = False"

definition serialize_refused :: "store_error + 'a \<Rightarrow> bool" where
  "serialize_refused r \<longleftrightarrow> (\<exists>msg. r = Inl (Serde msg))"

lemma serialize_error_serde: "serialize_doc C f d = Inl e \<Longrightarrow> \<exists>msg. e = Serde msg"
  by (auto simp: serialize_doc_def map_err_def split: format.splits sum.splits)

text \<open>When the serialiser refuses the document after a call, the call fails and the disk stays.\<close>

lemma refused_call:
  assumes "perform memory_ops (file_clock e) op (memory (store w)) = (q, m)"
    and "\<not> is_ok (serialize_doc C (format (store w)) m)"
    and "perform (file_ops C) e op w = (r, w')"
  shows "disk w' = disk w" and "serialize_refused r \<or> r = Inr (Consumed False)"
    and "q \<noteq> Inr (Consumed False) \<Longrightarrow> serialize_refused r"
proof -
  obtain err where err: "serialize_doc C (format (store w)) m = Inl err"
    using assms(2) by (cases "serialize_doc C (format (store w)) m") auto
  then have "file_flush C e (set_memory m w) = (Inl err, set_memory m w)"
    by (simp add: file_flush_def memory_snapshot_def)
  with assms(1,3) serialize_error_serde [OF err]
  show "disk w' = disk w" and "serialize_refused r \<or> r = Inr (Consumed False)"
    and "q \<noteq> Inr (Consumed False) \<Longrightarrow> serialize_refused r"
    by (auto simp: file_perform Let_def serialize_refused_def simp del: perform.simps split: if_splits)
qed

lemma spec_step_node:
  "\<not> rewrites_node i op \<Longrightarrow> sp_nodes (spec_step c op sp) i = sp_nodes sp i"
  by (cases op) (auto split: option.split)

lemma node_row_stays:
  assumes "row nod_id (nodes m) (nod_id x) = Some x" and "\<not> rewrites_node (nod_id x) op"
    and "perform memory_ops c op m = (q, m')"
  shows "row nod_id (nodes m') (nod_id x) = Some x"
proof -
  have nodes: "row nod_id (nodes d) = sp_nodes (doc_abs d)" for d by (simp add: doc_abs_def)
  show ?thesis
    using mem_perform [OF assms(3)] assms(1) spec_step_node [OF assms(2)] by (simp add: nodes)
qed

lemma refused_run:
  assumes "\<forall>d. x \<in> set (nodes d) \<longrightarrow> \<not> is_ok (serialize_doc C (format (store w)) d)"
    and "row nod_id (nodes (memory (store w))) (nod_id x) = Some x" and "\<forall>(e, op) \<in> set ops. \<not> rewrites_node (nod_id x) op"
  shows "disk (snd (run_ops (file_ops C) ops w)) = disk w
    \<and> row nod_id (nodes (memory (store (snd (run_ops (file_ops C) ops w))))) (nod_id x) = Some x
    \<and> (\<forall>r \<in> set (fst (run_ops (file_ops C) ops w)). serialize_refused r \<or> r = Inr (Consumed False))"
  using assms
proof (induction ops arbitrary: w)
  case (Cons a ops)
  obtain e op where a: "a = (e, op)" by (cases a)
  obtain q m where q: "perform memory_ops (file_clock e) op (memory (store w)) = (q, m)"
    by (cases "perform memory_ops (file_clock e) op (memory (store w))")
  obtain r w1 where p: "perform (file_ops C) e op w = (r, w1)" by (cases "perform (file_ops C) e op w")
  have st: "store w1 = (store w)\<lparr>memory := m\<rparr>" using file_step_memory [of C e op w] p q by simp
  have x: "row nod_id (nodes m) (nod_id x) = Some x"
    using Cons.prems(2,3) a q by (intro node_row_stays [OF _ _ q]) auto
  have "\<not> is_ok (serialize_doc C (format (store w)) m)" using Cons.prems(1) row_Some_in [OF x] by simp
  note rc = refused_call [OF q this p]
  from Cons.IH [of w1] Cons.prems st x rc(1,2) a p show ?case
    by (auto simp: Let_def simp del: perform.simps)
qed simp

text \<open>
  C24. A row the serialiser of the store's format refuses (an id above the largest integer of TOML, say)
  blocks the store. The call that adds it fails, but the row is in memory from then on and reads
  show it; and as long as no call replaces or deletes it, no change is acknowledged any more: every
  call fails with a serialisation error, save refused redemptions. The disk stays as it was and a restart
  loads the state before all of them.
\<close>

theorem refused_row_blocks_every_change:
  assumes "\<forall>d. x \<in> set (nodes d) \<longrightarrow> \<not> is_ok (serialize_doc C (format (store w)) d)"
    and "durable_inv C w" and "\<forall>(e, op) \<in> set ops. \<not> rewrites_node (nod_id x) op"
    and "run_ops (file_ops C) ((e0, UpsertNode x) # ops) w = (r # rs, w')"
  shows "serialize_refused r \<and> (\<forall>q \<in> set rs. serialize_refused q \<or> q = Inr (Consumed False))
    \<and> file_get_node (nod_id x) w' = Inr (Some x)
    \<and> disk w' = disk w \<and> map_option store (reopen C w') = map_option store (reopen C w)"
proof -
  let ?m = "(memory (store w))\<lparr>nodes := upsert_by nod_id x (nodes (memory (store w)))\<rparr>"
  obtain w1 where p: "perform (file_ops C) e0 (UpsertNode x) w = (r, w1)"
    and rs: "run_ops (file_ops C) ops w1 = (rs, w')"
    using assms(4) by (cases "perform (file_ops C) e0 (UpsertNode x) w")
      (auto simp: Let_def prod_eq_iff simp del: perform.simps)
  have q: "perform memory_ops (file_clock e0) (UpsertNode x) (memory (store w)) = (Inr Done, ?m)"
    by (simp add: memory_ops_def mem_upsert_node_def done_reply_def)
  have x: "row nod_id (nodes ?m) (nod_id x) = Some x" by simp
  have "\<not> is_ok (serialize_doc C (format (store w)) ?m)" using assms(1) row_Some_in [OF x] by simp
  note rc = refused_call [OF q this p]
  have st: "store w1 = (store w)\<lparr>memory := ?m\<rparr>" using file_step_memory [of C e0 "UpsertNode x" w] p q
    by (simp del: perform.simps)
  from refused_run [of x C w1 ops] assms(1,3) st x rs
  have run: "disk w' = disk w1" "row nod_id (nodes (memory (store w'))) (nod_id x) = Some x"
    "\<forall>q \<in> set rs. serialize_refused q \<or> q = Inr (Consumed False)" by auto
  have inv: "durable_inv C w'"
    using durable.run_inv [OF assms(2), of "(e0, UpsertNode x) # ops"] assms(4) by (simp del: run_ops.simps)
  then have "file_get_node (nod_id x) w' = Inr (Some x)"
    using run(2) by (simp add: file_get_node_def mem_get_node_def row_def)
  moreover have "path (store w') = path (store w) \<and> format (store w') = format (store w)"
    using file_run_memory [of C "(e0, UpsertNode x) # ops" w] assms(4) by (simp del: run_ops.simps)
  then have "map_option store (reopen C w') = map_option store (reopen C w)"
    using inv assms(2) run(1) rc(1)
    by (auto simp: reopen_eq durable_inv_def set_memory_def split: option.split sum.split)
  ultimately show ?thesis using rc run by simp
qed

text \<open>A serialiser that knows no document with a node, and a redemption after the refused node.\<close>

theorem refused_row_blocks_every_change_witness:
  "serialize_refused
     (fst (perform (file_ops key_codec) calm (ConsumePreauthKey (PreAuthKeyId 7))
       (snd (perform (file_ops key_codec) calm (UpsertNode (sample_node 5 1)) key_world))))"
proof -
  let ?x = "sample_node 5 1" and ?use = "ConsumePreauthKey (PreAuthKeyId 7)"
  let ?ops = "[(calm, ?use)] :: (file_env \<times> store_op) list"
  let ?m = "(key_doc False)\<lparr>nodes := [?x]\<rparr>"
  have refused: "\<forall>d. ?x \<in> set (nodes d) \<longrightarrow> \<not> is_ok (serialize_doc key_codec (format (store key_world)) d)"
    by (auto simp: key_world_def serialize_doc_def key_codec_def table_codec_def doc_index_def key_doc_def memory_new_def)
  have keep: "\<forall>(e, op) \<in> set ?ops. \<not> rewrites_node (nod_id ?x) op" by simp
  obtain r q w' where run: "run_ops (file_ops key_codec) ((calm, UpsertNode ?x) # ?ops) key_world = ([r, q], w')"
    by (simp add: Let_def del: perform.simps)
  have q: "q = fst (perform (file_ops key_codec) calm ?use (snd (perform (file_ops key_codec) calm (UpsertNode ?x) key_world)))"
    using run by (auto simp: Let_def simp del: perform.simps)
  have "run_ops memory_ops (map (apfst file_clock) ((calm, UpsertNode ?x) # ?ops)) (key_doc False)
      = ([Inr Done, Inr (Consumed True)], (key_doc True)\<lparr>nodes := [?x]\<rparr>)"
    by (simp add: memory_ops_def consumed_reply_def done_reply_def mem_upsert_node_def mem_consume_preauth_key_def
        key_doc_def preauth_key_expired_def memory_new_def)
  then have "q \<noteq> Inr (Consumed False)"
    using file_run_memory [of key_codec "(calm, UpsertNode ?x) # ?ops" key_world] run
    by (auto simp: key_world_def)
  with refused_row_blocks_every_change [OF refused durable_key_world keep run] q show ?thesis by simp
qed

end
