(* ===== verification/Store_Fleet.thy ===== *)
theory Store_Fleet
  imports Store_Correctness
begin

text \<open>
  Several file stores on one file system. Nothing in \<^verbatim>\<open>file.rs\<close> locks a snapshot or makes the name of
  the temporary file unique, so what stores may do to each other depends on their paths alone. A
  fleet is a family of stores over a shared disk; each step is a step of one task of one store. When
  no two stores share a snapshot or a temporary file they do not disturb each other; two stores
  that differ only in the extension share the temporary file, and can put each other's
  documents into their snapshots.
\<close>


subsection \<open>The fleet\<close>

text \<open>A store and the calls made on it; the document is the one behind its lock.\<close>

type_synonym member = "file_store \<times> (nat \<rightharpoonup> task)"

record fleet =
  fleet_disk :: file_system
  members :: "nat \<rightharpoonup> member"

definition view :: "fleet \<Rightarrow> member \<Rightarrow> race" where
  "view fl a = \<lparr>race_memory = memory (fst a), race_disk = fleet_disk fl, tasks = snd a\<rparr>"

definition put :: "nat \<Rightarrow> file_store \<Rightarrow> race \<Rightarrow> fleet \<Rightarrow> fleet" where
  "put k st s fl =
     \<lparr>fleet_disk = race_disk s, members = (members fl)(k \<mapsto> (st\<lparr>memory := race_memory s\<rparr>, tasks s))\<rparr>"

inductive fleet_step :: "codec \<Rightarrow> fleet \<Rightarrow> fleet \<Rightarrow> bool" for C where
  member_step:
    "members fl k = Some (st, ts) \<Longrightarrow> race_step C (format st) (path st) (view fl (st, ts)) s \<Longrightarrow>
     fleet_step C fl (put k st s fl)"

abbreviation fleet_steps :: "codec \<Rightarrow> fleet \<Rightarrow> fleet \<Rightarrow> bool" where
  "fleet_steps C \<equiv> (fleet_step C)\<^sup>*\<^sup>*"

text \<open>Stores \<open>sts\<close> on the disk \<open>d\<close>, each with its calls still waiting.\<close>

definition fleet_start ::
  "file_system \<Rightarrow> (nat \<rightharpoonup> file_store) \<Rightarrow> (nat \<Rightarrow> nat \<rightharpoonup> chrono_env \<times> store_op) \<Rightarrow> fleet" where
  "fleet_start d sts calls =
     \<lparr>fleet_disk = d,
      members = (\<lambda>k. map_option (\<lambda>st. (st, tasks (race_start (memory st) d (calls k)))) (sts k))\<rparr>"

lemma view_simps [simp]:
  "race_memory (view fl (st, ts)) = memory st" "race_disk (view fl (st, ts)) = fleet_disk fl"
  "tasks (view fl (st, ts)) = ts"
  by (simp_all add: view_def)

lemma put_simps [simp]:
  "fleet_disk (put k st s fl) = race_disk s"
  "members (put k st s fl) = (members fl)(k \<mapsto> (st\<lparr>memory := race_memory s\<rparr>, tasks s))"
  by (simp_all add: put_def)

lemma view_put [simp]: "view (put k st s fl) (st\<lparr>memory := race_memory s\<rparr>, tasks s) = s"
  by (simp add: view_def)

text \<open>A run of one store is a run of the fleet.\<close>

lemma member_run:
  assumes "race_steps C (format st) (path st) s s'" and "members fl k = Some (st1, ts)"
    and "view fl (st1, ts) = s" and "format st1 = format st" and "path st1 = path st"
  shows "fleet_steps C fl (put k st1 s' fl)"
  using assms(1)
proof (induction rule: rtranclp_induct)
  case base
  have "st1\<lparr>memory := race_memory s\<rparr> = st1" "race_disk s = fleet_disk fl" "tasks s = ts"
    using assms(3) by (auto simp: view_def)
  then have "put k st1 s fl = fl" using assms(2) by (simp add: put_def fun_upd_idem)
  then show ?case by simp
next
  case (step s1 s2)
  let ?fl = "put k st1 s1 fl" and ?st = "st1\<lparr>memory := race_memory s1\<rparr>"
  have "fleet_step C ?fl (put k ?st s2 ?fl)"
    using step(2) assms(4,5) by (intro member_step) auto
  moreover have "put k ?st s2 ?fl = put k st1 s2 fl" by (simp add: put_def)
  ultimately show ?case using step(3) by (simp add: rtranclp.rtrancl_into_rtrancl)
qed

subsection \<open>What a step leaves alone\<close>

text \<open>Two disks agree on a path: it names the same inode, if any, with the same content.\<close>

definition agree_on :: "path \<Rightarrow> file_system \<Rightarrow> file_system \<Rightarrow> bool" where
  "agree_on q d d' \<longleftrightarrow>
     names d' q = names d q \<and> (\<forall>i. names d q = Some i \<longrightarrow> inodes d' i = inodes d i)"

lemma agree_on_refl [simp]: "agree_on q d d"
  by (simp add: agree_on_def)

lemma agree_on_content: "agree_on q d d' \<Longrightarrow> content d' q = content d q"
  by (cases "names d q") (auto simp: agree_on_def content_def)

lemma agree_onI: "names d' q = names d q \<Longrightarrow> content d' q = content d q \<Longrightarrow> agree_on q d d'"
  by (auto simp: agree_on_def content_def)

lemma race_ok_now: "race_ok p d s \<Longrightarrow> race_ok p (race_disk s) s"
  by (auto simp: race_ok_def)

lemma race_step_names:
  assumes "race_step C f p s s'" and "wf_fs (race_disk s)"
  shows "q \<noteq> p \<Longrightarrow> q \<noteq> tmp_path p \<Longrightarrow> names (race_disk s') q = names (race_disk s) q"
    and "next_inode (race_disk s) \<le> next_inode (race_disk s')"
    and "i < next_inode (race_disk s) \<Longrightarrow> names (race_disk s') q = Some i \<Longrightarrow>
           names (race_disk s) q = Some i \<or> q = p \<and> names (race_disk s) (tmp_path p) = Some i"
proof -
  have "(q \<noteq> p \<longrightarrow> q \<noteq> tmp_path p \<longrightarrow> names (race_disk s') q = names (race_disk s) q)
    \<and> next_inode (race_disk s) \<le> next_inode (race_disk s')
    \<and> (i < next_inode (race_disk s) \<longrightarrow> names (race_disk s') q = Some i \<longrightarrow>
         names (race_disk s) q = Some i \<or> q = p \<and> names (race_disk s) (tmp_path p) = Some i)"
    using assms
  proof cases
    case (create t c op r bs j d)
    from fs_create_props(4) [OF assms(2) create(3)] fs_create_keeps [OF create(3)] create(1)
    show ?thesis by auto
  next
    case (rename t c op r j off u d)
    have "q \<noteq> p \<Longrightarrow> q \<noteq> tmp_path p \<Longrightarrow> names d q = names (race_disk s) q"
      using rename(3) by (auto simp: fs_rename_def split: option.splits if_splits)
    with fs_rename_keeps [OF rename(3)] rename(1) show ?thesis by auto
  qed auto
  then show "q \<noteq> p \<Longrightarrow> q \<noteq> tmp_path p \<Longrightarrow> names (race_disk s') q = names (race_disk s) q"
    and "next_inode (race_disk s) \<le> next_inode (race_disk s')"
    and "i < next_inode (race_disk s) \<Longrightarrow> names (race_disk s') q = Some i \<Longrightarrow>
           names (race_disk s) q = Some i \<or> q = p \<and> names (race_disk s) (tmp_path p) = Some i"
    by blast+
qed

lemma race_step_agree:
  assumes "race_step C f p s s'" and "race_ok p d s" and "q \<noteq> p" and "q \<noteq> tmp_path p"
  shows "agree_on q (race_disk s) (race_disk s')"
proof (rule agree_onI)
  have "wf_fs (race_disk s)" using assms(2) by (simp add: race_ok_def)
  from race_step_names(1) [OF assms(1) this assms(3,4)]
  show "names (race_disk s') q = names (race_disk s) q" .
  have "race_ok p (race_disk s) s'" using assms(1) race_ok_now [OF assms(2)] by (rule race_ok_step)
  with assms(3,4) show "content (race_disk s') q = content (race_disk s) q" by (simp add: race_ok_def)
qed

text \<open>
  What a store relies on of the steps of others: they leave its two files and the inodes it has
  open alone.
\<close>

lemma calm_inv_elsewhere:
  assumes "calm_inv C f p m d0 calls l k s" and "wf_fs d"
    and "agree_on p (race_disk s) d" and "agree_on (tmp_path p) (race_disk s) d"
  shows "calm_inv C f p m d0 calls l k (s\<lparr>race_disk := d\<rparr>)"
proof -
  have "flush_ok C f p (race_memory s) d ph" if "flush_ok C f p (race_memory s) (race_disk s) ph" for ph
    using that assms(4) by (cases ph rule: phase_reply.cases) (auto simp: agree_on_def)
  moreover have "lin_inv m calls l (s\<lparr>race_disk := d\<rparr>)" "one_in_flight (s\<lparr>race_disk := d\<rparr>)"
    using assms(1) by (simp_all add: calm_inv_def lin_inv_def one_in_flight_def in_flight_def)
  moreover have "content d p = content (race_disk s) p" using assms(3) by (rule agree_on_content)
  ultimately show ?thesis
    using assms(1,2) by (auto simp: calm_inv_def saved_def)
qed

lemma race_ok_elsewhere:
  assumes ok: "race_ok p d0 s" and step: "race_step C f q u u'" and ru: "race_disk u = race_disk s"
    and sep: "q \<noteq> p" "tmp_path q \<noteq> tmp_path p" "q \<noteq> tmp_path p" "tmp_path q \<noteq> p"
    and uok: "race_ok q d1 u"
  shows "race_ok p (race_disk u') (s\<lparr>race_disk := race_disk u'\<rparr>)"
proof -
  have wf: "wf_fs (race_disk u)" using uok by (simp add: race_ok_def)
  note rn = race_step_names [OF step wf]
  have "race_ok q (race_disk u) u'" using step race_ok_now [OF uok] by (rule race_ok_step)
  then have "wf_fs (race_disk u')" by (simp add: race_ok_def)
  moreover have "task_typed p (race_disk u') op ph" if "task_typed p (race_disk s) op ph" for op ph
  proof (cases "\<exists>r i off bs. ph = Writing r i off bs")
    case True
    then obtain r i off bs where ph: "ph = Writing r i off bs" by blast
    have i: "i < next_inode (race_disk u)" and nm: "\<And>x. names (race_disk u) x = Some i \<Longrightarrow> x = p \<or> x = tmp_path p"
      using that ph ru by auto
    have "x = p \<or> x = tmp_path p" if "names (race_disk u') x = Some i" for x
      using rn(3) [OF i that] nm sep by blast
    with that ph i rn(2) show ?thesis by auto
  next
    case False
    with that show ?thesis by (cases "(p, race_disk s, op, ph)" rule: task_typed.cases) auto
  qed
  ultimately show ?thesis using ok by (auto simp: race_ok_def)
qed

subsection \<open>Stores on separate files\<close>

definition apart :: "(nat \<rightharpoonup> file_store) \<Rightarrow> bool" where
  "apart sts \<longleftrightarrow>
     (\<forall>j k a b. sts j = Some a \<longrightarrow> sts k = Some b \<longrightarrow> j \<noteq> k \<longrightarrow>
        path a \<noteq> path b \<and> tmp_path (path a) \<noteq> tmp_path (path b))"

definition snapshot_store :: "file_store \<Rightarrow> bool" where
  "snapshot_store a \<longleftrightarrow> format_from_path (path a) \<noteq> None \<and> wf_doc (memory a)"

text \<open>No store has two of its calls in flight; the stores among themselves run in parallel.\<close>

definition members_calm :: "fleet \<Rightarrow> bool" where
  "members_calm fl \<longleftrightarrow> (\<forall>k a. members fl k = Some a \<longrightarrow> one_in_flight (view fl a))"

abbreviation calm_fleet_steps :: "codec \<Rightarrow> fleet \<Rightarrow> fleet \<Rightarrow> bool" where
  "calm_fleet_steps C \<equiv> (\<lambda>fl fl'. fleet_step C fl fl' \<and> members_calm fl')\<^sup>*\<^sup>*"

definition member_ok ::
  "codec \<Rightarrow> file_system \<Rightarrow> (nat \<rightharpoonup> chrono_env \<times> store_op) \<Rightarrow> file_store \<Rightarrow> file_store \<Rightarrow> race \<Rightarrow> bool" where
  "member_ok C d calls st0 st s \<longleftrightarrow>
     path st = path st0 \<and> format st = format st0
     \<and> race_ok (path st) (race_disk s) s
     \<and> (\<exists>l n. calm_inv C (format st) (path st) (memory st0) d calls l n s)"

definition fleet_ok ::
  "codec \<Rightarrow> file_system \<Rightarrow> (nat \<rightharpoonup> file_store) \<Rightarrow> (nat \<Rightarrow> nat \<rightharpoonup> chrono_env \<times> store_op) \<Rightarrow> fleet \<Rightarrow> bool" where
  "fleet_ok C d sts calls fl \<longleftrightarrow>
     dom (members fl) = dom sts
     \<and> (\<forall>k st0 a. sts k = Some st0 \<longrightarrow> members fl k = Some a \<longrightarrow>
          member_ok C d (calls k) st0 (fst a) (view fl a))"

lemma fleet_ok_member:
  assumes "fleet_ok C d sts calls fl" and "sts k = Some st0"
  obtains st ts where "members fl k = Some (st, ts)" "member_ok C d (calls k) st0 st (view fl (st, ts))"
proof -
  have "k \<in> dom (members fl)" using assms unfolding fleet_ok_def by blast
  then obtain st ts where m: "members fl k = Some (st, ts)" by fastforce
  moreover have "member_ok C d (calls k) st0 (fst (st, ts)) (view fl (st, ts))"
    using assms m unfolding fleet_ok_def by blast
  ultimately show ?thesis using that by simp
qed

lemma fleet_ok_dom: "fleet_ok C d sts calls fl \<Longrightarrow> members fl k = Some a \<Longrightarrow> \<exists>st0. sts k = Some st0"
  unfolding fleet_ok_def by blast

lemma snapshot_not_tmp: "format_from_path p \<noteq> None \<Longrightarrow> tmp_path q \<noteq> p"
  using snapshot_extensions [of "''x''" q] by auto

lemma fleet_ok_start:
  assumes "wf_fs d" and "\<forall>k a. sts k = Some a \<longrightarrow> snapshot_store a"
  shows "fleet_ok C d sts calls (fleet_start d sts calls)"
proof -
  have "member_ok C d (calls k) st st (view (fleet_start d sts calls) (st, tasks (race_start (memory st) d (calls k))))"
    if "sts k = Some st" for k st
  proof -
    have v: "view (fleet_start d sts calls) (st, tasks (race_start (memory st) d (calls k)))
        = race_start (memory st) d (calls k)" by (simp add: view_def fleet_start_def race_start_def)
    have "race_ok (path st) d (race_start (memory st) d (calls k))"
      using assms that by (intro race_ok_start) (auto simp: snapshot_store_def)
    with calm_inv_start [OF assms(1), of C "format st" "path st" "memory st" "calls k"] show ?thesis
      unfolding member_ok_def v by (blast dest: race_ok_now)
  qed
  then show ?thesis by (auto simp: fleet_ok_def fleet_start_def)
qed

lemma fleet_ok_step:
  assumes step: "fleet_step C fl fl'" and calm: "members_calm fl'" and ok: "fleet_ok C d sts calls fl"
    and sts: "apart sts" "\<forall>k a. sts k = Some a \<longrightarrow> snapshot_store a"
  shows "fleet_ok C d sts calls fl'"
  using step
proof cases
  case (member_step k st ts s)
  obtain st0 where st0: "sts k = Some st0" and mk: "member_ok C d (calls k) st0 st (view fl (st, ts))"
    using fleet_ok_dom [OF ok member_step(2)] fleet_ok_member [OF ok] member_step(2)
    by (metis option.inject prod.inject)
  have p: "path st = path st0" "format st = format st0" and rok: "race_ok (path st) (fleet_disk fl) (view fl (st, ts))"
    using mk unfolding member_ok_def by auto
  have ne: "tmp_path (path st) \<noteq> path st" using st0 sts(2) p snapshot_not_tmp by (auto simp: snapshot_store_def)
  have rok': "race_ok (path st) (fleet_disk fl) s" using member_step(3) rok by (rule race_ok_step)
  then have wf': "wf_fs (race_disk s)" by (simp add: race_ok_def)
  have "members fl' k = Some (st\<lparr>memory := race_memory s\<rparr>, tasks s)"
    and "view fl' (st\<lparr>memory := race_memory s\<rparr>, tasks s) = s" using member_step(1) by simp_all
  then have "one_in_flight s" using calm unfolding members_calm_def by metis
  then have mover: "member_ok C d (calls k) st0 (st\<lparr>memory := race_memory s\<rparr>) s"
    using mk calm_step [OF member_step(3) _ ne] rok' p by (auto simp: member_ok_def dest: race_ok_now)
  have other: "member_ok C d (calls j) b0 (fst b) ((view fl b)\<lparr>race_disk := race_disk s\<rparr>)"
    if j: "j \<noteq> k" "sts j = Some b0" "member_ok C d (calls j) b0 (fst b) (view fl b)" for j b0 b
  proof -
    let ?q = "path (fst b)"
    have q: "?q = path b0" using j(3) by (simp add: member_ok_def)
    have sep: "path st \<noteq> ?q" "tmp_path (path st) \<noteq> tmp_path ?q" "path st \<noteq> tmp_path ?q" "tmp_path (path st) \<noteq> ?q"
      using sts j(1,2) st0 p q snapshot_not_tmp unfolding apart_def snapshot_store_def by metis+
    have ag: "agree_on ?q (fleet_disk fl) (race_disk s)" "agree_on (tmp_path ?q) (fleet_disk fl) (race_disk s)"
      using race_step_agree [OF member_step(3) rok] sep by auto
    have d: "race_disk (view fl b) = fleet_disk fl" by (cases b) simp
    have "race_ok ?q (race_disk s) ((view fl b)\<lparr>race_disk := race_disk s\<rparr>)"
      using j(3) sep rok by (intro race_ok_elsewhere [OF _ member_step(3)]) (auto simp: member_ok_def d)
    moreover obtain l n where "calm_inv C (format (fst b)) ?q (memory b0) d (calls j) l n (view fl b)"
      using j(3) by (auto simp: member_ok_def)
    from calm_inv_elsewhere [OF this wf'] ag
    have "calm_inv C (format (fst b)) ?q (memory b0) d (calls j) l n ((view fl b)\<lparr>race_disk := race_disk s\<rparr>)"
      by (simp add: d)
    ultimately show ?thesis using j(3) unfolding member_ok_def by auto
  qed
  have v: "view fl' b = (view fl b)\<lparr>race_disk := race_disk s\<rparr>" for b
    using member_step(1) by (simp add: view_def)
  have "member_ok C d (calls j) b0 (fst a) (view fl' a)"
    if j: "sts j = Some b0" "members fl' j = Some a" for j b0 a
  proof (cases "j = k")
    case True
    with mover st0 member_step(1) j show ?thesis by auto
  next
    case False
    with j member_step(1) have "members fl j = Some a" by simp
    with ok j(1) have "member_ok C d (calls j) b0 (fst a) (view fl a)" unfolding fleet_ok_def by blast
    from other [OF False j(1) this] v show ?thesis by simp
  qed
  moreover have "dom (members fl') = dom sts"
    using ok member_step(1,2) st0 unfolding fleet_ok_def by auto
  ultimately show ?thesis unfolding fleet_ok_def by blast
qed

lemma fleet_ok_steps:
  assumes "calm_fleet_steps C fl fl'" and "fleet_ok C d sts calls fl"
    and "apart sts" and "\<forall>k a. sts k = Some a \<longrightarrow> snapshot_store a"
  shows "fleet_ok C d sts calls fl'"
  using assms by (induction rule: rtranclp_induct) (auto intro: fleet_ok_step)

text \<open>
  C8. Stores that share neither a snapshot nor a temporary file do not disturb each other. When the
  calls of each store do not overlap among themselves, with the stores running fully in
  parallel, every store is durable as if it were alone: its snapshot holds what it held at the start or its own
  document after some first calls of its own, among them every call that has replied \<^verbatim>\<open>Ok\<close> to a change.
\<close>

theorem separate_stores_are_durable:
  assumes "wf_fs d" and "\<forall>k a. sts k = Some a \<longrightarrow> snapshot_store a" and "apart sts"
    and "calm_fleet_steps C (fleet_start d sts calls) fl" and "sts k = Some st"
  shows "\<exists>ts l n. members fl k = Some (st\<lparr>memory := after_calls (memory st) (calls k) l\<rparr>, ts)
    \<and> distinct l
    \<and> (n = 0 \<and> content (fleet_disk fl) (path st) = content d (path st)
       \<or> (\<exists>bs. serialize_doc C (format st) (after_calls (memory st) (calls k) (take n l)) = Inr bs
            \<and> content (fleet_disk fl) (path st) = Some bs))
    \<and> (\<forall>t c op r. ts t = Some (c, op, Returned (Inr r)) \<longrightarrow> r \<noteq> Consumed False \<longrightarrow> t \<in> set (take n l))"
proof -
  have "fleet_ok C d sts calls fl"
    using assms(4) fleet_ok_start [OF assms(1,2)] assms(3,2) by (rule fleet_ok_steps)
  then obtain st1 ts where m: "members fl k = Some (st1, ts)"
    and ok: "member_ok C d (calls k) st st1 (view fl (st1, ts))"
    using fleet_ok_member assms(5) by blast
  then obtain l n where inv: "calm_inv C (format st) (path st) (memory st) d (calls k) l n (view fl (st1, ts))"
    and eq: "path st1 = path st" "format st1 = format st" by (auto simp: member_ok_def)
  have "t \<in> set (take n l)" if "ts t = Some (c, op, Returned (Inr r))" "r \<noteq> Consumed False" for t c op r
    using that inv by (fastforce simp: calm_inv_def)
  moreover have "memory st1 = after_calls (memory st) (calls k) l"
    using inv by (simp add: calm_inv_def lin_inv_def after_calls_def)
  then have "st1 = st\<lparr>memory := after_calls (memory st) (calls k) l\<rparr>" using eq by simp
  ultimately show ?thesis
    using m inv by (intro exI [of _ ts] exI [of _ l] exI [of _ n])
      (auto simp: calm_inv_def lin_inv_def saved_def)
qed

subsection \<open>Stores that share the temporary file\<close>

lemma race_step_tasks_dom: "race_step C f p s s' \<Longrightarrow> dom (tasks s') = dom (tasks s)"
  by (induction rule: race_step.induct) (auto split: if_splits)

text \<open>With one call per store, no store ever has two in flight.\<close>

definition one_call_each :: "fleet \<Rightarrow> bool" where
  "one_call_each fl \<longleftrightarrow> (\<forall>k a. members fl k = Some a \<longrightarrow> dom (snd a) \<subseteq> {0})"

lemma one_call_each_step: "fleet_step C fl fl' \<Longrightarrow> one_call_each fl \<Longrightarrow> one_call_each fl'"
proof (induction rule: fleet_step.induct)
  case (member_step fl k st ts s)
  have "dom (tasks s) \<subseteq> {0}"
    using race_step_tasks_dom [OF member_step(2)] member_step(1,3) by (fastforce simp: one_call_each_def)
  with member_step(3) show ?case by (auto simp: one_call_each_def split: if_splits)
qed

lemma one_call_each_calm:
  assumes "one_call_each fl"
  shows "members_calm fl"
proof -
  have "t = 0" if "members fl k = Some a" "in_flight (view fl a) t" for k a t
  proof -
    have "t \<in> dom (snd a)" using that(2) by (cases a) (auto simp: in_flight_def)
    moreover have "dom (snd a) \<subseteq> {0}" using assms that(1) unfolding one_call_each_def by blast
    ultimately show ?thesis by blast
  qed
  then show ?thesis unfolding members_calm_def one_in_flight_def by blast
qed

lemma one_call_each_run:
  assumes "fleet_steps C fl fl'" and "one_call_each fl"
  shows "calm_fleet_steps C fl fl'"
proof -
  have "calm_fleet_steps C fl fl' \<and> one_call_each fl'"
    using assms(1)
  proof (induction rule: rtranclp_induct)
    case (step y z)
    then have "one_call_each z" using one_call_each_step by blast
    with step one_call_each_calm show ?case by (auto intro: rtranclp.rtrancl_into_rtrancl)
  qed (simp add: assms(2))
  then show ?thesis ..
qed

lemma run_to_rename:
  assumes "perform memory_ops c op m = (Inr r, m')" and "r \<noteq> Consumed False"
    and "serialize_doc C f m' = Inr bs" and "wf_fs d"
  shows "\<exists>i d'. race_steps C f p (race_start m d [0 \<mapsto> (c, op)])
      \<lparr>race_memory = m', race_disk = d', tasks = [0 \<mapsto> (c, op, Writing r i (length bs) [])]\<rparr>
    \<and> wf_fs d' \<and> names d' (tmp_path p) = Some i \<and> content d' (tmp_path p) = Some bs"
proof -
  let ?s0 = "race_start m d [0 \<mapsto> (c, op)]"
  let ?s1 = "goto 0 c op (Snapped r bs) (?s0\<lparr>race_memory := m'\<rparr>)"
  have r1: "race_steps C f p ?s0 ?s1"
    using assms(1-3) by (intro mutate_snapshot) (simp_all add: race_start_def del: perform.simps)
  have "tasks ?s1 0 = Some (c, op, Snapped r bs)" "wf_fs (race_disk ?s1)"
    using assms(4) by (simp_all add: race_start_def)
  from create_write [OF this, of C f p] obtain i d' where
    r2: "race_steps C f p ?s1 (goto 0 c op (Writing r i (length bs) []) (?s1\<lparr>race_disk := d'\<rparr>))"
    and d': "wf_fs d'" "names d' (tmp_path p) = Some i" "content d' (tmp_path p) = Some bs" by blast
  have "goto 0 c op (Writing r i (length bs) []) (?s1\<lparr>race_disk := d'\<rparr>)
      = \<lparr>race_memory = m', race_disk = d', tasks = [0 \<mapsto> (c, op, Writing r i (length bs) [])]\<rparr>"
    by (auto simp: goto_def race_start_def fun_eq_iff)
  then have "race_steps C f p ?s0
      \<lparr>race_memory = m', race_disk = d', tasks = [0 \<mapsto> (c, op, Writing r i (length bs) [])]\<rparr>"
    using rtranclp_trans [OF r1 r2] by simp
  with d' show ?thesis by blast
qed

text \<open>
  C26. Two stores whose paths differ only in the extension use the same temporary file, so they
  mix up even if each serves one call at a time. A call of the one can reply \<^verbatim>\<open>Ok\<close> while its snapshot file
  holds the document of the other, in the other's format: opening it again fails or
  yields the foreign document. The call of the other fails with \<^verbatim>\<open>NotFound\<close> on a disk with no fault.
\<close>

theorem shared_temporary_mixes_stores:
  assumes "wf_fs d" and "format_from_path (path a) = Some (format a)" and "format_from_path (path b) \<noteq> None"
    and "path a \<noteq> path b" and "tmp_path (path a) = tmp_path (path b)"
    and "perform memory_ops c op1 (memory a) = (Inr r1, m1)" and "r1 \<noteq> Consumed False"
    and "perform memory_ops c op2 (memory b) = (Inr r2, m2)" and "r2 \<noteq> Consumed False"
    and "serialize_doc C (format a) m1 = Inr b1" and "serialize_doc C (format b) m2 = Inr b2"
  shows "\<exists>fl ta tb. calm_fleet_steps C (fleet_start d [0 \<mapsto> a, 1 \<mapsto> b]
        (\<lambda>k. [0 \<mapsto> (c, if k = 0 then op1 else op2)])) fl
    \<and> members fl 0 = Some (a\<lparr>memory := m1\<rparr>, ta) \<and> ta 0 = Some (c, op1, Returned (Inr r1))
    \<and> members fl 1 = Some (b\<lparr>memory := m2\<rparr>, tb) \<and> tb 0 = Some (c, op2, Returned (Inl (Io NotFound)))
    \<and> content (fleet_disk fl) (path a) = Some b2
    \<and> file_open C None (fleet_disk fl) (path a)
        = and_then (deserialize_doc C (format a) b2) (\<lambda>x. Inr (a\<lparr>memory := x\<rparr>))"
proof -
  let ?tmp = "tmp_path (path a)"
  let ?fl0 = "fleet_start d [0 \<mapsto> a, 1 \<mapsto> b] (\<lambda>k. [0 \<mapsto> (c, if k = 0 then op1 else op2)])"
  obtain i d1 where ra: "race_steps C (format a) (path a) (race_start (memory a) d [0 \<mapsto> (c, op1)])
      \<lparr>race_memory = m1, race_disk = d1, tasks = [0 \<mapsto> (c, op1, Writing r1 i (length b1) [])]\<rparr>" (is "race_steps _ _ _ _ ?sa")
    and d1: "wf_fs d1" using run_to_rename [OF assms(6,7,10,1)] by blast
  let ?fl1 = "put 0 a ?sa ?fl0"
  have f1: "fleet_steps C ?fl0 ?fl1"
    by (rule member_run [OF ra]) (simp_all add: fleet_start_def view_def race_start_def)
  obtain j d2 where rb: "race_steps C (format b) (path b) (race_start (memory b) d1 [0 \<mapsto> (c, op2)])
      \<lparr>race_memory = m2, race_disk = d2, tasks = [0 \<mapsto> (c, op2, Writing r2 j (length b2) [])]\<rparr>" (is "race_steps _ _ _ _ ?sb")
    and d2: "wf_fs d2" "names d2 ?tmp = Some j" "content d2 ?tmp = Some b2"
    using run_to_rename [OF assms(8,9,11) d1, of "path b"] assms(5) by auto
  let ?fl2 = "put 1 b ?sb ?fl1"
  have f2: "fleet_steps C ?fl1 ?fl2"
    by (rule member_run [OF rb]) (simp_all add: fleet_start_def view_def race_start_def)
  obtain d3 where rn: "fs_rename None ?tmp (path a) d2 = (Inr (), d3)"
    using d2(2) by (auto simp: fs_rename_def)
  have ne: "?tmp \<noteq> path a" "?tmp \<noteq> path b"
    using assms(2,3) snapshot_not_tmp [of "path a"] snapshot_not_tmp [of "path b" "path a"] by auto
  note rp = fs_rename_props [OF d2(1) rn ne(1)]
  let ?va = "?sa\<lparr>race_disk := d2\<rparr>" and ?sa2 = "goto 0 c op1 (Returned (Inr r1)) (?sa\<lparr>race_disk := d3\<rparr>)"
  have "race_step C (format a) (path a) ?va
      (goto 0 c op1 (Returned (and_then (map_err Io (Inr ())) (\<lambda>_. Inr r1))) (?va\<lparr>race_disk := d3\<rparr>))"
    using rn by (intro race_step.rename [where i = i and off = "length b1"]) simp_all
  then have sa2: "race_steps C (format a) (path a) ?va ?sa2" by (intro one_step) simp
  let ?fl3 = "put 0 (a\<lparr>memory := m1\<rparr>) ?sa2 ?fl2"
  have f3: "fleet_steps C ?fl2 ?fl3"
    by (rule member_run [OF sa2]) (simp_all add: view_def)
  have gone: "names d3 ?tmp = None" using rp(3) by (simp add: content_def)
  let ?vb = "?sb\<lparr>race_disk := d3\<rparr>"
  let ?sb2 = "goto 0 c op2 (Returned (Inl (Io NotFound))) ?vb"
  have "race_step C (format b) (path b) ?vb
      (goto 0 c op2 (Returned (and_then (map_err Io (Inl NotFound :: io_error + unit)) (\<lambda>_. Inr r2)))
        (?vb\<lparr>race_disk := d3\<rparr>))"
    using gone assms(5) by (intro race_step.rename [where i = j and off = "length b2"]) (simp_all add: fs_rename_def)
  then have sb2: "race_steps C (format b) (path b) ?vb ?sb2" by (intro one_step) simp
  let ?fl4 = "put 1 (b\<lparr>memory := m2\<rparr>) ?sb2 ?fl3"
  have f4: "fleet_steps C ?fl3 ?fl4"
    by (rule member_run [OF sb2]) (simp_all add: view_def goto_def)
  have "one_call_each ?fl0" by (auto simp: one_call_each_def fleet_start_def race_start_def split: if_splits)
  then have "calm_fleet_steps C ?fl0 ?fl4" using f1 f2 f3 f4 by (intro one_call_each_run) auto
  moreover have c: "content d3 (path a) = Some b2" using rp(3) d2(3) by simp
  moreover have "file_open C None d3 (path a)
      = and_then (deserialize_doc C (format a) b2) (\<lambda>x. Inr (a\<lparr>memory := x\<rparr>))"
    by (simp add: open_some [OF assms(2) c] and_then_def split: sum.split)
  ultimately show ?thesis
    by (intro exI [of _ ?fl4] exI [of _ "tasks ?sa2"] exI [of _ "tasks ?sb2"]) simp
qed

text \<open>
  Two stores opened on one path, as by two processes, do not even need to overlap: each keeps its own
  document, so each redeems the same single-use key, one call after the other.
\<close>

lemma two_handles_redeem_twice:
  assumes "wf_fs d" and "format_from_path (path a) = Some (format a)"
    and "row pak_id (preauth_keys (memory a)) i = Some k" and "redeemable c k"
    and "serialize_doc C (format a) (snd (mem_consume_preauth_key c i (memory a))) = Inr bs"
  shows "\<exists>fl st0 st1 t0 t1. fleet_steps C (fleet_start d [0 \<mapsto> a, 1 \<mapsto> a] (\<lambda>k. [0 \<mapsto> (c, ConsumePreauthKey i)])) fl
    \<and> members fl 0 = Some (st0, t0) \<and> t0 0 = Some (c, ConsumePreauthKey i, Returned (Inr (Consumed True)))
    \<and> members fl 1 = Some (st1, t1) \<and> t1 0 = Some (c, ConsumePreauthKey i, Returned (Inr (Consumed True)))"
proof -
  let ?use = "ConsumePreauthKey i" and ?m1 = "snd (mem_consume_preauth_key c i (memory a))"
  let ?start = "fleet_start d [0 \<mapsto> a, 1 \<mapsto> a] (\<lambda>k. [0 \<mapsto> (c, ?use)])"
  have pf: "perform memory_ops c ?use (memory a) = (Inr (Consumed True), ?m1)" using assms(3,4) by (rule consume_performs)
  have ne: "tmp_path (path a) \<noteq> path a" using assms(2) by (rule tmp_path_other)
  have whole: "\<exists>s. race_steps C (format a) (path a) (race_start (memory a) d' [0 \<mapsto> (c, ?use)]) s
      \<and> tasks s 0 = Some (c, ?use, Returned (Inr (Consumed True))) \<and> wf_fs (race_disk s)" if "wf_fs d'" for d'
  proof -
    have "tasks (race_start (memory a) d' [0 \<mapsto> (c, ?use)]) 0 = Some (c, ?use, Waiting)" by (simp add: race_start_def)
    moreover have "perform memory_ops c ?use (race_memory (race_start (memory a) d' [0 \<mapsto> (c, ?use)])) = (Inr (Consumed True), ?m1)"
      "wf_fs (race_disk (race_start (memory a) d' [0 \<mapsto> (c, ?use)]))"
      using pf that by (simp_all add: race_start_def del: perform.simps)
    note undisturbed_call [OF calculation this(1) _ assms(5) this(2) ne]
    then show ?thesis by fastforce
  qed
  obtain s1 where s1: "race_steps C (format a) (path a) (race_start (memory a) d [0 \<mapsto> (c, ?use)]) s1"
    "tasks s1 0 = Some (c, ?use, Returned (Inr (Consumed True)))" "wf_fs (race_disk s1)" using whole [OF assms(1)] by blast
  obtain s2 where s2: "race_steps C (format a) (path a) (race_start (memory a) (race_disk s1) [0 \<mapsto> (c, ?use)]) s2"
    "tasks s2 0 = Some (c, ?use, Returned (Inr (Consumed True)))" using whole [OF s1(3)] by blast
  have "fleet_steps C ?start (put 0 a s1 ?start)"
    by (rule member_run [OF s1(1)]) (simp_all add: fleet_start_def view_def race_start_def)
  moreover have "fleet_steps C (put 0 a s1 ?start) (put 1 a s2 (put 0 a s1 ?start))"
    by (rule member_run [OF s2(1)]) (simp_all add: fleet_start_def view_def race_start_def)
  ultimately have "fleet_steps C ?start (put 1 a s2 (put 0 a s1 ?start))" by (rule rtranclp_trans)
  with s1(2) s2(2) show ?thesis
    by (intro exI [of _ "put 1 a s2 (put 0 a s1 ?start)"]) simp
qed


subsection \<open>Two stores in one directory\<close>

definition toml_path :: path where
  "toml_path = [RootDir, Normal ''db'', Normal ''store.toml'']"

definition other_path :: path where
  "other_path = [RootDir, Normal ''db'', Normal ''other.json'']"

lemma toml_path_format [simp]: "format_from_path toml_path = Some Toml"
proof -
  have "str_bytes ''toml'' = [0x74, 0x6F, 0x6D, 0x6C]" by (simp add: str_bytes_def)
  then have "valid_utf8 (str_bytes ''toml'')" by (simp add: valid_utf8_ascii)
  then show ?thesis
    by (simp add: format_from_path_def toml_path_def path_extension_def file_name_def
        os_extension_def from_utf8_def)
qed

lemma sample_tmp_paths:
  "tmp_path json_path = [RootDir, Normal ''db'', Normal ''store.tmp'']"
  "tmp_path toml_path = [RootDir, Normal ''db'', Normal ''store.tmp'']"
  "tmp_path other_path = [RootDir, Normal ''db'', Normal ''other.tmp'']"
  by (simp_all add: tmp_path_def with_extension_def json_path_def toml_path_def other_path_def
      file_name_def os_stem_def)

text \<open>
  A store of keys in JSON and a store of networks in TOML: a serialiser that knows their documents
  and gives each format its own bytes, so that neither reads the other's.
\<close>

definition two_codec :: codec where
  "two_codec = (table_codec [key_doc False, key_doc True])
     \<lparr>toml_to_string_pretty := (\<lambda>d. if d = memory_new\<lparr>networks := [race_network]\<rparr> then Inr ''toml'' else Inl ''refused'')\<rparr>"

definition json_store :: file_store where
  "json_store = \<lparr>path = json_path, format = Json, memory = key_doc False\<rparr>"

definition toml_store :: file_store where
  "toml_store = \<lparr>path = toml_path, format = Toml, memory = memory_new\<rparr>"

definition other_store :: file_store where
  "other_store = \<lparr>path = other_path, format = Json, memory = key_doc False\<rparr>"

theorem shared_temporary_mixes_stores_witness:
  "\<exists>fl ta msg. calm_fleet_steps two_codec (fleet_start empty_fs [0 \<mapsto> json_store, 1 \<mapsto> toml_store]
        (\<lambda>k. [0 \<mapsto> (noon, if k = 0 then ConsumePreauthKey (PreAuthKeyId 7) else UpsertNetwork race_network)])) fl
    \<and> members fl 0 = Some (json_store\<lparr>memory := key_doc True\<rparr>, ta)
    \<and> ta 0 = Some (noon, ConsumePreauthKey (PreAuthKeyId 7), Returned (Inr (Consumed True)))
    \<and> file_open two_codec None (fleet_disk fl) json_path = Inl (Serde msg)"
proof -
  have f: "format_from_path (path json_store) = Some (format json_store)" "format_from_path (path toml_store) \<noteq> None"
    and p: "path json_store \<noteq> path toml_store" "tmp_path (path json_store) = tmp_path (path toml_store)"
    by (simp_all add: json_store_def toml_store_def sample_tmp_paths) (simp add: json_path_def toml_path_def)
  have a: "perform memory_ops noon (ConsumePreauthKey (PreAuthKeyId 7)) (memory json_store) = (Inr (Consumed True), key_doc True)"
    by (simp add: memory_ops_def consumed_reply_def consume_key_doc json_store_def)
  have b: "perform memory_ops noon (UpsertNetwork race_network) (memory toml_store)
      = (Inr Done, memory_new\<lparr>networks := [race_network]\<rparr>)"
    by (simp add: memory_ops_def mem_upsert_network_def done_reply_def toml_store_def memory_new_def)
  have s1: "serialize_doc two_codec (format json_store) (key_doc True) = Inr [1]"
    by (simp add: serialize_doc_def two_codec_def json_store_def table_codec_def doc_index_def)
  have s2: "serialize_doc two_codec (format toml_store) (memory_new\<lparr>networks := [race_network]\<rparr>) = Inr [0x74, 0x6F, 0x6D, 0x6C]"
    by (simp add: serialize_doc_def two_codec_def toml_store_def and_then_def str_bytes_def)
  have "deserialize_doc two_codec (format json_store) [0x74, 0x6F, 0x6D, 0x6C] = Inl (Serde ''not one byte'')"
    by (simp add: deserialize_doc_def two_codec_def json_store_def table_codec_def doc_at_def)
  with shared_temporary_mixes_stores [OF wf_empty_fs f p a _ b _ s1 s2] show ?thesis
    by (fastforce simp: json_store_def and_then_def)
qed

theorem separate_stores_are_durable_witness:
  "\<exists>fl st ts l n bs. calm_fleet_steps key_codec (fleet_start empty_fs [0 \<mapsto> json_store, 1 \<mapsto> other_store]
        (\<lambda>k. [0 \<mapsto> (noon, ConsumePreauthKey (PreAuthKeyId 7))])) fl
    \<and> members fl 0 = Some (st, ts) \<and> 0 \<in> set (take n l)
    \<and> serialize_doc key_codec Json (after_calls (key_doc False) [0 \<mapsto> (noon, ConsumePreauthKey (PreAuthKeyId 7))] (take n l)) = Inr bs
    \<and> content (fleet_disk fl) json_path = Some bs"
proof -
  let ?use = "ConsumePreauthKey (PreAuthKeyId 7)"
  let ?sts = "[0 \<mapsto> json_store, 1 \<mapsto> other_store] :: nat \<rightharpoonup> file_store"
  let ?calls = "\<lambda>k :: nat. [0 \<mapsto> (noon, ?use)] :: nat \<rightharpoonup> chrono_env \<times> store_op"
  let ?start = "fleet_start empty_fs ?sts ?calls"
  have "format_from_path other_path = Some Json"
    using json_path_format by (simp add: format_from_path_def json_path_def other_path_def path_extension_def
        file_name_def os_extension_def)
  then have ok: "\<forall>k a. ?sts k = Some a \<longrightarrow> snapshot_store a"
    by (auto simp: snapshot_store_def json_store_def other_store_def split: if_splits)
  have ap: "apart ?sts"
    by (auto simp: apart_def json_store_def other_store_def sample_tmp_paths split: if_splits)
      (simp_all add: json_path_def other_path_def)
  obtain s where run: "race_steps key_codec Json json_path (race_start (key_doc False) empty_fs [0 \<mapsto> (noon, ?use)]) s"
    and s0: "tasks s 0 = Some (noon, ?use, Returned (Inr (Consumed True)))" using key_lone_run by blast
  let ?fl = "put 0 json_store s ?start"
  have run': "race_steps key_codec (format json_store) (path json_store)
      (race_start (key_doc False) empty_fs [0 \<mapsto> (noon, ?use)]) s" using run by (simp add: json_store_def)
  have "fleet_steps key_codec ?start ?fl"
    by (rule member_run [OF run']) (simp_all add: json_store_def fleet_start_def view_def race_start_def)
  moreover have "one_call_each ?start" by (auto simp: one_call_each_def fleet_start_def race_start_def split: if_splits)
  ultimately have calm: "calm_fleet_steps key_codec ?start ?fl" by (rule one_call_each_run)
  have st: "?sts 0 = Some json_store" by simp
  obtain ts l n where m: "members ?fl 0 = Some (json_store\<lparr>memory := after_calls (memory json_store) (?calls 0) l\<rparr>, ts)"
    and c: "n = 0 \<and> content (fleet_disk ?fl) (path json_store) = content empty_fs (path json_store)
       \<or> (\<exists>bs. serialize_doc key_codec (format json_store) (after_calls (memory json_store) (?calls 0) (take n l)) = Inr bs
            \<and> content (fleet_disk ?fl) (path json_store) = Some bs)"
    and ack: "\<forall>t c op r. ts t = Some (c, op, Returned (Inr r)) \<longrightarrow> r \<noteq> Consumed False \<longrightarrow> t \<in> set (take n l)"
    using separate_stores_are_durable [OF wf_empty_fs ok ap calm st] by blast
  have "ts = tasks s" using m by simp
  then have in0: "0 \<in> set (take n l)" using ack s0 by blast
  have "n \<noteq> 0"
  proof
    assume "n = 0"
    with in0 show False by simp
  qed
  with c have "\<exists>bs. serialize_doc key_codec Json (after_calls (key_doc False) (?calls 0) (take n l)) = Inr bs
      \<and> content (fleet_disk ?fl) json_path = Some bs" by (simp add: json_store_def)
  with calm m in0 show ?thesis by blast
qed

end
