(* ===== verification/Power_Loss.thy ===== *)
theory Power_Loss
  imports Store_Correctness
begin

text \<open>
  The flush of a \<^verbatim>\<open>FileStore\<close> on a host that loses power. \<^verbatim>\<open>flush\<close> writes and renames but never calls
  \<^verbatim>\<open>fsync\<close>, so what is on the medium lags behind what the process sees: the host writes file data and
  directory names back when it likes. On a host that may write the names before the data, an
  acknowledged snapshot can come back empty; on one that writes the data a name refers to before the
  name, as a journal with ordered data does, the snapshot after a loss of power is always a complete
  document, the one of the last write-back of the names.
\<close>


subsection \<open>The medium behind the file system\<close>

text \<open>
  The running tasks with the file system they see; the names and the data on the medium, \<open>None\<close>
  for an inode never written back. \<open>committed\<close> records, for the statements only, the state at the last
  write-back of the names.
\<close>

record host =
  running :: race
  media_names :: "path \<rightharpoonup> nat"
  media_data :: "nat \<rightharpoonup> bytes"
  committed :: race

inductive host_step :: "bool \<Rightarrow> codec \<Rightarrow> format \<Rightarrow> path \<Rightarrow> host \<Rightarrow> host \<Rightarrow> bool" for ordered C f p where
  runs:
    "race_step C f p (running h) s \<Longrightarrow> host_step ordered C f p h (h\<lparr>running := s\<rparr>)"
| write_back:
    "i < next_inode (race_disk (running h)) \<Longrightarrow>
     host_step ordered C f p h
       (h\<lparr>media_data := (media_data h)(i \<mapsto> inodes (race_disk (running h)) i)\<rparr>)"
| commit:
    "(ordered \<Longrightarrow> \<forall>q i. names (race_disk (running h)) q = Some i \<longrightarrow>
        media_data h i = Some (inodes (race_disk (running h)) i)) \<Longrightarrow>
     host_step ordered C f p h
       (h\<lparr>media_names := names (race_disk (running h)), committed := running h\<rparr>)"

definition host_start :: "race \<Rightarrow> host" where
  "host_start s =
     \<lparr>running = s, media_names = names (race_disk s),
      media_data = (\<lambda>i. if i < next_inode (race_disk s) then Some (inodes (race_disk s) i) else None),
      committed = s\<rparr>"

text \<open>What the file system holds when the host comes up again.\<close>

definition power_loss :: "host \<Rightarrow> file_system" where
  "power_loss h =
     \<lparr>names = media_names h,
      inodes = (\<lambda>i. case media_data h i of None \<Rightarrow> [] | Some bs \<Rightarrow> bs),
      next_inode = next_inode (race_disk (running h))\<rparr>"

abbreviation host_steps :: "bool \<Rightarrow> codec \<Rightarrow> format \<Rightarrow> path \<Rightarrow> host \<Rightarrow> host \<Rightarrow> bool" where
  "host_steps ordered C f p \<equiv> (host_step ordered C f p)\<^sup>*\<^sup>*"

abbreviation calm_host_steps :: "bool \<Rightarrow> codec \<Rightarrow> format \<Rightarrow> path \<Rightarrow> host \<Rightarrow> host \<Rightarrow> bool" where
  "calm_host_steps ordered C f p \<equiv>
     (\<lambda>h h'. host_step ordered C f p h h' \<and> one_in_flight (running h'))\<^sup>*\<^sup>*"

lemma host_run:
  assumes "calm_steps C f p s s'" and "running h = s"
  shows "calm_host_steps ordered C f p h (h\<lparr>running := s'\<rparr>)"
  using assms(1)
proof (induction rule: rtranclp_induct)
  case base
  have "h\<lparr>running := s\<rparr> = h" using assms(2) by (cases h) simp
  then show ?case by simp
next
  case (step s1 s2)
  have "host_step ordered C f p (h\<lparr>running := s1\<rparr>) ((h\<lparr>running := s1\<rparr>)\<lparr>running := s2\<rparr>)"
    using step(2) by (intro runs) simp
  with step show ?case by (simp add: rtranclp.rtrancl_into_rtrancl)
qed


lemma calm_host_more:
  assumes "calm_host_steps ordered C f p h h1" and "host_step ordered C f p h1 h2"
    and "one_in_flight (running h2)"
  shows "calm_host_steps ordered C f p h h2"
  using assms by (auto intro: rtranclp.rtrancl_into_rtrancl)


subsection \<open>Data that follow their name\<close>

text \<open>
  The inode the snapshot has on the medium is frozen: no later flush writes to it, because each
  flush writes to the temporary file, which has another inode.
\<close>

lemma frozen_step:
  assumes "race_step C f p s s'" and "calm_inv C f p m d calls l k s"
    and "i < next_inode (race_disk s)" and "names (race_disk s) (tmp_path p) \<noteq> Some i"
    and "tmp_path p \<noteq> p"
  shows "inodes (race_disk s') i = inodes (race_disk s) i \<and> i < next_inode (race_disk s')
    \<and> names (race_disk s') (tmp_path p) \<noteq> Some i"
  using assms(1)
proof cases
  case (create t c op r bs j d1)
  with assms(3,4) show ?thesis by (auto simp: fs_create_def split: option.splits)
next
  case (write_some t c op r j off bs n)
  have "names (race_disk s) (tmp_path p) = Some j"
    using assms(2) write_some(2) by (fastforce simp: calm_inv_def)
  with write_some(1) assms(3,4) show ?thesis by (auto simp: fs_write_at_def)
next
  case (rename t c op r j off u d1)
  with assms(3-5) show ?thesis by (auto simp: fs_rename_def split: option.splits)
qed (use assms(3,4) in auto)

definition media_ok :: "codec \<Rightarrow> format \<Rightarrow> path \<Rightarrow> race \<Rightarrow> host \<Rightarrow> bool" where
  "media_ok C f p s0 h \<longleftrightarrow>
     calm_steps C f p s0 (committed h) \<and> calm_steps C f p (committed h) (running h)
     \<and> media_names h p = names (race_disk (committed h)) p
     \<and> (\<forall>i. media_names h p = Some i \<longrightarrow>
          media_data h i = Some (inodes (race_disk (committed h)) i)
          \<and> inodes (race_disk (running h)) i = inodes (race_disk (committed h)) i
          \<and> i < next_inode (race_disk (running h))
          \<and> names (race_disk (running h)) (tmp_path p) \<noteq> Some i)"

lemma media_ok_content:
  "media_ok C f p s0 h \<Longrightarrow> content (power_loss h) p = content (race_disk (committed h)) p"
  by (cases "names (race_disk (committed h)) p") (auto simp: media_ok_def content_def power_loss_def)

lemma media_ok_start:
  assumes "wf_fs d" and "tmp_path p \<noteq> p"
  shows "media_ok C f p (race_start m d calls) (host_start (race_start m d calls))"
proof -
  have "i < next_inode d \<and> names d (tmp_path p) \<noteq> Some i" if "names d p = Some i" for i
    using wf_fsD [OF assms(1)] that assms(2) by blast
  then show ?thesis by (simp add: media_ok_def host_start_def race_start_def)
qed

lemma media_ok_step:
  assumes step: "host_step True C f p h h'" and calm: "one_in_flight (running h')"
    and ok: "media_ok C f p (race_start m d calls) h" and wf: "wf_fs d" and ne: "tmp_path p \<noteq> p"
  shows "media_ok C f p (race_start m d calls) h'"
proof -
  have "calm_steps C f p (race_start m d calls) (running h)"
    using ok by (auto simp: media_ok_def)
  then obtain l k where inv: "calm_inv C f p m d calls l k (running h)" using calm_run [OF _ wf ne] by blast
  from step show ?thesis
  proof cases
    case (runs s)
    have "calm_steps C f p (committed h) s"
      using ok runs calm by (auto simp: media_ok_def intro: rtranclp.rtrancl_into_rtrancl)
    with ok runs frozen_step [OF runs(2) inv _ _ ne] show ?thesis by (auto simp: media_ok_def)
  next
    case (write_back i)
    with ok show ?thesis by (auto simp: media_ok_def)
  next
    case commit
    have "wf_fs (race_disk (running h))" using inv by (simp add: calm_inv_def)
    with wf_fsD [OF this] ne
    have "i < next_inode (race_disk (running h)) \<and> names (race_disk (running h)) (tmp_path p) \<noteq> Some i"
      if "names (race_disk (running h)) p = Some i" for i using that by blast
    with commit ok show ?thesis by (auto simp: media_ok_def)
  qed
qed

lemma media_ok_steps:
  assumes "calm_host_steps True C f p (host_start (race_start m d calls)) h" and "wf_fs d" and "tmp_path p \<noteq> p"
  shows "media_ok C f p (race_start m d calls) h"
  using assms(1)
proof (induction rule: rtranclp_induct)
  case base
  show ?case using assms(2,3) by (rule media_ok_start)
next
  case (step h1 h2)
  then show ?case using media_ok_step assms(2,3) by blast
qed

text \<open>
  C9. On a host that writes back the data of a name before the name, and for calls that do not
  overlap, a loss of power at any moment leaves the snapshot of an earlier moment of the run, the
  last write-back of the names: what the file held at the start or the complete document after some first
  calls, among them every call that had replied \<^verbatim>\<open>Ok\<close> to a change by then. It is never torn, but it
  may lack calls acknowledged since.
\<close>

theorem ordered_host_keeps_whole_snapshots:
  assumes "wf_fs d" and "format_from_path p = Some f"
    and "calm_host_steps True C f p (host_start (race_start m d calls)) h"
  shows "calm_steps C f p (race_start m d calls) (committed h) \<and> calm_steps C f p (committed h) (running h)
    \<and> content (power_loss h) p = content (race_disk (committed h)) p
    \<and> (\<exists>l n. distinct l
        \<and> (n = 0 \<and> content (power_loss h) p = content d p
           \<or> (\<exists>bs. serialize_doc C f (after_calls m calls (take n l)) = Inr bs
                \<and> content (power_loss h) p = Some bs))
        \<and> (\<forall>t c op r. tasks (committed h) t = Some (c, op, Returned (Inr r)) \<longrightarrow> r \<noteq> Consumed False
             \<longrightarrow> t \<in> set (take n l)))"
proof -
  have ne: "tmp_path p \<noteq> p" using assms(2) by (rule tmp_path_other)
  have ok: "media_ok C f p (race_start m d calls) h" using assms(3,1) ne by (rule media_ok_steps)
  note c = media_ok_content [OF ok]
  have runs: "calm_steps C f p (race_start m d calls) (committed h)" "calm_steps C f p (committed h) (running h)"
    using ok by (simp_all add: media_ok_def)
  obtain l n where inv: "calm_inv C f p m d calls l n (committed h)" using calm_run [OF runs(1) assms(1) ne] by blast
  have "t \<in> set (take n l)" if "tasks (committed h) t = Some (c, op, Returned (Inr r))" "r \<noteq> Consumed False"
    for t c op r using that inv by (fastforce simp: calm_inv_def)
  moreover have "distinct l" using inv by (simp add: calm_inv_def lin_inv_def)
  moreover have "n = 0 \<and> content (power_loss h) p = content d p
      \<or> (\<exists>bs. serialize_doc C f (after_calls m calls (take n l)) = Inr bs \<and> content (power_loss h) p = Some bs)"
    using inv c by (auto simp: calm_inv_def saved_def)
  ultimately show ?thesis using runs c by blast
qed


subsection \<open>One flush, step by step\<close>

text \<open>
  The state a call that runs alone ends in, when there is no temporary file left over: the snapshot has a new
  inode with the document, and all other files are as before.
\<close>

definition flushed :: "path \<Rightarrow> bytes \<Rightarrow> file_system \<Rightarrow> file_system" where
  "flushed p bs d =
     \<lparr>names = (names d)(p \<mapsto> next_inode d), inodes = (inodes d)(next_inode d := bs), next_inode = Suc (next_inode d)\<rparr>"

lemma fresh_flush_run:
  assumes "wf_fs d" and "format_from_path p = Some f" and "names d (tmp_path p) = None"
    and "perform memory_ops c op m = (Inr r, m')" and "r \<noteq> Consumed False"
    and "serialize_doc C f m' = Inr bs"
  shows "calm_steps C f p (race_start m d [t \<mapsto> (c, op)])
    \<lparr>race_memory = m', race_disk = flushed p bs d, tasks = [t \<mapsto> (c, op, Returned (Inr r))]\<rparr>"
proof -
  let ?s0 = "race_start m d [t \<mapsto> (c, op)]" and ?tmp = "tmp_path p" and ?i = "next_inode d"
  have ne: "?tmp \<noteq> p" using assms(2) by (rule tmp_path_other)
  let ?s1 = "goto t c op (Snapped r bs) (?s0\<lparr>race_memory := m'\<rparr>)"
  have r1: "race_steps C f p ?s0 ?s1"
    using assms(4-6) by (intro mutate_snapshot) (simp_all add: race_start_def del: perform.simps)
  let ?d1 = "d\<lparr>names := (names d)(?tmp \<mapsto> ?i), inodes := (inodes d)(?i := []), next_inode := Suc ?i\<rparr>"
  let ?s2 = "goto t c op (Writing r ?i 0 bs) (?s1\<lparr>race_disk := ?d1\<rparr>)"
  have r2: "race_steps C f p ?s1 ?s2"
    using assms(3) by (intro one_step race_step.create) (simp_all add: race_start_def fs_create_def)
  let ?d2 = "fs_write_at ?i 0 bs ?d1"
  let ?s3 = "goto t c op (Writing r ?i (length bs) []) (?s2\<lparr>race_disk := ?d2\<rparr>)"
  have r3: "race_steps C f p ?s2 ?s3" using write_all [of ?s2 t c op r ?i bs C f p] by simp
  have d3: "?d2\<lparr>names := (names ?d2)(?tmp := None, p \<mapsto> ?i)\<rparr> = flushed p bs d"
    using assms(3) by (auto simp: flushed_def fs_write_at_def fun_eq_iff)
  then have rn: "fs_rename None ?tmp p ?d2 = (Inr (), flushed p bs d)" using ne by (simp add: fs_rename_def)
  let ?s4 = "goto t c op (Returned (Inr r)) (?s3\<lparr>race_disk := flushed p bs d\<rparr>)"
  have "race_step C f p ?s3
      (goto t c op (Returned (and_then (map_err Io (Inr ())) (\<lambda>_. Inr r))) (?s3\<lparr>race_disk := flushed p bs d\<rparr>))"
    using rn by (intro race_step.rename [where i = ?i and off = "length bs"]) simp_all
  then have r4: "race_steps C f p ?s3 ?s4" by (intro one_step) simp
  have "race_steps C f p ?s0 ?s4" using r1 r2 r3 r4 by (meson rtranclp_trans)
  then have "calm_steps C f p ?s0 ?s4" using assms(1) ne by (rule lone_run_is_calm)
  moreover have "?s4 = \<lparr>race_memory = m', race_disk = flushed p bs d, tasks = [t \<mapsto> (c, op, Returned (Inr r))]\<rparr>"
    by (auto simp: goto_def race_start_def fun_eq_iff)
  ultimately show ?thesis by simp
qed

lemma one_returned: "one_in_flight \<lparr>race_memory = m, race_disk = d, tasks = [t \<mapsto> (c, op, Returned q)]\<rparr>"
  by (auto simp: one_in_flight_def in_flight_def split: if_splits)


subsection \<open>Names that come first\<close>

text \<open>
  C27. Without that order the flush is not atomic under a loss of power, even for a single call. The
  rename can reach the medium before the data of the renamed file, because \<^verbatim>\<open>flush\<close> never calls
  \<^verbatim>\<open>fsync\<close>: the call replies \<^verbatim>\<open>Ok\<close>, and after the loss the snapshot file is empty, although a complete
  snapshot was on the medium before the call.
\<close>

theorem unsynced_flush_loses_the_snapshot:
  assumes "wf_fs d" and "format_from_path p = Some f" and "names d (tmp_path p) = None"
    and "perform memory_ops c op m = (Inr r, m')" and "r \<noteq> Consumed False"
    and "serialize_doc C f m' = Inr bs"
  shows "content (power_loss (host_start (race_start m d [t \<mapsto> (c, op)]))) p = content d p
    \<and> (\<exists>h. calm_host_steps False C f p (host_start (race_start m d [t \<mapsto> (c, op)])) h
        \<and> tasks (running h) t = Some (c, op, Returned (Inr r))
        \<and> content (race_disk (running h)) p = Some bs
        \<and> content (power_loss h) p = Some [])"
proof -
  let ?s = "\<lparr>race_memory = m', race_disk = flushed p bs d, tasks = [t \<mapsto> (c, op, Returned (Inr r))]\<rparr>"
  let ?start = "host_start (race_start m d [t \<mapsto> (c, op)])"
  let ?h1 = "?start\<lparr>running := ?s\<rparr>"
  let ?h2 = "?h1\<lparr>media_names := names (race_disk (running ?h1)), committed := running ?h1\<rparr>"
  have "calm_host_steps False C f p ?start ?h1"
    by (rule host_run [OF fresh_flush_run [OF assms]]) (simp add: host_start_def)
  moreover have "host_step False C f p ?h1 ?h2" by (rule commit) simp
  ultimately have "calm_host_steps False C f p ?start ?h2"
    using one_returned by (auto intro: rtranclp.rtrancl_into_rtrancl)
  moreover have "content (power_loss ?h2) p = Some []" "content (race_disk (running ?h2)) p = Some bs"
    by (simp_all add: content_def power_loss_def host_start_def race_start_def flushed_def)
  moreover have "content (power_loss ?start) p = content d p"
    using wf_fsD(1) [OF assms(1)] by (cases "names d p") (auto simp: content_def power_loss_def host_start_def race_start_def)
  ultimately show ?thesis by (intro conjI exI [of _ ?h2]) auto
qed

theorem unsynced_flush_loses_the_snapshot_witness:
  "\<exists>h. calm_host_steps False key_codec Json json_path
      (host_start (race_start (key_doc False) empty_fs [0 \<mapsto> (noon, ConsumePreauthKey (PreAuthKeyId 7))])) h
    \<and> tasks (running h) 0 = Some (noon, ConsumePreauthKey (PreAuthKeyId 7), Returned (Inr (Consumed True)))
    \<and> file_open key_codec None (power_loss h) json_path = Inl (Serde ''not one byte'')"
proof -
  have pf: "perform memory_ops noon (ConsumePreauthKey (PreAuthKeyId 7)) (key_doc False) = (Inr (Consumed True), key_doc True)"
    by (simp add: memory_ops_def consumed_reply_def consume_key_doc)
  have "names empty_fs (tmp_path json_path) = None" by (simp add: empty_fs_def)
  from unsynced_flush_loses_the_snapshot [OF wf_empty_fs json_path_format this pf _ key_doc_json, of 0]
  obtain h where h: "calm_host_steps False key_codec Json json_path
      (host_start (race_start (key_doc False) empty_fs [0 \<mapsto> (noon, ConsumePreauthKey (PreAuthKeyId 7))])) h"
    "tasks (running h) 0 = Some (noon, ConsumePreauthKey (PreAuthKeyId 7), Returned (Inr (Consumed True)))"
    and c: "content (power_loss h) json_path = Some []" by auto
  have "deserialize_doc key_codec Json [] = Inl (Serde ''not one byte'')"
    by (simp add: deserialize_doc_def key_codec_def table_codec_def doc_at_def)
  with open_some [OF json_path_format c] have "file_open key_codec None (power_loss h) json_path = Inl (Serde ''not one byte'')"
    by (simp add: and_then_def)
  with h show ?thesis by blast
qed

theorem ordered_host_keeps_whole_snapshots_witness:
  "\<exists>h bs l n. calm_host_steps True key_codec Json json_path
      (host_start (race_start (key_doc False) empty_fs [0 \<mapsto> (noon, ConsumePreauthKey (PreAuthKeyId 7))])) h
    \<and> 0 \<in> set (take n l)
    \<and> serialize_doc key_codec Json
        (after_calls (key_doc False) [0 \<mapsto> (noon, ConsumePreauthKey (PreAuthKeyId 7))] (take n l)) = Inr bs
    \<and> content (power_loss h) json_path = Some bs"
proof -
  let ?use = "ConsumePreauthKey (PreAuthKeyId 7)"
  let ?s = "\<lparr>race_memory = key_doc True, race_disk = flushed json_path [1] empty_fs,
      tasks = [0 \<mapsto> (noon, ?use, Returned (Inr (Consumed True)))]\<rparr>"
  let ?start = "host_start (race_start (key_doc False) empty_fs [0 \<mapsto> (noon, ?use)])"
  let ?h1 = "?start\<lparr>running := ?s\<rparr>"
  let ?h2 = "?h1\<lparr>media_data := (media_data ?h1)(0 \<mapsto> inodes (race_disk (running ?h1)) 0)\<rparr>"
  let ?h3 = "?h2\<lparr>media_names := names (race_disk (running ?h2)), committed := running ?h2\<rparr>"
  have pf: "perform memory_ops noon ?use (key_doc False) = (Inr (Consumed True), key_doc True)"
    by (simp add: memory_ops_def consumed_reply_def consume_key_doc)
  have run: "calm_steps key_codec Json json_path (race_start (key_doc False) empty_fs [0 \<mapsto> (noon, ?use)]) ?s"
    by (rule fresh_flush_run [OF wf_empty_fs json_path_format _ pf]) (simp_all add: empty_fs_def)
  have h1: "calm_host_steps True key_codec Json json_path ?start ?h1"
    by (rule host_run [OF run]) (simp add: host_start_def)
  have b: "host_step True key_codec Json json_path ?h1 ?h2" by (rule write_back) (simp add: flushed_def)
  have c: "host_step True key_codec Json json_path ?h2 ?h3"
    by (rule commit) (simp add: flushed_def empty_fs_def)
  have h2: "calm_host_steps True key_codec Json json_path ?start ?h2"
    by (rule calm_host_more [OF h1 b]) (simp add: one_returned)
  have h: "calm_host_steps True key_codec Json json_path ?start ?h3"
    by (rule calm_host_more [OF h2 c]) (simp add: one_returned)
  from ordered_host_keeps_whole_snapshots [OF wf_empty_fs json_path_format h]
  obtain l n where doc: "n = 0 \<and> content (power_loss ?h3) json_path = content empty_fs json_path
      \<or> (\<exists>bs. serialize_doc key_codec Json (after_calls (key_doc False) [0 \<mapsto> (noon, ?use)] (take n l)) = Inr bs
           \<and> content (power_loss ?h3) json_path = Some bs)"
    and ack: "\<forall>t c op r. tasks (committed ?h3) t = Some (c, op, Returned (Inr r)) \<longrightarrow> r \<noteq> Consumed False
        \<longrightarrow> t \<in> set (take n l)" by blast
  have "tasks (committed ?h3) 0 = Some (noon, ?use, Returned (Inr (Consumed True)))" by simp
  then have in0: "0 \<in> set (take n l)" using ack by blast
  have "n \<noteq> 0"
  proof
    assume "n = 0"
    with in0 show False by simp
  qed
  with doc in0 h show ?thesis by blast
qed

end
