(* ===== verification/Reload_Race.thy ===== *)
theory Reload_Race
  imports Store_Correctness
begin

text \<open>
  \<^verbatim>\<open>FileStore::load\<close> on a running store, in parallel with its calls. It takes no lock while it reads and
  parses the file, and then replaces the whole document. A call that ran in between is undone in
  memory: the next flush writes the old document back. As \<^verbatim>\<open>load\<close> is public and takes \<^verbatim>\<open>&self\<close>, a host may
  call it at any time.
\<close>


subsection \<open>Loads as tasks\<close>

datatype load_phase = LoadWaiting | Parsed store_document | LoadReturned "store_error + unit"

record live =
  live_race :: race
  loads :: "nat \<rightharpoonup> load_phase"

definition load_goto :: "nat \<Rightarrow> load_phase \<Rightarrow> live \<Rightarrow> live" where
  "load_goto n ph v = v\<lparr>loads := (loads v)(n \<mapsto> ph)\<rparr>"

inductive live_step :: "codec \<Rightarrow> format \<Rightarrow> path \<Rightarrow> live \<Rightarrow> live \<Rightarrow> bool" for C f p where
  call:
    "race_step C f p (live_race v) s \<Longrightarrow> live_step C f p v (v\<lparr>live_race := s\<rparr>)"
| missing:
    "loads v n = Some LoadWaiting \<Longrightarrow> fs_read None p (race_disk (live_race v)) = Inl NotFound \<Longrightarrow>
     live_step C f p v (load_goto n (LoadReturned (Inr ())) v)"
| read_fails:
    "loads v n = Some LoadWaiting \<Longrightarrow> fs_read (Some fault) p (race_disk (live_race v)) = Inl e \<Longrightarrow>
     live_step C f p v (load_goto n (LoadReturned (Inl (Io e))) v)"
| parse_fails:
    "loads v n = Some LoadWaiting \<Longrightarrow> fs_read None p (race_disk (live_race v)) = Inr bs \<Longrightarrow>
     deserialize_doc C f bs = Inl e \<Longrightarrow>
     live_step C f p v (load_goto n (LoadReturned (Inl e)) v)"
| parse:
    "loads v n = Some LoadWaiting \<Longrightarrow> fs_read None p (race_disk (live_race v)) = Inr bs \<Longrightarrow>
     deserialize_doc C f bs = Inr doc \<Longrightarrow>
     live_step C f p v (load_goto n (Parsed doc) v)"
| replace:
    "loads v n = Some (Parsed doc) \<Longrightarrow>
     live_step C f p v
       (load_goto n (LoadReturned (Inr ()))
          (v\<lparr>live_race := (live_race v)\<lparr>race_memory := memory_replace doc (race_memory (live_race v))\<rparr>\<rparr>))"

abbreviation live_steps :: "codec \<Rightarrow> format \<Rightarrow> path \<Rightarrow> live \<Rightarrow> live \<Rightarrow> bool" where
  "live_steps C f p \<equiv> (live_step C f p)\<^sup>*\<^sup>*"

lemma calls_live:
  assumes "race_steps C f p s s'" and "live_race v = s"
  shows "live_steps C f p v (v\<lparr>live_race := s'\<rparr>)"
  using assms(1)
proof (induction rule: rtranclp_induct)
  case base
  have "v\<lparr>live_race := s\<rparr> = v" using assms(2) by (cases v) simp
  then show ?case by simp
next
  case (step s1 s2)
  have "live_step C f p (v\<lparr>live_race := s1\<rparr>) ((v\<lparr>live_race := s1\<rparr>)\<lparr>live_race := s2\<rparr>)"
    using step(2) by (intro call) simp
  with step show ?case by (simp add: rtranclp.rtrancl_into_rtrancl)
qed

text \<open>A load that runs alone is the \<open>file_load\<close> of the sequential model.\<close>

lemma load_alone:
  assumes "loads v n = Some LoadWaiting"
    and "file_load C None (race_disk (live_race v)) \<lparr>path = p, format = f, memory = race_memory (live_race v)\<rparr> = (r, st)"
  shows "live_steps C f p v
    (load_goto n (LoadReturned r) (v\<lparr>live_race := (live_race v)\<lparr>race_memory := memory st\<rparr>\<rparr>))"
proof -
  have id: "v\<lparr>live_race := (live_race v)\<lparr>race_memory := race_memory (live_race v)\<rparr>\<rparr> = v" by (cases v) simp
  show ?thesis
  proof (cases "fs_read None p (race_disk (live_race v))")
    case (Inl e)
    then have e: "e = NotFound" by (auto simp: fs_read_def split: option.splits)
    with Inl assms(2) have "r = Inr ()" "memory st = race_memory (live_race v)" by (auto simp: file_load_def)
    with missing [OF assms(1)] Inl e id show ?thesis by auto
  next
    case (Inr bs)
    show ?thesis
    proof (cases "deserialize_doc C f bs")
      case (Inl e)
      with Inr assms(2) have "r = Inl e" "memory st = race_memory (live_race v)" by (auto simp: file_load_def)
      with parse_fails [OF assms(1) Inr Inl] id show ?thesis by auto
    next
      case doc: (Inr doc)
      with Inr assms(2) have r: "r = Inr ()" "memory st = memory_replace doc (race_memory (live_race v))"
        by (auto simp: file_load_def)
      have "live_step C f p v (load_goto n (Parsed doc) v)" by (rule parse [OF assms(1) Inr doc])
      moreover have "live_step C f p (load_goto n (Parsed doc) v)
          (load_goto n (LoadReturned (Inr ())) (v\<lparr>live_race := (live_race v)\<lparr>race_memory := memory st\<rparr>\<rparr>))"
        using replace [of "load_goto n (Parsed doc) v" n doc C f p] r by (simp add: load_goto_def)
      ultimately show ?thesis using r(1) by (meson converse_rtranclp_into_rtranclp rtranclp.rtrancl_refl)
    qed
  qed
qed


subsection \<open>A load that overlaps a redemption\<close>

text \<open>
  C25. A load that read the file before a redemption and replaces the document after it brings the
  key back: both callers that present the single-use key to the one process are told that they redeemed
  it, with every call replying \<^verbatim>\<open>Ok\<close> and no fault of the disk. The write lock makes the check and the mark of the
  key one step, but not the read and the replacement of the document.
\<close>

theorem reload_revives_redeemed_key:
  assumes "wf_fs d" and "format_from_path p = Some f" and "codec_ok C"
    and "row pak_id (preauth_keys m) i = Some k" and "\<not> reusable k" and "\<not> used k"
    and "\<not> preauth_key_expired c k"
    and "serialize_doc C f m = Inr b0" and "content d p = Some b0"
    and "serialize_doc C f (snd (mem_consume_preauth_key c i m)) = Inr b1"
  shows "\<exists>v. live_steps C f p
      \<lparr>live_race = race_start m d [0 \<mapsto> (c, ConsumePreauthKey i), 1 \<mapsto> (c, ConsumePreauthKey i)],
       loads = [0 \<mapsto> LoadWaiting]\<rparr> v
    \<and> tasks (live_race v) 0 = Some (c, ConsumePreauthKey i, Returned (Inr (Consumed True)))
    \<and> tasks (live_race v) 1 = Some (c, ConsumePreauthKey i, Returned (Inr (Consumed True)))
    \<and> loads v 0 = Some (LoadReturned (Inr ()))"
proof -
  let ?use = "ConsumePreauthKey i" and ?m1 = "snd (mem_consume_preauth_key c i m)"
  let ?s0 = "race_start m d [0 \<mapsto> (c, ?use), 1 \<mapsto> (c, ?use)]"
  let ?v0 = "\<lparr>live_race = ?s0, loads = [0 \<mapsto> LoadWaiting]\<rparr>"
  have red: "redeemable c k" using assms(5-7) by (simp add: redeemable_def key_live_iff)
  have pf: "perform memory_ops c ?use m = (Inr (Consumed True), ?m1)"
    using assms(4) red by (rule consume_performs)
  have ne: "tmp_path p \<noteq> p" using assms(2) by (rule tmp_path_other)
  let ?v1 = "load_goto 0 (Parsed m) ?v0"
  have r1: "live_step C f p ?v0 ?v1"
    using assms(9) deserialize_serialize [OF assms(3,8)]
    by (intro parse) (simp_all add: fs_read_def race_start_def)
  have t0: "tasks ?s0 0 = Some (c, ?use, Waiting)" by (simp add: race_start_def)
  have pf0: "perform memory_ops c ?use (race_memory ?s0) = (Inr (Consumed True), ?m1)" and wf0: "wf_fs (race_disk ?s0)"
    using pf assms(1) by (simp_all add: race_start_def del: perform.simps)
  obtain s2 where s2: "race_steps C f p ?s0 s2" "tasks s2 = (tasks ?s0)(0 \<mapsto> (c, ?use, Returned (Inr (Consumed True))))"
    "wf_fs (race_disk s2)"
    using undisturbed_call [OF t0 pf0 _ assms(10) wf0 ne] by blast
  let ?v2 = "?v1\<lparr>live_race := s2\<rparr>"
  have r2: "live_steps C f p ?v1 ?v2" by (rule calls_live [OF s2(1)]) (simp add: load_goto_def)
  let ?s3 = "s2\<lparr>race_memory := m\<rparr>"
  let ?v3 = "load_goto 0 (LoadReturned (Inr ())) (?v2\<lparr>live_race := ?s3\<rparr>)"
  have "live_step C f p ?v2 (load_goto 0 (LoadReturned (Inr ()))
      (?v2\<lparr>live_race := (live_race ?v2)\<lparr>race_memory := memory_replace m (race_memory (live_race ?v2))\<rparr>\<rparr>))"
    by (rule replace) (simp add: load_goto_def)
  then have r3: "live_step C f p ?v2 ?v3" by (simp add: memory_replace_def)
  have t3: "tasks ?s3 1 = Some (c, ?use, Waiting)" using s2(2) by (simp add: race_start_def)
  have pf3: "perform memory_ops c ?use (race_memory ?s3) = (Inr (Consumed True), ?m1)" and wf3: "wf_fs (race_disk ?s3)"
    using pf s2(3) by (simp_all del: perform.simps)
  obtain s4 where s4: "race_steps C f p ?s3 s4" "tasks s4 = (tasks ?s3)(1 \<mapsto> (c, ?use, Returned (Inr (Consumed True))))"
    using undisturbed_call [OF t3 pf3 _ assms(10) wf3 ne] by blast
  let ?v4 = "?v3\<lparr>live_race := s4\<rparr>"
  have r4: "live_steps C f p ?v3 ?v4" by (rule calls_live [OF s4(1)]) (simp add: load_goto_def)
  have "live_steps C f p ?v0 ?v4" using r1 r2 r3 r4 by (meson converse_rtranclp_into_rtranclp rtranclp_trans)
  moreover have "tasks (live_race ?v4) 0 = Some (c, ?use, Returned (Inr (Consumed True)))"
    "tasks (live_race ?v4) 1 = Some (c, ?use, Returned (Inr (Consumed True)))"
    "loads ?v4 0 = Some (LoadReturned (Inr ()))"
    using s4(2) s2(2) by (simp_all add: load_goto_def)
  ultimately show ?thesis by blast
qed

definition key_disk :: file_system where
  "key_disk = \<lparr>names = [json_path \<mapsto> 0], inodes = (\<lambda>_. [0]), next_inode = 1\<rparr>"

theorem reload_revives_redeemed_key_witness:
  "\<exists>v. live_steps key_codec Json json_path
      \<lparr>live_race = race_start (key_doc False) key_disk key_calls, loads = [0 \<mapsto> LoadWaiting]\<rparr> v
    \<and> tasks (live_race v) 0 = Some (noon, ConsumePreauthKey (PreAuthKeyId 7), Returned (Inr (Consumed True)))
    \<and> tasks (live_race v) 1 = Some (noon, ConsumePreauthKey (PreAuthKeyId 7), Returned (Inr (Consumed True)))"
proof -
  have "wf_fs key_disk" "content key_disk json_path = Some [0]"
    by (auto simp: key_disk_def wf_fs_def content_def split: if_splits)
  with reload_revives_redeemed_key [OF _ json_path_format key_codec_ok,
      of key_disk "key_doc False" "PreAuthKeyId 7" sample_key noon "[0]" "[1]"]
  show ?thesis
    by (fastforce simp: sample_key_used consume_key_doc preauth_key_expired_def key_calls_def)
qed

end
