(* ===== verification/Guarded_Calls.thy ===== *)
theory Guarded_Calls
  imports Store_Correctness
begin

text \<open>
  The calls of one \<^verbatim>\<open>FileStore\<close> down to the guards of the \<^verbatim>\<open>RwLock\<close> that \<^verbatim>\<open>memory.rs\<close> keeps its document
  behind. \<open>File_Race\<close> takes a change of the document, and the clone a flush makes of it, as one step;
  here they are several, between the request for a guard and its drop, and the reads of the trait run beside
  them. The lock itself is tokio's and is a parameter, of which only the documented contract is
  used. The theorem shows that the guards make the coarse steps of \<open>File_Race\<close> right; what they give to
  reads, and that nothing waits for ever, is in \<open>Guarded_Runs\<close>.
\<close>


subsection \<open>The reads of the trait\<close>

datatype query =
    ListNetworks
  | ListUsers network_id
  | ListNodes network_id
  | GetNode node_id
  | ListPreauthKeys network_id
  | GetPolicy network_id

datatype answer =
    Networks "network list"
  | Users "user list"
  | Nodes "node list"
  | NodeRow "node option"
  | PreauthKeys "preauth_key list"
  | Policy "string option"

fun ask :: "('env, 'st) store_ops \<Rightarrow> 'env \<Rightarrow> query \<Rightarrow> 'st \<Rightarrow> store_error + answer" where
  "ask S e ListNetworks st = and_then (list_networks S e st) (\<lambda>x. Inr (Networks x))"
| "ask S e (ListUsers n) st = and_then (list_users S e n st) (\<lambda>x. Inr (Users x))"
| "ask S e (ListNodes n) st = and_then (list_nodes S e n st) (\<lambda>x. Inr (Nodes x))"
| "ask S e (GetNode i) st = and_then (get_node S e i st) (\<lambda>x. Inr (NodeRow x))"
| "ask S e (ListPreauthKeys n) st = and_then (list_preauth_keys S e n st) (\<lambda>x. Inr (PreauthKeys x))"
| "ask S e (GetPolicy n) st = and_then (get_policy S e n st) (\<lambda>x. Inr (Policy x))"


subsection \<open>The lock\<close>

text \<open>
  Those who take the lock are the calls that change the store and the reads. The lock decides whom of the
  waiting to let in, seeing who holds a guard, who waits for which access, and since when.
\<close>

datatype party = Caller nat | Reader nat

datatype access = Shared | Exclusive

type_synonym holders = "party \<rightharpoonup> access"

type_synonym waiters = "party \<rightharpoonup> access \<times> nat"

type_synonym rw_lock = "holders \<Rightarrow> waiters \<Rightarrow> party \<Rightarrow> bool"

definition compatible :: "holders \<Rightarrow> access \<Rightarrow> bool" where
  "compatible H a \<longleftrightarrow> (\<forall>x b. H x = Some b \<longrightarrow> a = Shared \<and> b = Shared)"

text \<open>
  The documentation of \<^verbatim>\<open>tokio::sync::RwLock\<close>: any number of readers or one writer at a time; and the waiting
  are served in the order of their requests, so when nobody holds a guard somebody who
  waits gets one.
\<close>

definition lock_ok :: "rw_lock \<Rightarrow> bool" where
  "lock_ok grant \<longleftrightarrow>
     (\<forall>H W x. grant H W x \<longrightarrow> (\<exists>a n. W x = Some (a, n) \<and> compatible H a))
     \<and> (\<forall>W. W \<noteq> Map.empty \<longrightarrow> (\<exists>x. grant Map.empty W x))"

text \<open>A lock that serves strictly in the order of the requests.\<close>

definition fifo_lock :: rw_lock where
  "fifo_lock H W x \<longleftrightarrow>
     (\<exists>a n. W x = Some (a, n) \<and> compatible H a \<and> (\<forall>y b k. W y = Some (b, k) \<longrightarrow> n \<le> k))"

lemma fifo_lock_ok: "lock_ok fifo_lock"
proof -
  have "\<exists>x. fifo_lock Map.empty W x" if ne: "W \<noteq> Map.empty" for W
  proof -
    obtain y b k where y: "W y = Some (b, k)" using ne by fastforce
    let ?served = "\<lambda>n. \<exists>x a. W x = Some (a, n)"
    let ?n = "LEAST n. ?served n"
    have "?served ?n" by (rule LeastI [of ?served k]) (use y in blast)
    then obtain x a where "W x = Some (a, ?n)" by blast
    moreover have "?n \<le> j" if "W z = Some (c, j)" for z c j
      by (rule Least_le [of ?served]) (use that in blast)
    ultimately have "fifo_lock Map.empty W x" by (auto simp: fifo_lock_def compatible_def)
    then show ?thesis ..
  qed
  then show ?thesis by (auto simp: lock_ok_def fifo_lock_def)
qed


subsection \<open>Calls and reads between request and drop\<close>

text \<open>
  \<open>Outside ph\<close>: the call holds no guard and waits for none, and is in the phase \<open>ph\<close> of
  \<open>File_Race\<close>. A change asks for the write guard (\<open>QueuedWrite\<close>, with the time of the request), holds it
  (\<open>Holding\<close>), has read the document through it and knows its reply and the new document
  (\<open>Computed\<close>), and has stored that (\<open>Changed\<close>). A flush asks for the read guard, holds it, and
  drops it with a clone of the document, not yet serialised. The requests are the only points where a
  call awaits something, so they are where its caller may drop it (\<open>Dropped\<close>); no guard is held there.
\<close>

datatype stage =
    Outside phase
  | QueuedWrite nat
  | Holding
  | Computed "store_error + reply" store_document
  | Changed "store_error + reply"
  | QueuedRead reply nat
  | Reading reply
  | Cloned reply store_document
  | Dropped phase

datatype reading = Asked | QueuedQuery nat | Looking | Answered "store_error + answer" | Forgotten

record guarded =
  document :: memory_store
  guarded_disk :: file_system
  callers :: "nat \<rightharpoonup> chrono_env \<times> store_op \<times> stage"
  readers :: "nat \<rightharpoonup> chrono_env \<times> query \<times> reading"
  requests :: nat

fun stage_holds :: "stage \<Rightarrow> access option" where
  "stage_holds Holding = Some Exclusive"
| "stage_holds (Computed q m) = Some Exclusive"
| "stage_holds (Changed q) = Some Exclusive"
| "stage_holds (Reading r) = Some Shared"
| "stage_holds _ = None"

fun stage_wants :: "stage \<Rightarrow> (access \<times> nat) option" where
  "stage_wants (QueuedWrite n) = Some (Exclusive, n)"
| "stage_wants (QueuedRead r n) = Some (Shared, n)"
| "stage_wants _ = None"

fun reading_holds :: "reading \<Rightarrow> access option" where
  "reading_holds Looking = Some Shared"
| "reading_holds _ = None"

fun reading_wants :: "reading \<Rightarrow> (access \<times> nat) option" where
  "reading_wants (QueuedQuery n) = Some (Shared, n)"
| "reading_wants _ = None"

fun holds :: "guarded \<Rightarrow> holders" where
  "holds g (Caller t) = Option.bind (callers g t) (\<lambda>(c, op, s). stage_holds s)"
| "holds g (Reader n) = Option.bind (readers g n) (\<lambda>(c, q, s). reading_holds s)"

fun wants :: "guarded \<Rightarrow> waiters" where
  "wants g (Caller t) = Option.bind (callers g t) (\<lambda>(c, op, s). stage_wants s)"
| "wants g (Reader n) = Option.bind (readers g n) (\<lambda>(c, q, s). reading_wants s)"

definition stage_to :: "nat \<Rightarrow> chrono_env \<Rightarrow> store_op \<Rightarrow> stage \<Rightarrow> guarded \<Rightarrow> guarded" where
  "stage_to t c op st g = g\<lparr>callers := (callers g)(t \<mapsto> (c, op, st))\<rparr>"

definition reading_to :: "nat \<Rightarrow> chrono_env \<Rightarrow> query \<Rightarrow> reading \<Rightarrow> guarded \<Rightarrow> guarded" where
  "reading_to n c q st g = g\<lparr>readers := (readers g)(n \<mapsto> (c, q, st))\<rparr>"

definition requested :: "guarded \<Rightarrow> guarded" where
  "requested g = g\<lparr>requests := requests g + 1\<rparr>"

text \<open>The file operations of a flush run with no guard held and are the steps of \<open>File_Race\<close>.\<close>

fun on_disk :: "phase \<Rightarrow> bool" where
  "on_disk (Snapped r bs) \<longleftrightarrow> True"
| "on_disk (Writing r i off bs) \<longleftrightarrow> True"
| "on_disk _ \<longleftrightarrow> False"

definition alone :: "guarded \<Rightarrow> nat \<Rightarrow> task \<Rightarrow> race" where
  "alone g t x = \<lparr>race_memory = document g, race_disk = guarded_disk g, tasks = [t \<mapsto> x]\<rparr>"

inductive guarded_step :: "codec \<Rightarrow> format \<Rightarrow> path \<Rightarrow> rw_lock \<Rightarrow> guarded \<Rightarrow> guarded \<Rightarrow> bool" for C f p grant where
  ask_write:
    "callers g t = Some (c, op, Outside Waiting) \<Longrightarrow>
     guarded_step C f p grant g (stage_to t c op (QueuedWrite (requests g)) (requested g))"
| take_write:
    "callers g t = Some (c, op, QueuedWrite n) \<Longrightarrow> grant (holds g) (wants g) (Caller t) \<Longrightarrow>
     guarded_step C f p grant g (stage_to t c op Holding g)"
| compute:
    "callers g t = Some (c, op, Holding) \<Longrightarrow> perform memory_ops c op (document g) = (q, m) \<Longrightarrow>
     guarded_step C f p grant g (stage_to t c op (Computed q m) g)"
| change:
    "callers g t = Some (c, op, Computed q m) \<Longrightarrow>
     guarded_step C f p grant g (stage_to t c op (Changed q) (g\<lparr>document := m\<rparr>))"
| drop_write:
    "callers g t = Some (c, op, Changed q) \<Longrightarrow>
     guarded_step C f p grant g (stage_to t c op (Outside (after_mutation q)) g)"
| ask_read:
    "callers g t = Some (c, op, Outside (Mutated r)) \<Longrightarrow>
     guarded_step C f p grant g (stage_to t c op (QueuedRead r (requests g)) (requested g))"
| take_read:
    "callers g t = Some (c, op, QueuedRead r n) \<Longrightarrow> grant (holds g) (wants g) (Caller t) \<Longrightarrow>
     guarded_step C f p grant g (stage_to t c op (Reading r) g)"
| clone:
    "callers g t = Some (c, op, Reading r) \<Longrightarrow>
     guarded_step C f p grant g (stage_to t c op (Cloned r (memory_snapshot (document g))) g)"
| serialize:
    "callers g t = Some (c, op, Cloned r doc) \<Longrightarrow> serialize_doc C f doc = Inr bs \<Longrightarrow>
     guarded_step C f p grant g (stage_to t c op (Outside (Snapped r bs)) g)"
| serialize_fails:
    "callers g t = Some (c, op, Cloned r doc) \<Longrightarrow> serialize_doc C f doc = Inl e \<Longrightarrow>
     guarded_step C f p grant g (stage_to t c op (Outside (Returned (Inl e))) g)"
| drop_change:
    "callers g t = Some (c, op, QueuedWrite n) \<Longrightarrow>
     guarded_step C f p grant g (stage_to t c op (Dropped Waiting) g)"
| drop_flush:
    "callers g t = Some (c, op, QueuedRead r n) \<Longrightarrow>
     guarded_step C f p grant g (stage_to t c op (Dropped (Mutated r)) g)"
| file_operation:
    "callers g t = Some (c, op, Outside ph) \<Longrightarrow> on_disk ph \<Longrightarrow>
     race_step C f p (alone g t (c, op, ph)) s \<Longrightarrow> tasks s t = Some (c, op, ph') \<Longrightarrow>
     guarded_step C f p grant g (stage_to t c op (Outside ph') (g\<lparr>guarded_disk := race_disk s\<rparr>))"
| ask_query:
    "readers g n = Some (c, q, Asked) \<Longrightarrow>
     guarded_step C f p grant g (reading_to n c q (QueuedQuery (requests g)) (requested g))"
| take_query:
    "readers g n = Some (c, q, QueuedQuery k) \<Longrightarrow> grant (holds g) (wants g) (Reader n) \<Longrightarrow>
     guarded_step C f p grant g (reading_to n c q Looking g)"
| drop_query:
    "readers g n = Some (c, q, QueuedQuery k) \<Longrightarrow>
     guarded_step C f p grant g (reading_to n c q Forgotten g)"
| answer:
    "readers g n = Some (c, q, Looking) \<Longrightarrow>
     guarded_step C f p grant g (reading_to n c q (Answered (ask memory_ops c q (document g))) g)"

abbreviation guarded_steps :: "codec \<Rightarrow> format \<Rightarrow> path \<Rightarrow> rw_lock \<Rightarrow> guarded \<Rightarrow> guarded \<Rightarrow> bool" where
  "guarded_steps C f p grant \<equiv> (guarded_step C f p grant)\<^sup>*\<^sup>*"

definition guarded_start ::
  "memory_store \<Rightarrow> file_system \<Rightarrow> (nat \<rightharpoonup> chrono_env \<times> store_op) \<Rightarrow> (nat \<rightharpoonup> chrono_env \<times> query) \<Rightarrow> guarded"
where
  "guarded_start m d calls queries =
     \<lparr>document = m, guarded_disk = d,
      callers = (\<lambda>t. map_option (\<lambda>(c, op). (c, op, Outside Waiting)) (calls t)),
      readers = (\<lambda>n. map_option (\<lambda>(c, q). (c, q, Asked)) (queries n)), requests = 0\<rparr>"


lemma move_simps [simp]:
  "callers (stage_to t c op st g) = (callers g)(t \<mapsto> (c, op, st))" "readers (stage_to t c op st g) = readers g"
  "document (stage_to t c op st g) = document g" "guarded_disk (stage_to t c op st g) = guarded_disk g"
  "callers (reading_to n c q rd g) = callers g" "readers (reading_to n c q rd g) = (readers g)(n \<mapsto> (c, q, rd))"
  "document (reading_to n c q rd g) = document g" "guarded_disk (reading_to n c q rd g) = guarded_disk g"
  "callers (requested g) = callers g" "readers (requested g) = readers g"
  "document (requested g) = document g" "guarded_disk (requested g) = guarded_disk g"
  by (simp_all add: stage_to_def reading_to_def requested_def)

lemma holds_move:
  "holds (stage_to t c op st g) = (holds g)(Caller t := stage_holds st)"
  "holds (reading_to n c1 q rd g) = (holds g)(Reader n := reading_holds rd)"
  "holds (requested g) = holds g" "holds (g\<lparr>document := m\<rparr>) = holds g" "holds (g\<lparr>guarded_disk := d\<rparr>) = holds g"
proof -
  show "holds (stage_to t c op st g) = (holds g)(Caller t := stage_holds st)"
  proof
    fix x show "holds (stage_to t c op st g) x = ((holds g)(Caller t := stage_holds st)) x" by (cases x) auto
  qed
  show "holds (reading_to n c1 q rd g) = (holds g)(Reader n := reading_holds rd)"
  proof
    fix x show "holds (reading_to n c1 q rd g) x = ((holds g)(Reader n := reading_holds rd)) x" by (cases x) auto
  qed
  show "holds (requested g) = holds g" "holds (g\<lparr>document := m\<rparr>) = holds g" "holds (g\<lparr>guarded_disk := d\<rparr>) = holds g"
    by (rule ext, case_tac x, simp_all)+
qed

lemma wants_move:
  "wants (stage_to t c op st g) = (wants g)(Caller t := stage_wants st)"
  "wants (reading_to n c1 q rd g) = (wants g)(Reader n := reading_wants rd)"
  "wants (requested g) = wants g" "wants (g\<lparr>document := m\<rparr>) = wants g" "wants (g\<lparr>guarded_disk := d\<rparr>) = wants g"
proof -
  show "wants (stage_to t c op st g) = (wants g)(Caller t := stage_wants st)"
  proof
    fix x show "wants (stage_to t c op st g) x = ((wants g)(Caller t := stage_wants st)) x" by (cases x) auto
  qed
  show "wants (reading_to n c1 q rd g) = (wants g)(Reader n := reading_wants rd)"
  proof
    fix x show "wants (reading_to n c1 q rd g) x = ((wants g)(Reader n := reading_wants rd)) x" by (cases x) auto
  qed
  show "wants (requested g) = wants g" "wants (g\<lparr>document := m\<rparr>) = wants g" "wants (g\<lparr>guarded_disk := d\<rparr>) = wants g"
    by (rule ext, case_tac x, simp_all)+
qed


subsection \<open>The guards exclude each other\<close>

text \<open>
  A writer is alone with the document, and what it has computed from the document is still right
  when it stores it.
\<close>

definition guards_ok :: "guarded \<Rightarrow> bool" where
  "guards_ok g \<longleftrightarrow>
     (\<forall>x y a. holds g x = Some Exclusive \<longrightarrow> holds g y = Some a \<longrightarrow> x = y)
     \<and> (\<forall>t c op q m. callers g t = Some (c, op, Computed q m) \<longrightarrow> perform memory_ops c op (document g) = (q, m))"

lemma guards_okD:
  "guards_ok g \<Longrightarrow> holds g x = Some Exclusive \<Longrightarrow> holds g y = Some a \<Longrightarrow> x = y"
  unfolding guards_ok_def by blast

lemma guards_ok_start: "guards_ok (guarded_start m d calls queries)"
proof -
  have "holds (guarded_start m d calls queries) x = None" for x
    by (cases x) (auto simp: guarded_start_def map_option_case split: option.splits)
  moreover have "callers (guarded_start m d calls queries) t \<noteq> Some (c, op, Computed q m')" for t c op q m'
    by (auto simp: guarded_start_def map_option_case split: option.splits prod.splits)
  ultimately show ?thesis by (simp add: guards_ok_def)
qed

lemma holder_of:
  "callers g t = Some (c, op, st) \<Longrightarrow> holds g (Caller t) = stage_holds st"
  "readers g n = Some (c1, q, rd) \<Longrightarrow> holds g (Reader n) = reading_holds rd"
  by simp_all

text \<open>What a step does to the holders: a party drops its guard or keeps it, or takes a compatible one.\<close>

lemma guards_ok_hold:
  assumes "guards_ok g" and "holds g' = (holds g)(x := a)" and "a = None \<or> a = holds g x \<or> (\<exists>b. a = Some b \<and> compatible (holds g) b)"
    and "\<forall>t c op q m. callers g' t = Some (c, op, Computed q m) \<longrightarrow> perform memory_ops c op (document g') = (q, m)"
  shows "guards_ok g'"
  unfolding guards_ok_def
proof (intro conjI allI impI)
  fix y z b assume y: "holds g' y = Some Exclusive" and z: "holds g' z = Some b"
  show "y = z"
  proof (cases "a = None \<or> a = holds g x")
    case True
    then have "holds g y = Some Exclusive" "holds g z = Some b" using y z assms(2) by (auto split: if_splits)
    then show ?thesis by (rule guards_okD [OF assms(1)])
  next
    case False
    then obtain b' where "a = Some b'" "compatible (holds g) b'" using assms(3) by blast
    with y z assms(2) guards_okD [OF assms(1)] show ?thesis
      by (auto simp: compatible_def split: if_splits)
  qed
qed (use assms(4) in blast)

lemma computed_kept:
  assumes "guards_ok g" and "callers g' = (callers g)(t \<mapsto> (c, op, st))" and "document g' = document g"
    and "\<And>q m. st = Computed q m \<Longrightarrow> perform memory_ops c op (document g) = (q, m)"
  shows "\<forall>t c op q m. callers g' t = Some (c, op, Computed q m) \<longrightarrow> perform memory_ops c op (document g') = (q, m)"
  using assms unfolding guards_ok_def by (auto split: if_splits)

lemma guards_ok_step:
  assumes "guarded_step C f p grant g g'" and "lock_ok grant" and ok: "guards_ok g"
  shows "guards_ok g'"
  using assms(1)
proof cases
  case (change t c op q m)
  have "callers g u \<noteq> Some (c1, op1, Computed q1 m1)" if "u \<noteq> t" for u c1 op1 q1 m1
    using guards_okD [OF ok, of "Caller t" "Caller u" Exclusive] holder_of(1) [OF change(2)] that
    by (auto dest: holder_of)
  with ok show ?thesis
    by (intro guards_ok_hold [OF ok, of _ "Caller t" "Some Exclusive"])
      (auto simp: change holds_move holder_of(1) [OF change(2)] split: if_splits)
next
  case (take_write t c op n)
  then have "compatible (holds g) Exclusive" using assms(2) by (fastforce simp: lock_ok_def)
  with take_write show ?thesis
    by (intro guards_ok_hold [OF ok, of _ "Caller t" "Some Exclusive"] computed_kept [OF ok])
      (auto simp: holds_move)
next
  case (take_read t c op r n)
  then have "compatible (holds g) Shared" using assms(2) by (fastforce simp: lock_ok_def)
  with take_read show ?thesis
    by (intro guards_ok_hold [OF ok, of _ "Caller t" "Some Shared"] computed_kept [OF ok])
      (auto simp: holds_move)
next
  case (take_query n c q k)
  then have "compatible (holds g) Shared" using assms(2) by (fastforce simp: lock_ok_def)
  with take_query ok show ?thesis
    by (intro guards_ok_hold [OF ok, of _ "Reader n" "Some Shared"])
      (auto simp: holds_move guards_ok_def)
next
  case (compute t c op q m)
  then show ?thesis
    by (intro guards_ok_hold [OF ok, of _ "Caller t" "Some Exclusive"] computed_kept [OF ok])
      (auto simp: holds_move)
next
  case (ask_query n c q)
  then show ?thesis using ok
    by (intro guards_ok_hold [OF ok, of _ "Reader n" None]) (auto simp: holds_move guards_ok_def)
next
  case (drop_query n c q k)
  then show ?thesis using ok
    by (intro guards_ok_hold [OF ok, of _ "Reader n" None]) (auto simp: holds_move guards_ok_def)
next
  case (answer n c q)
  then show ?thesis using ok
    by (intro guards_ok_hold [OF ok, of _ "Reader n" None]) (auto simp: holds_move guards_ok_def)
qed (rule guards_ok_hold [OF ok _ disjI1 [OF refl]], simp add: holds_move,
     rule computed_kept [OF ok], auto)+



subsection \<open>The steps without guards\<close>

text \<open>
  What \<open>File_Race\<close> sees of a call: a change happens when it is stored, a snapshot when it is cloned,
  and its serialisation is settled by the clone.
\<close>

fun erase_stage :: "codec \<Rightarrow> format \<Rightarrow> stage \<Rightarrow> phase" where
  "erase_stage C f (Outside ph) = ph"
| "erase_stage C f (QueuedWrite n) = Waiting"
| "erase_stage C f Holding = Waiting"
| "erase_stage C f (Computed q m) = Waiting"
| "erase_stage C f (Changed q) = after_mutation q"
| "erase_stage C f (QueuedRead r n) = Mutated r"
| "erase_stage C f (Reading r) = Mutated r"
| "erase_stage C f (Cloned r doc) =
     (case serialize_doc C f doc of Inl e \<Rightarrow> Returned (Inl e) | Inr bs \<Rightarrow> Snapped r bs)"
| "erase_stage C f (Dropped ph) = ph"

definition erase :: "codec \<Rightarrow> format \<Rightarrow> guarded \<Rightarrow> race" where
  "erase C f g =
     \<lparr>race_memory = document g, race_disk = guarded_disk g,
      tasks = (\<lambda>t. map_option (\<lambda>(c, op, st). (c, op, erase_stage C f st)) (callers g t))\<rparr>"

lemma erase_simps [simp]:
  "race_memory (erase C f g) = document g" "race_disk (erase C f g) = guarded_disk g"
  "erase C f (reading_to n c1 q rd g) = erase C f g" "erase C f (requested g) = erase C f g"
  "erase C f (stage_to t c op st g) = goto t c op (erase_stage C f st) (erase C f g)"
  "erase C f (g\<lparr>document := m\<rparr>) = (erase C f g)\<lparr>race_memory := m\<rparr>"
  "erase C f (g\<lparr>guarded_disk := d\<rparr>) = (erase C f g)\<lparr>race_disk := d\<rparr>"
  by (auto simp: erase_def goto_def)

lemma erase_task:
  "callers g t = Some (c, op, st) \<Longrightarrow> tasks (erase C f g) t = Some (c, op, erase_stage C f st)"
  by (simp add: erase_def)

lemma goto_same: "tasks s t = Some (c, op, ph) \<Longrightarrow> goto t c op ph s = s"
  by (simp add: goto_def fun_upd_idem)

lemma erase_start: "erase C f (guarded_start m d calls queries) = race_start m d calls"
  by (auto simp: erase_def guarded_start_def race_start_def option.map_comp comp_def split: prod.splits
      intro!: ext option.map_cong)

text \<open>A file operation of one task is the same beside other tasks.\<close>

lemma race_step_beside:
  assumes "race_step C f p s s'" and "tasks s = [t \<mapsto> (c, op, ph)]" and "tasks s' t = Some (c, op, ph')"
    and "on_disk ph" and "tasks r t = Some (c, op, ph)" and "race_disk r = race_disk s"
  shows "race_step C f p r (goto t c op ph' (r\<lparr>race_disk := race_disk s'\<rparr>))"
proof -
  have same: "r\<lparr>race_disk := d\<rparr> = r" if "race_disk r = d" for d using that by (cases r) simp
  show ?thesis
    using assms(1)
  proof cases
    case (create u c1 op1 r1 bs i d)
    then show ?thesis using assms race_step.create [of r t c op r1 bs p i d] by (auto split: if_splits)
  next
    case (create_fails u c1 op1 r1 bs e)
    then have "race_step C f p r (goto t c op (Returned (Inl (Io (OtherIo e)))) r)"
      using assms by (intro race_step.create_fails) (auto split: if_splits)
    then show ?thesis using create_fails assms by (auto simp: same split: if_splits)
  next
    case (write_some u c1 op1 r1 i off bs n)
    then show ?thesis using assms race_step.write_some [of r t c op r1 i off bs n] by (auto split: if_splits)
  next
    case (write_fails u c1 op1 r1 i off bs e)
    then have "race_step C f p r (goto t c op (Returned (Inl (Io (OtherIo e)))) r)"
      using assms by (intro race_step.write_fails) (auto split: if_splits)
    then show ?thesis using write_fails assms by (auto simp: same split: if_splits)
  next
    case (rename u c1 op1 r1 i off v d)
    then show ?thesis using assms race_step.rename [of r t c op r1 i off p v d] by (auto split: if_splits)
  qed (use assms in \<open>auto split: if_splits\<close>)
qed

text \<open>Every step is a step of \<open>File_Race\<close> or changes nothing there.\<close>

lemma guarded_step_erase:
  assumes "guarded_step C f p grant g g'" and "guards_ok g"
  shows "erase C f g' = erase C f g \<or> race_step C f p (erase C f g) (erase C f g')"
  using assms(1)
proof cases
  case (change t c op q m)
  have "perform memory_ops c op (race_memory (erase C f g)) = (q, m)"
    using assms(2) change(2) by (auto simp: guards_ok_def)
  with change erase_task [OF change(2), of C f] show ?thesis
    by (auto intro: race_step.mutate)
next
  case (clone t c op r)
  note task = erase_task [OF clone(2), of C f]
  show ?thesis
  proof (cases "serialize_doc C f (document g)")
    case (Inl e)
    with clone task race_step.snapshot_fails [of "erase C f g" t c op r C f e p] show ?thesis
      by (simp add: memory_snapshot_def)
  next
    case (Inr bs)
    with clone task race_step.snapshot [of "erase C f g" t c op r C f bs p] show ?thesis
      by (simp add: memory_snapshot_def)
  qed
next
  case (file_operation t c op ph s ph')
  have "race_step C f p (erase C f g) (goto t c op ph' ((erase C f g)\<lparr>race_disk := race_disk s\<rparr>))"
    by (rule race_step_beside [OF file_operation(4) _ file_operation(5,3)])
      (use erase_task [OF file_operation(2), of C f] in \<open>simp_all add: alone_def\<close>)
  then show ?thesis using file_operation(1) by simp
qed (use erase_task in \<open>fastforce simp: goto_same\<close>)+

lemma guarded_run_erase:
  assumes "guarded_steps C f p grant g g'" and "lock_ok grant" and "guards_ok g"
  shows "race_steps C f p (erase C f g) (erase C f g') \<and> guards_ok g'"
  using assms(1)
proof (induction rule: rtranclp_induct)
  case (step g1 g2)
  then have "guards_ok g2" using guards_ok_step [OF step(2) assms(2)] by blast
  moreover from step have "erase C f g2 = erase C f g1 \<or> race_step C f p (erase C f g1) (erase C f g2)"
    using guarded_step_erase by blast
  ultimately show ?case using step(3) by (auto intro: rtranclp.rtrancl_into_rtrancl)
qed (use assms(3) in simp)



subsection \<open>Every run of the steps without guards\<close>

text \<open>With any lock, a state in which nobody holds or awaits a guard can go on as \<open>File_Race\<close> does.\<close>

definition settled :: "guarded \<Rightarrow> bool" where
  "settled g \<longleftrightarrow>
     (\<forall>t c op st. callers g t = Some (c, op, st) \<longrightarrow> (\<exists>ph. st = Outside ph))
     \<and> (\<forall>n c q rd. readers g n = Some (c, q, rd) \<longrightarrow> rd = Asked)"

lemma settled_lock: "settled g \<Longrightarrow> holds g = Map.empty \<and> wants g = Map.empty"
proof -
  assume st: "settled g"
  have "holds g x = None \<and> wants g x = None" for x
  proof (cases x)
    case (Caller t)
    with st show ?thesis by (cases "callers g t") (fastforce simp: settled_def)+
  next
    case (Reader n)
    with st show ?thesis by (cases "readers g n") (fastforce simp: settled_def)+
  qed
  then show ?thesis by auto
qed

lemma settled_task: "settled g \<Longrightarrow> tasks (erase C f g) t = Some (c, op, ph) \<Longrightarrow> callers g t = Some (c, op, Outside ph)"
  by (fastforce simp: settled_def erase_def)

lemma settled_move:
  "settled g \<Longrightarrow> settled (stage_to t c op (Outside ph) g)" "settled g \<Longrightarrow> settled (g\<lparr>document := m\<rparr>)"
  "settled g \<Longrightarrow> settled (g\<lparr>guarded_disk := d\<rparr>)" "settled g \<Longrightarrow> settled (requested g)"
  by (auto simp: settled_def requested_def split: if_splits)

lemma stage_to_twice: "stage_to t c op st (stage_to t c op st' g) = stage_to t c op st g"
  by (simp add: stage_to_def)

lemma only_waiter: "lock_ok grant \<Longrightarrow> W x = Some y \<Longrightarrow> \<forall>z. z \<noteq> x \<longrightarrow> W z = None \<Longrightarrow> grant Map.empty W x"
proof -
  assume ok: "lock_ok grant" and W: "W x = Some y" "\<forall>z. z \<noteq> x \<longrightarrow> W z = None"
  have "W \<noteq> Map.empty" using W by auto
  then obtain z where z: "grant Map.empty W z" using ok unfolding lock_ok_def by blast
  then have "W z \<noteq> None" using ok unfolding lock_ok_def by (metis option.distinct(1))
  with W z show ?thesis by (cases "z = x") auto
qed

lemma change_alone:
  assumes "lock_ok grant" and st: "settled g" and t: "callers g t = Some (c, op, Outside Waiting)"
    and "perform memory_ops c op (document g) = (q, m)"
  shows "guarded_steps C f p grant g
    (stage_to t c op (Outside (after_mutation q)) ((requested g)\<lparr>document := m\<rparr>))"
proof -
  let ?g1 = "stage_to t c op (QueuedWrite (requests g)) (requested g)"
  let ?g2 = "stage_to t c op Holding (requested g)" and ?g3 = "stage_to t c op (Computed q m) (requested g)"
  let ?g4 = "stage_to t c op (Changed q) ((requested g)\<lparr>document := m\<rparr>)"
  note free = settled_lock [OF st]
  have r1: "guarded_step C f p grant g ?g1" by (rule ask_write [OF t])
  have "grant (holds ?g1) (wants ?g1) (Caller t)"
    using only_waiter [OF assms(1), of "wants ?g1" "Caller t"] free by (simp add: holds_move wants_move fun_upd_idem)
  with guarded_step.take_write [of ?g1 t c op "requests g" grant C f p]
  have r2: "guarded_step C f p grant ?g1 ?g2" by (simp add: stage_to_twice)
  from guarded_step.compute [of ?g2 t c op q m C f p grant] assms(4)
  have r3: "guarded_step C f p grant ?g2 ?g3" by (simp add: stage_to_twice)
  have same: "(stage_to t c op (Computed q m) (requested g))\<lparr>document := m\<rparr>
      = stage_to t c op (Computed q m) ((requested g)\<lparr>document := m\<rparr>)" by (simp add: stage_to_def)
  from guarded_step.change [of ?g3 t c op q m C f p grant] have r4: "guarded_step C f p grant ?g3 ?g4"
    by (simp add: stage_to_twice same)
  from guarded_step.drop_write [of ?g4 t c op q C f p grant]
  have "guarded_step C f p grant ?g4 (stage_to t c op (Outside (after_mutation q)) ((requested g)\<lparr>document := m\<rparr>))"
    by (simp add: stage_to_twice)
  with r1 r2 r3 r4 show ?thesis by (meson converse_rtranclp_into_rtranclp r_into_rtranclp)
qed

lemma snapshot_alone:
  assumes "lock_ok grant" and st: "settled g" and t: "callers g t = Some (c, op, Outside (Mutated r))"
  shows "guarded_steps C f p grant g (stage_to t c op (Cloned r (document g)) (requested g))"
proof -
  let ?g1 = "stage_to t c op (QueuedRead r (requests g)) (requested g)"
  let ?g2 = "stage_to t c op (Reading r) (requested g)"
  note free = settled_lock [OF st]
  have r1: "guarded_step C f p grant g ?g1" by (rule ask_read [OF t])
  have "grant (holds ?g1) (wants ?g1) (Caller t)"
    using only_waiter [OF assms(1), of "wants ?g1" "Caller t"] free by (simp add: holds_move wants_move fun_upd_idem)
  with guarded_step.take_read [of ?g1 t c op r "requests g" grant C f p]
  have r2: "guarded_step C f p grant ?g1 ?g2" by (simp add: stage_to_twice)
  from guarded_step.clone [of ?g2 t c op r C f p grant]
  have "guarded_step C f p grant ?g2 (stage_to t c op (Cloned r (document g)) (requested g))"
    by (simp add: stage_to_twice memory_snapshot_def)
  with r1 r2 show ?thesis by (meson converse_rtranclp_into_rtranclp r_into_rtranclp)
qed

lemma serialized_alone:
  assumes "lock_ok grant" and st: "settled g" and t: "callers g t = Some (c, op, Outside (Mutated r))"
  shows "\<exists>g'. guarded_steps C f p grant g g' \<and> settled g'
    \<and> erase C f g' = goto t c op (erase_stage C f (Cloned r (document g))) (erase C f g)"
proof -
  let ?g = "stage_to t c op (Cloned r (document g)) (requested g)"
  let ?g' = "stage_to t c op (Outside (erase_stage C f (Cloned r (document g)))) (requested g)"
  have "guarded_step C f p grant ?g ?g'"
    using guarded_step.serialize [of ?g t c op r "document g" C f _ p grant]
      guarded_step.serialize_fails [of ?g t c op r "document g" C f _ p grant]
    by (cases "serialize_doc C f (document g)") (simp_all add: stage_to_twice)
  with snapshot_alone [OF assms, of C f p] have "guarded_steps C f p grant g ?g'"
    by (rule rtranclp.rtrancl_into_rtrancl)
  moreover have "settled ?g'" using st by (intro settled_move)
  ultimately show ?thesis by (intro exI [of _ ?g']) simp
qed

lemma alone_simps [simp]:
  "tasks (alone g t x) = [t \<mapsto> x]" "race_disk (alone g t x) = guarded_disk g" "race_memory (alone g t x) = document g"
  by (simp_all add: alone_def)

lemma same_disk: "race_disk s = d \<Longrightarrow> s\<lparr>race_disk := d\<rparr> = s"
  by (cases s) simp

lemma file_operation_alone:
  assumes t: "callers g t = Some (c, op, Outside ph)" and st: "settled g" and "on_disk ph"
    and "race_step C f p (alone g t (c, op, ph)) (goto t c op ph' ((alone g t (c, op, ph))\<lparr>race_disk := d\<rparr>))"
  shows "\<exists>g'. guarded_steps C f p grant g g' \<and> settled g'
    \<and> erase C f g' = goto t c op ph' ((erase C f g)\<lparr>race_disk := d\<rparr>)"
proof -
  let ?g' = "stage_to t c op (Outside ph') (g\<lparr>guarded_disk := d\<rparr>)"
  have "guarded_step C f p grant g ?g'" using file_operation [OF t assms(3,4)] by simp
  moreover have "settled ?g'" using st by (intro settled_move)
  ultimately show ?thesis by (intro exI [of _ ?g']) auto
qed

lemma settled_step:
  assumes "race_step C f p (erase C f g) s'" and ok: "lock_ok grant" and st: "settled g"
  shows "\<exists>g'. guarded_steps C f p grant g g' \<and> settled g' \<and> erase C f g' = s'"
  using assms(1)
proof cases
  case (mutate t c op q m)
  note t = settled_task [OF st mutate(2)]
  let ?g' = "stage_to t c op (Outside (after_mutation q)) ((requested g)\<lparr>document := m\<rparr>)"
  have "guarded_steps C f p grant g ?g'" using change_alone [OF ok st t] mutate(3) by simp
  moreover have "settled ?g'" using st by (intro settled_move)
  ultimately show ?thesis using mutate(1) by (intro exI [of _ ?g']) simp
next
  case (snapshot t c op r bs)
  with serialized_alone [OF ok st settled_task [OF st snapshot(2)], of C f p] show ?thesis
    by (simp add: memory_snapshot_def)
next
  case (snapshot_fails t c op r e)
  with serialized_alone [OF ok st settled_task [OF st snapshot_fails(2)], of C f p] show ?thesis
    by (simp add: memory_snapshot_def)
next
  case (create t c op r bs i d)
  with file_operation_alone [OF settled_task [OF st create(2)] st, of C f p "Writing r i 0 bs" d]
    race_step.create [of "alone g t (c, op, Snapped r bs)" t c op r bs p i d C f]
  show ?thesis by simp
next
  case (create_fails t c op r bs e)
  with file_operation_alone [OF settled_task [OF st create_fails(2)] st, of C f p _ "guarded_disk g"]
    race_step.create_fails [of "alone g t (c, op, Snapped r bs)" t c op r bs C f p e]
  show ?thesis by (simp add: same_disk)
next
  case (write_some t c op r i off bs n)
  with file_operation_alone [OF settled_task [OF st write_some(2)] st, of C f p
      "Writing r i (off + n) (drop n bs)" "fs_write_at i off (take n bs) (guarded_disk g)"]
    race_step.write_some [of "alone g t (c, op, Writing r i off bs)" t c op r i off bs n C f p]
  show ?thesis by simp
next
  case (write_fails t c op r i off bs e)
  with file_operation_alone [OF settled_task [OF st write_fails(2)] st, of C f p _ "guarded_disk g"]
    race_step.write_fails [of "alone g t (c, op, Writing r i off bs)" t c op r i off bs C f p e]
  show ?thesis by (simp add: same_disk)
next
  case (rename t c op r i off u d)
  with file_operation_alone [OF settled_task [OF st rename(2)] st, of C f p
      "Returned (and_then (map_err Io u) (\<lambda>_. Inr r))" d]
    race_step.rename [of "alone g t (c, op, Writing r i off [])" t c op r i off p u d C f]
  show ?thesis by simp
qed

lemma settled_run:
  assumes "race_steps C f p s s'" and "erase C f g = s" and "lock_ok grant" and "settled g"
  shows "\<exists>g'. guarded_steps C f p grant g g' \<and> settled g' \<and> erase C f g' = s'"
  using assms(1)
proof (induction rule: rtranclp_induct)
  case base
  with assms(2,4) show ?case by blast
next
  case (step s1 s2)
  then obtain g1 where g1: "guarded_steps C f p grant g g1" "settled g1" "erase C f g1 = s1" by blast
  with settled_step [OF _ assms(3) g1(2), of C f p s2] step(2)
  obtain g2 where "guarded_steps C f p grant g1 g2" "settled g2" "erase C f g2 = s2" by blast
  with g1(1) show ?case by (blast intro: rtranclp_trans)
qed

lemma settled_start: "settled (guarded_start m d calls queries)"
  by (auto simp: settled_def guarded_start_def map_option_case split: option.splits)

text \<open>
  C4. The lock makes every change and every snapshot of the document one step: with any lock that keeps
  tokio's contract, the states that calls and reads can reach, their steps under the guards
  interleaved at will, are, seen without the guards, exactly the states that \<open>File_Race\<close> reaches.
\<close>

theorem guarded_calls_are_atomic:
  assumes "lock_ok grant"
  shows "race_steps C f p (race_start m d calls) s \<longleftrightarrow>
    (\<exists>g. guarded_steps C f p grant (guarded_start m d calls queries) g \<and> erase C f g = s)"
proof
  assume "race_steps C f p (race_start m d calls) s"
  with settled_run [OF _ erase_start assms settled_start] show
    "\<exists>g. guarded_steps C f p grant (guarded_start m d calls queries) g \<and> erase C f g = s" by blast
next
  assume "\<exists>g. guarded_steps C f p grant (guarded_start m d calls queries) g \<and> erase C f g = s"
  with guarded_run_erase [OF _ assms guards_ok_start, of C f p] show "race_steps C f p (race_start m d calls) s"
    by (auto simp: erase_start)
qed


theorem guarded_calls_are_atomic_witness:
  "\<exists>g. guarded_steps key_codec Json json_path fifo_lock
      (guarded_start (key_doc False) empty_fs key_calls [0 \<mapsto> (noon, ListPreauthKeys (NetworkId 1))]) g
    \<and> tasks (erase key_codec Json g) 0 = Some (noon, ConsumePreauthKey (PreAuthKeyId 7), Returned (Inr (Consumed True)))"
proof -
  obtain s where run: "race_steps key_codec Json json_path (race_start (key_doc False) empty_fs key_calls) s"
    and t: "tasks s 0 = Some (noon, ConsumePreauthKey (PreAuthKeyId 7), Returned (Inr (Consumed True)))"
    using key_race_run by blast
  obtain g where "guarded_steps key_codec Json json_path fifo_lock
      (guarded_start (key_doc False) empty_fs key_calls [0 \<mapsto> (noon, ListPreauthKeys (NetworkId 1))]) g"
    and "erase key_codec Json g = s"
    using guarded_calls_are_atomic [OF fifo_lock_ok, THEN iffD1, OF run,
        of "[0 \<mapsto> (noon, ListPreauthKeys (NetworkId 1))]"] by (elim exE conjE) (rule that)
  with t show ?thesis by blast
qed


end
