(* ===== verification/Guarded_Runs.thy ===== *)
theory Guarded_Runs
  imports Guarded_Calls
begin

text \<open>
  What the guards of \<open>Guarded_Calls\<close> give to the clients of the store: a read sees the document at one point of the
  order of the changes, at or after every change that was acknowledged before the read was made; and no
  call or read waits for ever.
\<close>


subsection \<open>What a read sees\<close>

text \<open>
  Read \<open>n\<close> asks \<open>q\<close>; once answered, the answer is that of the document after some of the changes in \<open>ts\<close>, the
  first \<open>j\<close> among them.
\<close>

definition read_ok ::
  "memory_store \<Rightarrow> (nat \<rightharpoonup> chrono_env \<times> store_op) \<Rightarrow> nat \<Rightarrow> chrono_env \<Rightarrow> query \<Rightarrow> nat \<Rightarrow> nat list \<Rightarrow> guarded \<Rightarrow> bool"
where
  "read_ok m calls n c q j ts g \<longleftrightarrow>
     (\<exists>rd. readers g n = Some (c, q, rd)
       \<and> (\<forall>a. rd = Answered a \<longrightarrow> (\<exists>k. j \<le> k \<and> k \<le> length ts
            \<and> a = ask memory_ops c q (snd (run_ops memory_ops (map (the \<circ> calls) (take k ts)) m)))))"

lemma read_ok_quiet:
  "read_ok m calls n c q j ts g \<Longrightarrow> readers g' n = readers g n \<Longrightarrow> read_ok m calls n c q j (ts @ us) g'"
  unfolding read_ok_def by force

lemma read_ok_step:
  assumes "guarded_step C f p grant g g'" and ok: "read_ok m calls n c q j ts g"
    and "document g = snd (run_ops memory_ops (map (the \<circ> calls) ts) m)" and "j \<le> length ts"
  shows "read_ok m calls n c q j (ts @ us) g'"
  using assms(1)
proof cases
  case (answer n1 c1 q1)
  show ?thesis
  proof (cases "n1 = n")
    case True
    with answer ok have "c1 = c" "q1 = q" by (auto simp: read_ok_def)
    with True answer assms(3,4) show ?thesis
      by (auto simp: read_ok_def intro!: exI [of _ "length ts"] simp del: ask.simps)
  qed (use answer in \<open>auto intro: read_ok_quiet [OF ok]\<close>)
next
  case (ask_query n1 c1 q1)
  show ?thesis
  proof (cases "n1 = n")
    case True
    with ask_query ok show ?thesis by (auto simp: read_ok_def)
  qed (use ask_query in \<open>auto intro: read_ok_quiet [OF ok]\<close>)
next
  case (drop_query n1 c1 q1 k)
  show ?thesis
  proof (cases "n1 = n")
    case True
    with drop_query ok show ?thesis by (auto simp: read_ok_def)
  qed (use drop_query in \<open>auto intro: read_ok_quiet [OF ok]\<close>)
next
  case (take_query n1 c1 q1 k)
  show ?thesis
  proof (cases "n1 = n")
    case True
    with take_query ok show ?thesis by (auto simp: read_ok_def)
  qed (use take_query in \<open>auto intro: read_ok_quiet [OF ok]\<close>)
qed (auto intro: read_ok_quiet [OF ok])

lemma read_ok_run:
  assumes "guarded_steps C f p grant g g'" and "lock_ok grant" and "guards_ok g"
    and "lin_inv m calls ts (erase C f g)" and "read_ok m calls n c q (length ts) ts g"
  shows "\<exists>us. lin_inv m calls (ts @ us) (erase C f g') \<and> read_ok m calls n c q (length ts) (ts @ us) g'"
  using assms(1)
proof (induction rule: rtranclp_induct)
  case base
  show ?case using assms(4,5) by (intro exI [of _ "[]"]) simp
next
  case (step g1 g2)
  then obtain us where us: "lin_inv m calls (ts @ us) (erase C f g1)" "read_ok m calls n c q (length ts) (ts @ us) g1"
    by blast
  have "guards_ok g1" using guarded_run_erase [OF step(1) assms(2,3)] by blast
  from guarded_step_erase [OF step(2) this] us(1)
  obtain vs where "lin_inv m calls ((ts @ us) @ vs) (erase C f g2)"
    using lin_inv_step by (metis append_Nil2)
  moreover have "document g1 = snd (run_ops memory_ops (map (the \<circ> calls) (ts @ us)) m)"
    using us(1) by (simp add: lin_inv_def)
  from read_ok_step [OF step(2) us(2) this] have "read_ok m calls n c q (length ts) ((ts @ us) @ vs) g2" by simp
  ultimately show ?case by (metis append.assoc)
qed

lemma erase_waiting: "callers g t = Some (c, op, st) \<Longrightarrow> lin_inv m calls ts (erase C f g)
    \<Longrightarrow> t \<in> set ts \<longleftrightarrow> erase_stage C f st \<noteq> Waiting"
  by (drule erase_task [of g t c op st C f]) (auto simp: lin_inv_def)

lemma same_reads:
  "guarded_step C f p grant g g' \<Longrightarrow> readers g n = Some (c, q, rd) \<Longrightarrow> \<exists>rd'. readers g' n = Some (c, q, rd')"
  by (induction rule: guarded_step.induct) auto

lemma same_reads_run:
  "guarded_steps C f p grant g g' \<Longrightarrow> readers g n = Some (c, q, rd) \<Longrightarrow> \<exists>rd'. readers g' n = Some (c, q, rd')"
  by (induction rule: rtranclp_induct) (blast dest: same_reads)+

lemma reading_to_twice: "reading_to n c q st (reading_to n c q st' g) = reading_to n c q st g"
  by (simp add: reading_to_def)

lemma query_alone:
  assumes "lock_ok grant" and st: "settled g" and n: "readers g n = Some (c, q, Asked)"
  shows "guarded_steps C f p grant g (reading_to n c q (Answered (ask memory_ops c q (document g))) (requested g))"
proof -
  let ?g1 = "reading_to n c q (QueuedQuery (requests g)) (requested g)" and ?g2 = "reading_to n c q Looking (requested g)"
  note free = settled_lock [OF st]
  have r1: "guarded_step C f p grant g ?g1" by (rule ask_query [OF n])
  have "grant (holds ?g1) (wants ?g1) (Reader n)"
    using only_waiter [OF assms(1), of "wants ?g1" "Reader n"] free by (simp add: holds_move wants_move fun_upd_idem)
  with guarded_step.take_query [of ?g1 n c q "requests g" grant C f p]
  have r2: "guarded_step C f p grant ?g1 ?g2" by (simp add: reading_to_twice)
  from guarded_step.answer [of ?g2 n c q C f p grant]
  have "guarded_step C f p grant ?g2 (reading_to n c q (Answered (ask memory_ops c q (document g))) (requested g))"
    by (simp add: reading_to_twice del: ask.simps)
  with r1 r2 show ?thesis by (meson converse_rtranclp_into_rtranclp r_into_rtranclp)
qed

text \<open>
  C5. Reads linearize with the changes: an answer is that of the document after the first \<open>k\<close> changes in
  the order in which they got the write lock, all of a change or nothing. Every call that replied before the read was made
  is among these \<open>k\<close>, whatever it replied, and only calls are that have begun by the time of the answer.
\<close>

theorem reads_see_acknowledged_changes:
  assumes "lock_ok grant" and "guarded_steps C f p grant (guarded_start m d calls queries) g1"
    and "readers g1 n = Some (c, q, Asked)"
    and "guarded_steps C f p grant g1 g2" and "readers g2 n = Some (c', q', Answered a)"
  shows "\<exists>ts k. distinct ts \<and> set ts \<subseteq> dom calls \<and> k \<le> length ts
    \<and> a = ask memory_ops c q (snd (run_ops memory_ops (map (the \<circ> calls) (take k ts)) m))
    \<and> document g2 = snd (run_ops memory_ops (map (the \<circ> calls) ts) m)
    \<and> (\<forall>t c1 op r. callers g1 t = Some (c1, op, Outside (Returned r)) \<longrightarrow> t \<in> set (take k ts))
    \<and> (\<forall>t c1 op. callers g2 t = Some (c1, op, Outside Waiting) \<longrightarrow> t \<notin> set ts)"
proof -
  note run = guarded_run_erase [OF assms(2,1) guards_ok_start]
  obtain ts where ts: "lin_inv m calls ts (erase C f g1)"
    using run lin_inv_steps [OF _ lin_inv_start] by (metis erase_start)
  have "read_ok m calls n c q (length ts) ts g1" using assms(3) by (simp add: read_ok_def)
  from read_ok_run [OF assms(4,1) conjunct2 [OF run] ts this] obtain us where
    us: "lin_inv m calls (ts @ us) (erase C f g2)" "read_ok m calls n c q (length ts) (ts @ us) g2" by blast
  then obtain k where k: "length ts \<le> k" "k \<le> length (ts @ us)"
    "a = ask memory_ops c q (snd (run_ops memory_ops (map (the \<circ> calls) (take k (ts @ us))) m))"
    using assms(5) by (auto simp: read_ok_def)
  have "t \<in> set (take k (ts @ us))" if "callers g1 t = Some (c1, op, Outside (Returned r))" for t c1 op r
    using erase_waiting [OF that ts] k(1) by simp
  moreover have "t \<notin> set (ts @ us)" if "callers g2 t = Some (c1, op, Outside Waiting)" for t c1 op
    using erase_waiting [OF that us(1)] by simp
  moreover have "set (ts @ us) \<subseteq> dom calls"
  proof
    fix t assume "t \<in> set (ts @ us)"
    then have "tasks (erase C f g2) t \<noteq> None" using us(1) unfolding lin_inv_def by blast
    then obtain x where x: "tasks (erase C f g2) t = Some x" by blast
    with us(1) show "t \<in> dom calls" by (cases x) (auto simp: lin_inv_def)
  qed
  moreover have "distinct (ts @ us)" "document g2 = snd (run_ops memory_ops (map (the \<circ> calls) (ts @ us)) m)"
    using us(1) by (simp_all add: lin_inv_def)
  ultimately show ?thesis using k by blast
qed


lemma list_of_singleton:
  assumes "set xs = {x}" and "distinct xs"
  shows "xs = [x]"
proof -
  have "length xs = 1" using distinct_card [OF assms(2)] assms(1) by simp
  then obtain y where "xs = [y]" by (cases xs) auto
  with assms(1) show ?thesis by simp
qed

lemma key_read_run:
  obtains g1 g2 a where
    "guarded_steps key_codec Json json_path fifo_lock
       (guarded_start (key_doc False) empty_fs [0 \<mapsto> (noon, ConsumePreauthKey (PreAuthKeyId 7))]
         [0 \<mapsto> (noon, ListPreauthKeys (NetworkId 1))]) g1"
    "callers g1 0 = Some (noon, ConsumePreauthKey (PreAuthKeyId 7), Outside (Returned (Inr (Consumed True))))"
    "readers g1 0 = Some (noon, ListPreauthKeys (NetworkId 1), Asked)"
    "guarded_steps key_codec Json json_path fifo_lock g1 g2"
    "readers g2 0 = Some (noon, ListPreauthKeys (NetworkId 1), Answered a)"
proof -
  let ?calls = "[0 \<mapsto> (noon, ConsumePreauthKey (PreAuthKeyId 7))]"
    and ?queries = "[0 \<mapsto> (noon, ListPreauthKeys (NetworkId 1))]"
  obtain s where s: "race_steps key_codec Json json_path (race_start (key_doc False) empty_fs ?calls) s"
    "tasks s 0 = Some (noon, ConsumePreauthKey (PreAuthKeyId 7), Returned (Inr (Consumed True)))"
    using key_lone_run by blast
  from settled_run [OF s(1) erase_start fifo_lock_ok settled_start] obtain g1 where
    g1: "guarded_steps key_codec Json json_path fifo_lock (guarded_start (key_doc False) empty_fs ?calls ?queries) g1"
    "settled g1" "erase key_codec Json g1 = s" by blast
  have "readers (guarded_start (key_doc False) empty_fs ?calls ?queries) 0
      = Some (noon, ListPreauthKeys (NetworkId 1), Asked)" by (simp add: guarded_start_def)
  from same_reads_run [OF g1(1) this] g1(2) have
    n: "readers g1 0 = Some (noon, ListPreauthKeys (NetworkId 1), Asked)" by (auto simp: settled_def)
  have t: "callers g1 0 = Some (noon, ConsumePreauthKey (PreAuthKeyId 7), Outside (Returned (Inr (Consumed True))))"
    using settled_task [OF g1(2)] s(2) g1(3) by blast
  show ?thesis by (rule that [OF g1(1) t n query_alone [OF fifo_lock_ok g1(2) n]]) simp
qed

theorem reads_see_acknowledged_changes_witness:
  "\<exists>g. guarded_steps key_codec Json json_path fifo_lock
      (guarded_start (key_doc False) empty_fs [0 \<mapsto> (noon, ConsumePreauthKey (PreAuthKeyId 7))]
        [0 \<mapsto> (noon, ListPreauthKeys (NetworkId 1))]) g
    \<and> readers g 0 = Some (noon, ListPreauthKeys (NetworkId 1),
        Answered (Inr (PreauthKeys [sample_key\<lparr>used := True\<rparr>])))"
proof -
  obtain g1 g2 a where run: "guarded_steps key_codec Json json_path fifo_lock
       (guarded_start (key_doc False) empty_fs [0 \<mapsto> (noon, ConsumePreauthKey (PreAuthKeyId 7))]
         [0 \<mapsto> (noon, ListPreauthKeys (NetworkId 1))]) g1"
    and t: "callers g1 0 = Some (noon, ConsumePreauthKey (PreAuthKeyId 7), Outside (Returned (Inr (Consumed True))))"
    and rest: "readers g1 0 = Some (noon, ListPreauthKeys (NetworkId 1), Asked)"
      "guarded_steps key_codec Json json_path fifo_lock g1 g2"
      "readers g2 0 = Some (noon, ListPreauthKeys (NetworkId 1), Answered a)" by (rule key_read_run)
  obtain ts :: "nat list" and k where
    ts: "distinct ts" "set ts \<subseteq> dom [0 \<mapsto> (noon, ConsumePreauthKey (PreAuthKeyId 7))]"
    and a: "a = ask memory_ops noon (ListPreauthKeys (NetworkId 1)) (snd (run_ops memory_ops
      (map (the \<circ> [0 \<mapsto> (noon, ConsumePreauthKey (PreAuthKeyId 7))]) (take k ts)) (key_doc False)))"
    and seen: "\<forall>t c1 op r. callers g1 t = Some (c1, op, Outside (Returned r)) \<longrightarrow> t \<in> set (take k ts)"
    using reads_see_acknowledged_changes [OF fifo_lock_ok run rest] by (elim exE conjE) (rule that)
  have "0 \<in> set (take k ts)" by (rule seen [rule_format, OF t])
  have "set (take k ts) = {0}" "distinct (take k ts)" using ts \<open>0 \<in> set (take k ts)\<close> set_take_subset [of k ts] by auto
  then have "take k ts = [0]" by (intro list_of_singleton)
  with a have "a = Inr (PreauthKeys [sample_key\<lparr>used := True\<rparr>])"
    by (simp add: memory_ops_def consumed_reply_def consume_key_doc mem_list_preauth_keys_def)
      (simp add: key_doc_def sample_key_def)
  with run rest show ?thesis by (meson rtranclp_trans)
qed



subsection \<open>Nothing waits for ever\<close>

text \<open>How far a call or a read is from its end, and how many bytes of a snapshot it has still to write.\<close>

fun phase_rank :: "phase \<Rightarrow> nat" where
  "phase_rank Waiting = 11"
| "phase_rank (Mutated r) = 6"
| "phase_rank (Snapped r bs) = 2"
| "phase_rank (Writing r i off bs) = 1"
| "phase_rank (Returned r) = 0"

fun phase_bytes :: "phase \<Rightarrow> nat" where
  "phase_bytes (Writing r i off bs) = length bs"
| "phase_bytes _ = 0"

fun stage_rank :: "stage \<Rightarrow> nat" where
  "stage_rank (Outside ph) = phase_rank ph"
| "stage_rank (QueuedWrite n) = 10"
| "stage_rank Holding = 9"
| "stage_rank (Computed q m) = 8"
| "stage_rank (Changed q) = 7"
| "stage_rank (QueuedRead r n) = 5"
| "stage_rank (Reading r) = 4"
| "stage_rank (Cloned r doc) = 3"
| "stage_rank (Dropped ph) = 0"

fun stage_bytes :: "stage \<Rightarrow> nat" where
  "stage_bytes (Outside ph) = phase_bytes ph"
| "stage_bytes _ = 0"

fun reading_rank :: "reading \<Rightarrow> nat" where
  "reading_rank Asked = 3"
| "reading_rank (QueuedQuery n) = 2"
| "reading_rank Looking = 1"
| "reading_rank (Answered a) = 0"
| "reading_rank Forgotten = 0"

definition total :: "('a \<Rightarrow> nat) \<Rightarrow> (nat \<rightharpoonup> 'a) \<Rightarrow> nat" where
  "total w m = (\<Sum>t \<in> dom m. w (the (m t)))"

lemma total_upd: "finite (dom m) \<Longrightarrow> m t = Some x \<Longrightarrow> total w (m(t \<mapsto> y)) + w x = total w m + w y"
proof -
  assume fin: "finite (dom m)" and t: "m t = Some x"
  then have t': "t \<in> dom m" by blast
  have "(\<Sum>u \<in> dom m - {t}. w (the ((m(t \<mapsto> y)) u))) = (\<Sum>u \<in> dom m - {t}. w (the (m u)))"
    by (rule sum.cong) auto
  moreover have "dom (m(t \<mapsto> y)) = dom m" using t' by auto
  ultimately show ?thesis
    using t sum.remove [OF fin t', of "\<lambda>u. w (the (m u))"] sum.remove [OF fin t', of "\<lambda>u. w (the ((m(t \<mapsto> y)) u))"]
    by (simp add: total_def)
qed

definition left :: "guarded \<Rightarrow> nat \<times> nat" where
  "left g = (total (\<lambda>(c, op, st). stage_rank st) (callers g) + total (\<lambda>(c, q, rd). reading_rank rd) (readers g),
     total (\<lambda>(c, op, st). stage_bytes st) (callers g))"

definition finite_load :: "guarded \<Rightarrow> bool" where
  "finite_load g \<longleftrightarrow> finite (dom (callers g)) \<and> finite (dom (readers g))"

abbreviation closer :: "((nat \<times> nat) \<times> (nat \<times> nat)) set" where
  "closer \<equiv> less_than <*lex*> less_than"

lemma call_closer:
  assumes "finite_load g" and "callers g t = Some (c, op, st)"
    and "callers h = callers g" and "readers h = readers g"
    and "((stage_rank st', stage_bytes st'), (stage_rank st, stage_bytes st)) \<in> closer"
  shows "(left (stage_to t c op st' h), left g) \<in> closer \<and> finite_load (stage_to t c op st' h)"
proof -
  have fin: "finite (dom (callers g))" using assms(1) by (simp add: finite_load_def)
  from total_upd [OF fin assms(2), of "\<lambda>(c, op, st). stage_rank st" "(c, op, st')"]
    total_upd [OF fin assms(2), of "\<lambda>(c, op, st). stage_bytes st" "(c, op, st')"]
  show ?thesis using assms by (auto simp: left_def finite_load_def)
qed

lemma read_closer:
  assumes "finite_load g" and "readers g n = Some (c, q, rd)"
    and "readers h = readers g" and "callers h = callers g" and "reading_rank rd' < reading_rank rd"
  shows "(left (reading_to n c q rd' h), left g) \<in> closer \<and> finite_load (reading_to n c q rd' h)"
proof -
  have fin: "finite (dom (readers g))" using assms(1) by (simp add: finite_load_def)
  from total_upd [OF fin assms(2), of "\<lambda>(c, q, rd). reading_rank rd" "(c, q, rd')"]
  show ?thesis using assms by (auto simp: left_def finite_load_def)
qed

lemma disk_closer:
  assumes "race_step C f p s s'" and "tasks s = [t \<mapsto> (c, op, ph)]" and "tasks s' t = Some (c, op, ph')" and "on_disk ph"
  shows "((phase_rank ph', phase_bytes ph'), (phase_rank ph, phase_bytes ph)) \<in> closer"
  using assms by cases (auto split: if_splits)

lemma guarded_step_closer:
  assumes "guarded_step C f p grant g g'" and "finite_load g"
  shows "(left g', left g) \<in> closer \<and> finite_load g'"
  using assms(1)
proof cases
  case (file_operation t c op ph s ph')
  from disk_closer [OF file_operation(4) alone_simps(1) file_operation(5,3)]
  show ?thesis unfolding file_operation(1) by (intro call_closer [OF assms(2) file_operation(2)]) simp_all
next
  case (drop_write t c op q)
  have "stage_rank (Outside (after_mutation q)) < 7" by (auto simp: after_mutation_def split: sum.split)
  then show ?thesis unfolding drop_write(1) by (intro call_closer [OF assms(2) drop_write(2)]) simp_all
qed (hypsubst, rule call_closer [OF assms(2)] read_closer [OF assms(2)], assumption, simp, simp, simp)+


lemma no_endless_run:
  assumes "finite_load (run 0)" and "\<And>i. guarded_step C f p grant (run i) (run (Suc i))"
  shows False
proof -
  have fin: "finite_load (run i)" for i
    by (induction i) (use assms guarded_step_closer in \<open>blast+\<close>)
  then have "\<forall>i. (left (run (Suc i)), left (run i)) \<in> closer"
    using guarded_step_closer [OF assms(2)] by blast
  then have "\<exists>h. \<forall>i. (h (Suc i), h i) \<in> closer" by (rule exI [of _ "\<lambda>i. left (run i)"])
  moreover have "wf closer" by (intro wf_lex_prod wf_less_than)
  ultimately show False unfolding wf_iff_no_infinite_down_chain by blast
qed

text \<open>Whoever neither waits for the lock nor has come to the end can go on at once.\<close>

lemma call_goes_on:
  assumes "callers g t = Some (c, op, st)" and "stage_wants st = None" and "\<nexists>r. st = Outside (Returned r)" and "\<nexists>ph. st = Dropped ph"
  shows "\<exists>g'. guarded_step C f p grant g g'"
proof (cases st)
  case (Outside ph)
  show ?thesis
  proof (cases ph)
    case Waiting
    with Outside assms(1) show ?thesis by (blast intro: guarded_step.ask_write)
  next
    case (Mutated r)
    with Outside assms(1) show ?thesis by (blast intro: guarded_step.ask_read)
  next
    case (Snapped r bs)
    let ?a = "alone g t (c, op, ph)"
    have "race_step C f p ?a (goto t c op (Returned (Inl (Io (OtherIo ''full'')))) ?a)"
      by (rule race_step.create_fails) (simp add: Snapped)
    from file_operation [OF _ _ this] Snapped Outside assms(1) show ?thesis by auto
  next
    case (Writing r i off bs)
    let ?a = "alone g t (c, op, ph)"
    have "race_step C f p ?a (goto t c op (Returned (Inl (Io (OtherIo ''full'')))) ?a)"
      by (rule race_step.write_fails) (simp add: Writing)
    from file_operation [OF _ _ this] Writing Outside assms(1) show ?thesis by auto
  qed (use Outside assms(3) in blast)
next
  case Holding
  with assms(1) show ?thesis by (metis guarded_step.compute surj_pair)
next
  case (Cloned r doc)
  with assms(1) show ?thesis
    by (cases "serialize_doc C f doc") (blast intro: guarded_step.serialize guarded_step.serialize_fails)+
qed (use assms in \<open>auto intro: guarded_step.intros\<close>)

lemma read_goes_on:
  assumes "readers g n = Some (c, q, rd)" and "reading_wants rd = None" and "\<nexists>a. rd = Answered a" and "rd \<noteq> Forgotten"
  shows "\<exists>g'. guarded_step C f p grant g g'"
  using assms by (cases rd) (auto intro: guarded_step.ask_query guarded_step.answer)

lemma stuck_is_free:
  assumes "\<nexists>g'. guarded_step C f p grant g g'"
  shows "holds g = Map.empty"
proof
  fix x
  show "holds g x = None"
  proof (cases x)
    case (Caller t)
    have "stage_holds st = None" if "callers g t = Some (c, op, st)" for c op st
      using call_goes_on [OF that] assms by (cases st) auto
    with Caller show ?thesis by (cases "callers g t") auto
  next
    case (Reader n)
    have "reading_holds rd = None" if "readers g n = Some (c, q, rd)" for c q rd
      using read_goes_on [OF that] assms by (cases rd) auto
    with Reader show ?thesis by (cases "readers g n") auto
  qed
qed

lemma granted_goes_on:
  assumes "lock_ok grant" and "grant (holds g) (wants g) x"
  shows "\<exists>g'. guarded_step C f p grant g g'"
proof -
  obtain a k where w: "wants g x = Some (a, k)" using assms unfolding lock_ok_def by blast
  show ?thesis
  proof (cases x)
    case (Caller t)
    with w obtain c op st where t: "callers g t = Some (c, op, st)" "stage_wants st = Some (a, k)"
      by (auto simp: bind_eq_Some_conv)
    with Caller assms(2) show ?thesis
      by (cases st) (auto intro: guarded_step.take_write guarded_step.take_read)
  next
    case (Reader n)
    with w obtain c q rd where "readers g n = Some (c, q, rd)" "reading_wants rd = Some (a, k)"
      by (auto simp: bind_eq_Some_conv)
    with Reader assms(2) show ?thesis by (cases rd) (auto intro: guarded_step.take_query)
  qed
qed

definition all_over ::
  "(nat \<rightharpoonup> chrono_env \<times> store_op) \<Rightarrow> (nat \<rightharpoonup> chrono_env \<times> query) \<Rightarrow> guarded \<Rightarrow> bool" where
  "all_over calls queries g \<longleftrightarrow>
     (\<forall>t c op. calls t = Some (c, op) \<longrightarrow> 
          (\<exists>r. callers g t = Some (c, op, Outside (Returned r))) \<or> (\<exists>ph. callers g t = Some (c, op, Dropped ph)))
     \<and> (\<forall>n c q. queries n = Some (c, q) \<longrightarrow> 
          (\<exists>a. readers g n = Some (c, q, Answered a)) \<or> readers g n = Some (c, q, Forgotten))"

lemma same_calls_run:
  "guarded_steps C f p grant g g' \<Longrightarrow> callers g t = Some (c, op, st) \<Longrightarrow> \<exists>st'. callers g' t = Some (c, op, st')"
proof (induction rule: rtranclp_induct)
  case (step g1 g2)
  then obtain st1 where "callers g1 t = Some (c, op, st1)" by blast
  with step(2) show ?case by cases auto
qed blast

lemma stuck_is_done:
  assumes "lock_ok grant" and "guarded_steps C f p grant (guarded_start m d calls queries) g"
    and stuck: "\<nexists>g'. guarded_step C f p grant g g'"
  shows "all_over calls queries g"
proof -
  have "wants g = Map.empty"
    using assms(1) stuck granted_goes_on [OF assms(1)] stuck_is_free [OF stuck] unfolding lock_ok_def by metis
  then have w: "wants g x = None" for x by simp
  have "(\<exists>r. callers g t = Some (c, op, Outside (Returned r))) \<or> (\<exists>ph. callers g t = Some (c, op, Dropped ph))"
    if "calls t = Some (c, op)" for t c op
  proof -
    from that same_calls_run [OF assms(2), of t c op "Outside Waiting"]
    obtain st where t: "callers g t = Some (c, op, st)" by (auto simp: guarded_start_def)
    have "stage_wants st = None" using w [of "Caller t"] t by simp
    with call_goes_on [OF t] stuck have "(\<exists>r. st = Outside (Returned r)) \<or> (\<exists>ph. st = Dropped ph)" by metis
    with t show ?thesis by blast
  qed
  moreover have "(\<exists>a. readers g n = Some (c, q, Answered a)) \<or> readers g n = Some (c, q, Forgotten)"
    if "queries n = Some (c, q)" for n c q
  proof -
    from that same_reads_run [OF assms(2), of n c q Asked]
    obtain rd where n: "readers g n = Some (c, q, rd)" by (auto simp: guarded_start_def)
    have "reading_wants rd = None" using w [of "Reader n"] n by simp
    with read_goes_on [OF n] stuck have "(\<exists>a. rd = Answered a) \<or> rd = Forgotten" by metis
    with n show ?thesis by blast
  qed
  ultimately show ?thesis by (simp add: all_over_def)
qed




end
