(* ===== verification/Wire.thy ===== *)
theory Wire
  imports Prelude
begin

text \<open>
  The crate \<^verbatim>\<open>tailcfg\<close>: the protocol constants of \<^verbatim>\<open>protocol.rs\<close> and \<^verbatim>\<open>capver.rs\<close>, and the two
  server-emitted structs of \<^verbatim>\<open>key_exchange.rs\<close> with their derived JSON shape. The keys and
  their text codec come from the crate \<^verbatim>\<open>ts_keys\<close>, outside the repository, and are a parameter;
  a key is its 32 bytes. Writing and parsing JSON text belongs to \<^verbatim>\<open>serde_json\<close>; what the derived
  implementations hand to it and take from it is the tree type \<open>json\<close>.
\<close>


subsection \<open>Protocol constants\<close>

definition min_supported_capability_version :: u16 where
  "min_supported_capability_version = 113"

declare min_supported_capability_version_def [noise_simps]

definition path_key :: string where
  "path_key = ''/key''"

definition path_ts2021 :: string where
  "path_ts2021 = ''/ts2021''"

definition path_machine_register :: string where
  "path_machine_register = ''/machine/register''"

definition path_machine_map :: string where
  "path_machine_map = ''/machine/map''"

definition upgrade_ts2021 :: string where
  "upgrade_ts2021 = ''tailscale-control-protocol''"

definition early_noise_magic :: bytes where
  "early_noise_magic = [0xFF, 0xFF, 0xFF] @ str_bytes ''TS''"

definition keepalive_interval_secs :: u64 where
  "keepalive_interval_secs = 50"


subsection \<open>Keys\<close>

type_synonym key = bytes

record key_lib =
  mkey_default :: key
  mkey_text :: "key \<Rightarrow> string"
  mkey_parse :: "string \<Rightarrow> key option"
  chalpub_text :: "key \<Rightarrow> string"
  chalpub_parse :: "string \<Rightarrow> key option"

text \<open>
  The documented behaviour of the text codec: a key of 32 bytes prints as a prefix and 64
  lowercase hexadecimal digits, and parses back.
\<close>

definition hex_digit :: "nat \<Rightarrow> char" where
  "hex_digit n = ''0123456789abcdef'' ! (n mod 16)"

definition hex :: "bytes \<Rightarrow> string" where
  "hex bs = concat (map (\<lambda>b. [hex_digit (unat b div 16), hex_digit (unat b)]) bs)"

definition key_text_ok :: "key_lib \<Rightarrow> bool" where
  "key_text_ok K \<longleftrightarrow>
     (\<forall>k. length k = 32 \<longrightarrow>
        mkey_text K k = ''mkey:'' @ hex k \<and> mkey_parse K (mkey_text K k) = Some k
        \<and> chalpub_text K k = ''chalpub:'' @ hex k \<and> chalpub_parse K (chalpub_text K k) = Some k)
     \<and> mkey_default K = replicate 32 0"

lemma length_hex [simp]: "length (hex bs) = 2 * length bs"
  by (induction bs) (simp_all add: hex_def)


subsection \<open>Structs and their derived JSON\<close>

datatype json = JStr string | JArr "json list" | JObj "(string \<times> json) list"

record over_tls_public_key_response =
  legacy_public_key :: key
  public_key :: key

definition over_tls_new :: "key_lib \<Rightarrow> key \<Rightarrow> over_tls_public_key_response" where
  "over_tls_new K pk = \<lparr>legacy_public_key = mkey_default K, public_key = pk\<rparr>"

record early_noise =
  node_key_challenge :: key

text \<open>
  \<^verbatim>\<open>#[serde(rename_all = "PascalCase")]\<close>: a field's underscores go, and the letter after one,
  like the first, becomes uppercase.
\<close>

definition ascii_uppercase :: "char \<Rightarrow> char" where
  "ascii_uppercase c =
     (let n = (of_char c :: nat) in if 97 \<le> n \<and> n \<le> 122 then char_of (n - 32) else c)"

fun pascal :: "bool \<Rightarrow> string \<Rightarrow> string" where
  "pascal up [] = []"
| "pascal up (c # cs) =
     (if c = CHR ''_'' then pascal True cs
      else (if up then ascii_uppercase c else c) # pascal False cs)"

definition pascal_case :: "string \<Rightarrow> string" where
  "pascal_case s = pascal True s"

definition over_tls_to_json :: "key_lib \<Rightarrow> over_tls_public_key_response \<Rightarrow> json" where
  "over_tls_to_json K r =
     JObj [(pascal_case ''legacy_public_key'', JStr (mkey_text K (legacy_public_key r))),
           (pascal_case ''public_key'', JStr (mkey_text K (public_key r)))]"

definition early_noise_to_json :: "key_lib \<Rightarrow> early_noise \<Rightarrow> json" where
  "early_noise_to_json K e =
     JObj [(pascal_case ''node_key_challenge'', JStr (chalpub_text K (node_key_challenge e)))]"

text \<open>
  A derived \<^verbatim>\<open>Deserialize\<close> takes an object, where each field must occur exactly once and other
  keys are ignored, or an array with the fields in their order.
\<close>

definition json_field :: "string \<Rightarrow> (string \<times> json) list \<Rightarrow> json option" where
  "json_field k kvs = (case filter (\<lambda>kv. fst kv = k) kvs of [kv] \<Rightarrow> Some (snd kv) | _ \<Rightarrow> None)"

definition json_key :: "(string \<Rightarrow> key option) \<Rightarrow> json option \<Rightarrow> key option" where
  "json_key parse j = (case j of Some (JStr s) \<Rightarrow> parse s | _ \<Rightarrow> None)"

definition over_tls_of_fields ::
  "key_lib \<Rightarrow> json option \<Rightarrow> json option \<Rightarrow> over_tls_public_key_response option" where
  "over_tls_of_fields K l p =
     Option.bind (json_key (mkey_parse K) l) (\<lambda>lk.
       Option.bind (json_key (mkey_parse K) p) (\<lambda>pk.
         Some \<lparr>legacy_public_key = lk, public_key = pk\<rparr>))"

fun over_tls_from_json :: "key_lib \<Rightarrow> json \<Rightarrow> over_tls_public_key_response option" where
  "over_tls_from_json K (JObj kvs) =
     over_tls_of_fields K (json_field (pascal_case ''legacy_public_key'') kvs)
       (json_field (pascal_case ''public_key'') kvs)"
| "over_tls_from_json K (JArr [l, p]) = over_tls_of_fields K (Some l) (Some p)"
| "over_tls_from_json K _ = None"

fun early_noise_from_json :: "key_lib \<Rightarrow> json \<Rightarrow> early_noise option" where
  "early_noise_from_json K (JObj kvs) =
     map_option (\<lambda>k. \<lparr>node_key_challenge = k\<rparr>)
       (json_key (chalpub_parse K) (json_field (pascal_case ''node_key_challenge'') kvs))"
| "early_noise_from_json K (JArr [c]) =
     map_option (\<lambda>k. \<lparr>node_key_challenge = k\<rparr>) (json_key (chalpub_parse K) (Some c))"
| "early_noise_from_json K _ = None"

lemma pascal_names:
  "pascal_case ''legacy_public_key'' = ''LegacyPublicKey''"
  "pascal_case ''public_key'' = ''PublicKey''"
  "pascal_case ''node_key_challenge'' = ''NodeKeyChallenge''"
  by code_simp+


subsection \<open>JSON text\<close>

text \<open>
  The text \<^verbatim>\<open>serde_json::to_string\<close> gives a tree: no white space, fields in their order. Strings
  with a character that needs an escape are outside of what is stated here; the keys and field
  names of this program have none.
\<close>

definition plain_char :: "char \<Rightarrow> bool" where
  "plain_char c \<longleftrightarrow> 32 \<le> (of_char c :: nat) \<and> (of_char c :: nat) < 127 \<and> c \<noteq> CHR 0x22 \<and> c \<noteq> CHR 0x5C"

definition json_quote :: "string \<Rightarrow> string" where
  "json_quote s = CHR 0x22 # s @ [CHR 0x22]"

fun commas :: "string list \<Rightarrow> string" where
  "commas [] = []"
| "commas [x] = x"
| "commas (x # y # xs) = x @ CHR '','' # commas (y # xs)"

fun json_text :: "json \<Rightarrow> string" where
  "json_text (JStr s) = json_quote s"
| "json_text (JArr js) = CHR ''['' # commas (map json_text js) @ '']''"
| "json_text (JObj kvs) =
     CHR ''{'' # commas (map (\<lambda>kv. json_quote (fst kv) @ CHR '':'' # json_text (snd kv)) kvs) @ ''}''"

fun plain_json :: "json \<Rightarrow> bool" where
  "plain_json (JStr s) = list_all plain_char s"
| "plain_json (JArr js) = list_all plain_json js"
| "plain_json (JObj kvs) = list_all (\<lambda>kv. list_all plain_char (fst kv) \<and> plain_json (snd kv)) kvs"

record json_lib =
  js_to_vec :: "json \<Rightarrow> string + bytes"
  js_from_slice :: "bytes \<Rightarrow> json option"

text \<open>The documented behaviour on a plain tree: it is written as its text, and the text reads back.\<close>

definition json_ok_for :: "json_lib \<Rightarrow> json \<Rightarrow> bool" where
  "json_ok_for J j \<longleftrightarrow>
     (plain_json j \<longrightarrow>
        js_to_vec J j = Inr (str_bytes (json_text j))
        \<and> js_from_slice J (str_bytes (json_text j)) = Some j)"

lemma plain_hex_digit: "plain_char (hex_digit n)"
proof -
  have "list_all plain_char ''0123456789abcdef''" by (simp add: plain_char_def)
  moreover have "hex_digit n \<in> set ''0123456789abcdef''"
    unfolding hex_digit_def by (rule nth_mem) simp
  ultimately show ?thesis unfolding list_all_iff by blast
qed

lemma plain_hex: "list_all plain_char (hex bs)"
  by (induction bs) (simp_all add: hex_def plain_hex_digit)

lemma key_text_okD:
  assumes "key_text_ok K" and "length k = 32"
  shows "mkey_text K k = ''mkey:'' @ hex k" "mkey_parse K (''mkey:'' @ hex k) = Some k"
    "chalpub_text K k = ''chalpub:'' @ hex k" "chalpub_parse K (''chalpub:'' @ hex k) = Some k"
    "mkey_default K = replicate 32 0"
  using assms unfolding key_text_ok_def by metis+

text \<open>The texts of the two server-emitted structs.\<close>

lemma over_tls_text:
  assumes "key_text_ok K" and "length k = 32"
  shows "json_text (over_tls_to_json K (over_tls_new K k))
      = ''{'' @ json_quote ''LegacyPublicKey'' @ '':'' @ json_quote (''mkey:'' @ hex (replicate 32 0))
        @ '','' @ json_quote ''PublicKey'' @ '':'' @ json_quote (''mkey:'' @ hex k) @ ''}''"
    and "plain_json (over_tls_to_json K (over_tls_new K k))"
    and "over_tls_from_json K (over_tls_to_json K (over_tls_new K k)) = Some (over_tls_new K k)"
  using key_text_okD [OF assms] key_text_okD [OF assms(1), of "replicate 32 0"] plain_hex
  by (simp_all add: over_tls_to_json_def over_tls_new_def pascal_names plain_char_def
      over_tls_of_fields_def json_field_def json_key_def)

lemma early_noise_text:
  assumes "key_text_ok K" and "length (node_key_challenge e) = 32"
  shows "json_text (early_noise_to_json K e)
      = ''{'' @ json_quote ''NodeKeyChallenge'' @ '':''
        @ json_quote (''chalpub:'' @ hex (node_key_challenge e)) @ ''}''"
    and "plain_json (early_noise_to_json K e)"
    and "early_noise_from_json K (early_noise_to_json K e) = Some e"
    and "length (json_text (early_noise_to_json K e)) = 95"
  using key_text_okD [OF assms] plain_hex assms(2)
  by (simp_all add: early_noise_to_json_def pascal_names plain_char_def json_field_def json_key_def json_quote_def)

end
