(* ===== verification/Framed_Io.thy ===== *)
theory Framed_Io
  imports Prelude
begin

text \<open>
  \<^verbatim>\<open>FramedIo\<close> of \<^verbatim>\<open>noise/src/framed_io.rs\<close>: a stream of chunks and a sink of frames turned into a
  byte reader and writer. The inner transport is a parameter, the record of its poll functions.
  \<open>poll_fill_buf\<close> loops until the transport hands it a non-empty chunk, which an unkind transport
  may never do: it is a \<^theory_text>\<open>partial_function\<close>, and \<open>None\<close> is the loop that does not end. A panic
  is a value of its own.
\<close>


subsection \<open>The transport and the adapter\<close>

text \<open>\<open>tr_into\<close> is the conversion of the transport's error type into an I/O error.\<close>

record ('e, 't) transport =
  tr_into :: "'e \<Rightarrow> io_error"
  tr_poll_next :: "'t \<Rightarrow> ('e + bytes) option poll \<times> 't"
  tr_poll_ready :: "'t \<Rightarrow> ('e + unit) poll \<times> 't"
  tr_start_send :: "bytes \<Rightarrow> 't \<Rightarrow> ('e + unit) \<times> 't"
  tr_poll_flush :: "'t \<Rightarrow> ('e + unit) poll \<times> 't"
  tr_poll_close :: "'t \<Rightarrow> ('e + unit) poll \<times> 't"

record 't framed_io =
  inner :: 't
  chunk :: "bytes option"

definition framed_new :: "'t \<Rightarrow> 't framed_io" where
  "framed_new t = \<lparr>inner = t, chunk = None\<rparr>"

definition has_chunk :: "'t framed_io \<Rightarrow> bool" where
  "has_chunk f = (case chunk f of Some c \<Rightarrow> 0 < length c | None \<Rightarrow> False)"

partial_function (option) poll_fill_buf ::
  "('e, 't) transport \<Rightarrow> 't framed_io \<Rightarrow> ((io_error + bytes) poll \<times> 't framed_io) option" where
  "poll_fill_buf T f =
     (if has_chunk f then Some (Ready (Inr (the (chunk f))), f)
      else
        (case tr_poll_next T (inner f) of
           (Ready (Some (Inr c)), t) \<Rightarrow> poll_fill_buf T (f\<lparr>inner := t, chunk := Some c\<rparr>)
         | (Ready (Some (Inl e)), t) \<Rightarrow> Some (Ready (Inl (tr_into T e)), f\<lparr>inner := t\<rparr>)
         | (Ready None, t) \<Rightarrow> Some (Ready (Inr []), f\<lparr>inner := t\<rparr>)
         | (Pending, t) \<Rightarrow> Some (Pending, f\<lparr>inner := t\<rparr>)))"

text \<open>
  \<^verbatim>\<open>consume\<close>: \<open>None\<close> is the panic, of \<^verbatim>\<open>expect("No chunk present")\<close> or of an \<^verbatim>\<open>advance\<close> past the end
  of the chunk.
\<close>

definition framed_consume :: "nat \<Rightarrow> 't framed_io \<Rightarrow> 't framed_io option" where
  "framed_consume amt f =
     (if 0 < amt then
        (case chunk f of
           None \<Rightarrow> None
         | Some c \<Rightarrow> if amt \<le> length c then Some (f\<lparr>chunk := Some (drop amt c)\<rparr>) else None)
      else Some f)"

text \<open>tokio's \<^verbatim>\<open>ReadBuf\<close>: what is filled so far and the capacity; \<^verbatim>\<open>put_slice\<close> panics past it.\<close>

record read_buf =
  filled :: bytes
  capacity :: nat

definition remaining :: "read_buf \<Rightarrow> nat" where
  "remaining b = capacity b - length (filled b)"

definition put_slice :: "bytes \<Rightarrow> read_buf \<Rightarrow> read_buf option" where
  "put_slice bs b = (if length bs \<le> remaining b then Some (b\<lparr>filled := filled b @ bs\<rparr>) else None)"

datatype 'a exec = Diverges | Panics | Finished 'a

definition poll_read ::
  "('e, 't) transport \<Rightarrow> 't framed_io \<Rightarrow> read_buf
     \<Rightarrow> ((io_error + unit) poll \<times> read_buf \<times> 't framed_io) exec" where
  "poll_read T f buf =
     (if remaining buf = 0 then Finished (Ready (Inr ()), buf, f)
      else
        (case poll_fill_buf T f of
           None \<Rightarrow> Diverges
         | Some (Ready (Inl e), f1) \<Rightarrow> Finished (Ready (Inl e), buf, f1)
         | Some (Pending, f1) \<Rightarrow> Finished (Pending, buf, f1)
         | Some (Ready (Inr inner_buf), f1) \<Rightarrow>
             let len = min (length inner_buf) (remaining buf) in
             (case put_slice (take len inner_buf) buf of
                None \<Rightarrow> Panics
              | Some buf1 \<Rightarrow>
                  (case framed_consume len f1 of
                     None \<Rightarrow> Panics
                   | Some f2 \<Rightarrow> Finished (Ready (Inr ()), buf1, f2)))))"

definition poll_write ::
  "('e, 't) transport \<Rightarrow> 't framed_io \<Rightarrow> bytes \<Rightarrow> (io_error + nat) poll \<times> 't framed_io" where
  "poll_write T f buf =
     (case tr_poll_ready T (inner f) of
        (Pending, t) \<Rightarrow> (Pending, f\<lparr>inner := t\<rparr>)
      | (Ready (Inl e), t) \<Rightarrow> (Ready (Inl (tr_into T e)), f\<lparr>inner := t\<rparr>)
      | (Ready (Inr _), t) \<Rightarrow>
          (case tr_start_send T buf t of
             (Inr _, t1) \<Rightarrow> (Ready (Inr (length buf)), f\<lparr>inner := t1\<rparr>)
           | (Inl e, t1) \<Rightarrow> (Ready (Inl (tr_into T e)), f\<lparr>inner := t1\<rparr>)))"

definition map_poll :: "('a \<Rightarrow> 'b) \<Rightarrow> 'a poll \<Rightarrow> 'b poll" where
  "map_poll g p = (case p of Pending \<Rightarrow> Pending | Ready a \<Rightarrow> Ready (g a))"

definition framed_poll_flush ::
  "('e, 't) transport \<Rightarrow> 't framed_io \<Rightarrow> (io_error + unit) poll \<times> 't framed_io" where
  "framed_poll_flush T f =
     (let (p, t) = tr_poll_flush T (inner f) in (map_poll (map_err (tr_into T)) p, f\<lparr>inner := t\<rparr>))"

definition framed_poll_shutdown ::
  "('e, 't) transport \<Rightarrow> 't framed_io \<Rightarrow> (io_error + unit) poll \<times> 't framed_io" where
  "framed_poll_shutdown T f =
     (let (p, t) = tr_poll_close T (inner f) in (map_poll (map_err (tr_into T)) p, f\<lparr>inner := t\<rparr>))"


subsection \<open>The read side\<close>

text \<open>
  A byte source: a successful read appends the next bytes of what is left, at most as many as
  fit, and any other outcome moves nothing.
\<close>

locale byte_source =
  fixes rd :: "'r \<Rightarrow> read_buf \<Rightarrow> ((io_error + unit) poll \<times> read_buf \<times> 'r) exec"
    and left :: "'r \<Rightarrow> bytes"
  assumes rd_no_panic: "rd r b \<noteq> Panics"
    and rd_ok: "rd r b = Finished (Ready (Inr ()), b', r') \<Longrightarrow>
      \<exists>bs. b' = b\<lparr>filled := filled b @ bs\<rparr> \<and> length bs \<le> remaining b \<and> left r = bs @ left r'"
    and rd_other: "rd r b = Finished (p, b', r') \<Longrightarrow> p \<noteq> Ready (Inr ()) \<Longrightarrow> b' = b \<and> left r' = left r"

text \<open>
  A reader that polls with fresh buffers of the given capacities and collects what it gets.
  \<open>None\<close>: some poll did not come back.
\<close>

fun read_polls ::
  "('r \<Rightarrow> read_buf \<Rightarrow> ((io_error + unit) poll \<times> read_buf \<times> 'r) exec) \<Rightarrow> nat list \<Rightarrow> 'r
     \<Rightarrow> (bytes \<times> 'r) option" where
  "read_polls rd [] r = Some ([], r)"
| "read_polls rd (n # ns) r =
     (case rd r \<lparr>filled = [], capacity = n\<rparr> of
        Finished (p, b, r1) \<Rightarrow> map_option (apfst ((@) (filled b))) (read_polls rd ns r1)
      | _ \<Rightarrow> None)"

context byte_source
begin

text \<open>Over any sequence of polls no byte is lost, repeated or reordered.\<close>

lemma read_polls_conserve:
  "read_polls rd ns r = Some (bs, r') \<Longrightarrow> left r = bs @ left r'"
proof (induction ns arbitrary: r bs)
  case (Cons n ns)
  let ?b = "\<lparr>filled = [], capacity = n\<rparr>"
  from Cons.prems obtain p b r1 cs where rd: "rd r ?b = Finished (p, b, r1)"
    and rest: "read_polls rd ns r1 = Some (cs, r')" and bs: "bs = filled b @ cs"
    by (auto split: exec.splits prod.splits)
  have "left r1 = cs @ left r'" using rest by (rule Cons.IH)
  moreover have "left r = filled b @ left r1"
  proof (cases "p = Ready (Inr ())")
    case True
    with rd rd_ok [of r ?b b r1] show ?thesis by auto
  next
    case False
    with rd rd_other [of r ?b p b r1] show ?thesis by simp
  qed
  ultimately show ?case using bs by simp
qed simp

end

text \<open>
  A chunk stream: the transport's \<^verbatim>\<open>poll_next\<close> yields the chunks of the bytes it still has.
\<close>

locale chunk_stream =
  fixes T :: "('e, 't) transport"
    and pending_bytes :: "'t \<Rightarrow> bytes"
  assumes next_chunk: "tr_poll_next T t = (Ready (Some (Inr c)), t') \<Longrightarrow> pending_bytes t = c @ pending_bytes t'"
    and next_other: "tr_poll_next T t = (p, t') \<Longrightarrow> \<forall>c. p \<noteq> Ready (Some (Inr c)) \<Longrightarrow>
      pending_bytes t' = pending_bytes t"

definition chunk_bytes :: "'t framed_io \<Rightarrow> bytes" where
  "chunk_bytes f = (case chunk f of None \<Rightarrow> [] | Some c \<Rightarrow> c)"

lemma has_chunk_iff: "has_chunk f \<longleftrightarrow> chunk_bytes f \<noteq> []"
  by (auto simp: has_chunk_def chunk_bytes_def split: option.splits)

lemma has_chunkD: "has_chunk f \<Longrightarrow> the (chunk f) = chunk_bytes f"
  by (auto simp: has_chunk_def chunk_bytes_def split: option.splits)

text \<open>An induction over the rounds of the loop that found the result.\<close>

lemma fill_buf_induct:
  assumes ret: "poll_fill_buf T f = Some r"
    and has: "\<And>f. has_chunk f \<Longrightarrow> P f (Ready (Inr (chunk_bytes f)), f)"
    and eof: "\<And>f t. \<not> has_chunk f \<Longrightarrow> tr_poll_next T (inner f) = (Ready None, t) \<Longrightarrow>
      P f (Ready (Inr []), f\<lparr>inner := t\<rparr>)"
    and err: "\<And>f t e. \<not> has_chunk f \<Longrightarrow> tr_poll_next T (inner f) = (Ready (Some (Inl e)), t) \<Longrightarrow>
      P f (Ready (Inl (tr_into T e)), f\<lparr>inner := t\<rparr>)"
    and pend: "\<And>f t. \<not> has_chunk f \<Longrightarrow> tr_poll_next T (inner f) = (Pending, t) \<Longrightarrow>
      P f (Pending, f\<lparr>inner := t\<rparr>)"
    and round: "\<And>f c t r. \<not> has_chunk f \<Longrightarrow> tr_poll_next T (inner f) = (Ready (Some (Inr c)), t) \<Longrightarrow>
      P (f\<lparr>inner := t, chunk := Some c\<rparr>) r \<Longrightarrow> P f r"
  shows "P f r"
proof -
  have "T = T \<longrightarrow> P f r"
  proof (rule poll_fill_buf.raw_induct [where P = "\<lambda>T' f r. T' = T \<longrightarrow> P f r", OF _ ret])
    fix pf T' f' r'
    assume IH: "\<And>T1 f1 r1. pf T1 f1 = Some r1 \<Longrightarrow> T1 = T \<longrightarrow> P f1 r1"
      and eq: "(if has_chunk f' then Some (Ready (Inr (the (chunk f'))), f')
        else case tr_poll_next T' (inner f') of
           (Ready (Some (Inr c)), t) \<Rightarrow> pf T' (f'\<lparr>inner := t, chunk := Some c\<rparr>)
         | (Ready (Some (Inl e)), t) \<Rightarrow> Some (Ready (Inl (tr_into T' e)), f'\<lparr>inner := t\<rparr>)
         | (Ready None, t) \<Rightarrow> Some (Ready (Inr []), f'\<lparr>inner := t\<rparr>)
         | (Pending, t) \<Rightarrow> Some (Pending, f'\<lparr>inner := t\<rparr>)) = Some r'"
    show "T' = T \<longrightarrow> P f' r'"
    proof (intro impI, cases "has_chunk f'")
      case True
      with eq has show "P f' r'" by (auto simp: has_chunkD)
    next
      case False
      assume T: "T' = T"
      obtain p t where n: "tr_poll_next T (inner f') = (p, t)" by (cases "tr_poll_next T (inner f')")
      show "P f' r'"
      proof (cases "\<exists>c. p = Ready (Some (Inr c))")
        case True
        then obtain c where c: "p = Ready (Some (Inr c))" ..
        with eq False T n have "pf T (f'\<lparr>inner := t, chunk := Some c\<rparr>) = Some r'" by simp
        then have "P (f'\<lparr>inner := t, chunk := Some c\<rparr>) r'" using IH by blast
        with False n c show ?thesis by (blast intro: round)
      next
        case other: False
        with eq False T n show ?thesis
          by (auto split: poll.splits option.splits sum.splits intro: eof err pend)
      qed
    qed
  qed
  then show ?thesis by simp
qed

text \<open>Whatever the transport, a returned buffer is what is left of the adapter's chunk.\<close>

lemma fill_buf_chunk:
  assumes "poll_fill_buf T f = Some (Ready (Inr bs), f')"
  shows "chunk_bytes f' = bs"
proof -
  have "\<forall>bs. fst r = Ready (Inr bs) \<longrightarrow> chunk_bytes (snd r) = bs"
    if "poll_fill_buf T f = Some r" for r
    using that by (rule fill_buf_induct) (auto simp: has_chunk_def chunk_bytes_def split: option.splits)
  with assms show ?thesis by fastforce
qed

lemma put_slice_fits: "length bs \<le> remaining b \<Longrightarrow> put_slice bs b = Some (b\<lparr>filled := filled b @ bs\<rparr>)"
  by (simp add: put_slice_def)

lemma consume_within:
  "amt \<le> length (chunk_bytes f) \<Longrightarrow>
     \<exists>f'. framed_consume amt f = Some f' \<and> inner f' = inner f \<and> chunk_bytes f' = drop amt (chunk_bytes f)"
  by (auto simp: framed_consume_def chunk_bytes_def split: option.splits)

text \<open>A read, by the outcome of the loop.\<close>

lemma poll_read_ready:
  assumes "remaining b \<noteq> 0" and "poll_fill_buf T f = Some (Ready (Inr bs), f1)"
  shows "\<exists>f2. poll_read T f b
      = Finished (Ready (Inr ()), b\<lparr>filled := filled b @ take (min (length bs) (remaining b)) bs\<rparr>, f2)
    \<and> inner f2 = inner f1 \<and> chunk_bytes f2 = drop (min (length bs) (remaining b)) bs"
proof -
  let ?n = "min (length bs) (remaining b)"
  have c: "chunk_bytes f1 = bs" using assms(2) by (rule fill_buf_chunk)
  then obtain f2 where "framed_consume ?n f1 = Some f2" "inner f2 = inner f1"
    "chunk_bytes f2 = drop ?n bs"
    using consume_within [of ?n f1] by auto
  with assms show ?thesis by (simp add: poll_read_def Let_def put_slice_fits)
qed

lemma poll_read_never_panics: "poll_read T f b \<noteq> Panics"
proof (cases "remaining b \<noteq> 0 \<and> (\<exists>bs f1. poll_fill_buf T f = Some (Ready (Inr bs), f1))")
  case True
  then obtain bs f1 where "remaining b \<noteq> 0" "poll_fill_buf T f = Some (Ready (Inr bs), f1)" by blast
  from poll_read_ready [OF this] show ?thesis by auto
next
  case False
  then show ?thesis by (auto simp: poll_read_def split: option.splits poll.splits sum.splits)
qed

definition framed_left :: "('t \<Rightarrow> bytes) \<Rightarrow> 't framed_io \<Rightarrow> bytes" where
  "framed_left pb f = chunk_bytes f @ pb (inner f)"

context chunk_stream
begin

lemma fill_buf_conserves:
  assumes "poll_fill_buf T f = Some r"
  shows "framed_left pending_bytes (snd r) = framed_left pending_bytes f"
  using assms
proof (rule fill_buf_induct)
  fix f c t r
  assume "\<not> has_chunk f" and "tr_poll_next T (inner f) = (Ready (Some (Inr c)), t)"
    and "framed_left pending_bytes (snd r)
      = framed_left pending_bytes (f\<lparr>inner := t, chunk := Some c\<rparr>)"
  then show "framed_left pending_bytes (snd r) = framed_left pending_bytes f"
    using next_chunk by (simp add: framed_left_def chunk_bytes_def has_chunk_iff)
qed (auto simp: framed_left_def chunk_bytes_def dest: next_other)

end

text \<open>Over a chunk stream, \<^verbatim>\<open>FramedIo\<close> is a byte source.\<close>

sublocale chunk_stream \<subseteq> framed: byte_source "poll_read T" "framed_left pending_bytes"
proof (unfold_locales, goal_cases)
  case (1 r b)
  show ?case by (rule poll_read_never_panics)
next
  case (2 f b b' f')
  show ?case
  proof (cases "remaining b = 0")
    case True
    with 2 show ?thesis by (intro exI [of _ "[]"]) (simp add: poll_read_def)
  next
    case False
    then obtain bs f1 where fb: "poll_fill_buf T f = Some (Ready (Inr bs), f1)"
      using 2 by (auto simp: poll_read_def split: option.splits poll.splits sum.splits)
    let ?n = "min (length bs) (remaining b)"
    obtain f2 where pr: "poll_read T f b
        = Finished (Ready (Inr ()), b\<lparr>filled := filled b @ take ?n bs\<rparr>, f2)"
      and f2: "inner f2 = inner f1" "chunk_bytes f2 = drop ?n bs"
      using poll_read_ready [OF False fb] by blast
    have "framed_left pending_bytes f = framed_left pending_bytes f1"
      using fill_buf_conserves [OF fb] by simp
    also have "\<dots> = take ?n bs @ framed_left pending_bytes f2"
      using fill_buf_chunk [OF fb] f2 by (simp add: framed_left_def flip: append_assoc)
    finally show ?thesis using 2 pr by (intro exI [of _ "take ?n bs"]) simp
  qed
next
  case (3 f b p b' f')
  then have "remaining b \<noteq> 0" by (cases "remaining b = 0") (auto simp: poll_read_def)
  with 3 obtain q f1 where fb: "poll_fill_buf T f = Some (q, f1)" and "b' = b" "f' = f1"
  proof (cases "poll_fill_buf T f")
    case (Some r)
    obtain q f1 where r: "r = (q, f1)" by (cases r)
    show ?thesis
    proof (cases "\<exists>bs. q = Ready (Inr bs)")
      case True
      with Some r poll_read_ready [OF \<open>remaining b \<noteq> 0\<close>] 3 show ?thesis by fastforce
    next
      case False
      with Some r 3 \<open>remaining b \<noteq> 0\<close> that [OF Some [unfolded r]] show ?thesis
        by (auto simp: poll_read_def split: poll.splits sum.splits)
    qed
  qed (simp add: poll_read_def)
  with fill_buf_conserves [OF fb] show ?case by simp
qed

text \<open>
  The loop ends when the transport cannot hand out empty chunks for ever, and does not when it
  hands out nothing else.
\<close>

lemma fill_buf_step:
  "\<not> has_chunk f \<Longrightarrow> tr_poll_next T (inner f) = (Ready (Some (Inr c)), t) \<Longrightarrow>
     poll_fill_buf T f = poll_fill_buf T (f\<lparr>inner := t, chunk := Some c\<rparr>)"
  by (simp add: poll_fill_buf.simps [of T f])

lemma fill_buf_stop:
  "has_chunk f \<or> (\<forall>c t. tr_poll_next T (inner f) \<noteq> (Ready (Some (Inr c)), t)) \<Longrightarrow>
     \<exists>r. poll_fill_buf T f = Some r"
  by (subst poll_fill_buf.simps)
    (auto split: prod.split poll.split option.split sum.split)

lemma fill_buf_returns:
  fixes m :: "'t \<Rightarrow> nat"
  assumes "\<And>t t'. tr_poll_next T t = (Ready (Some (Inr [])), t') \<Longrightarrow> m t' < m t"
  shows "\<exists>r. poll_fill_buf T f = Some r"
proof (induction "m (inner f)" arbitrary: f rule: less_induct)
  case less
  show ?case
  proof (cases "has_chunk f \<or> (\<forall>c t. tr_poll_next T (inner f) \<noteq> (Ready (Some (Inr c)), t))")
    case True
    then show ?thesis by (rule fill_buf_stop)
  next
    case False
    then obtain c t where n: "\<not> has_chunk f" "tr_poll_next T (inner f) = (Ready (Some (Inr c)), t)"
      by blast
    let ?f1 = "f\<lparr>inner := t, chunk := Some c\<rparr>"
    have "\<exists>r. poll_fill_buf T ?f1 = Some r"
    proof (cases "c = []")
      case True
      with n assms have "m (inner ?f1) < m (inner f)" by simp
      then show ?thesis by (rule less)
    next
      case False
      then have "has_chunk ?f1" by (simp add: has_chunk_def)
      then show ?thesis by (intro fill_buf_stop disjI1)
    qed
    with fill_buf_step [OF n] show ?thesis by simp
  qed
qed

lemma fill_buf_diverges:
  assumes "\<And>t. \<exists>t'. tr_poll_next T t = (Ready (Some (Inr [])), t')" and "\<not> has_chunk f"
  shows "poll_fill_buf T f = None"
proof (rule ccontr)
  have empty: "tr_poll_next T t = (p, t') \<Longrightarrow> p = Ready (Some (Inr []))" for t p t'
    using assms(1) [of t] by auto
  assume "poll_fill_buf T f \<noteq> None"
  then obtain r where "poll_fill_buf T f = Some r" by blast
  then have "has_chunk f"
  proof (rule fill_buf_induct)
    fix f c t r
    assume n: "tr_poll_next T (inner f) = (Ready (Some (Inr c)), t)"
      and "has_chunk (f\<lparr>inner := t, chunk := Some c\<rparr>)"
    moreover have "c = []" using assms(1) [of "inner f"] n by auto
    ultimately show "has_chunk f" by (simp add: has_chunk_def)
  qed (auto dest: empty)
  with assms(2) show False by contradiction
qed


subsection \<open>The write side\<close>

text \<open>
  A byte sink: an accepted write takes a prefix of the buffer, any other outcome takes nothing.
\<close>

locale byte_sink =
  fixes wr :: "'s \<Rightarrow> bytes \<Rightarrow> (io_error + nat) poll \<times> 's"
    and out :: "'s \<Rightarrow> bytes"
  assumes wr_ok: "wr s bs = (Ready (Inr n), s') \<Longrightarrow> n \<le> length bs \<and> out s' = out s @ take n bs"
    and wr_other: "wr s bs = (p, s') \<Longrightarrow> \<forall>n. p \<noteq> Ready (Inr n) \<Longrightarrow> out s' = out s"

text \<open>
  tokio's \<^verbatim>\<open>AsyncWriteExt\<close> on a poll-level writer, as documented: \<^verbatim>\<open>write_all\<close> writes until the
  buffer is used up, and a write of zero bytes is an error; an operation that is pending is
  polled again. \<open>None\<close>: the future never completes.
\<close>

partial_function (option) write_all_polls ::
  "('s \<Rightarrow> bytes \<Rightarrow> (io_error + nat) poll \<times> 's) \<Rightarrow> 's \<Rightarrow> bytes \<Rightarrow> ((io_error + unit) \<times> 's) option" where
  "write_all_polls wr s bs =
     (if bs = [] then Some (Inr (), s)
      else
        (case wr s bs of
           (Pending, s1) \<Rightarrow> write_all_polls wr s1 bs
         | (Ready (Inl e), s1) \<Rightarrow> Some (Inl e, s1)
         | (Ready (Inr n), s1) \<Rightarrow>
             if n = 0 then Some (Inl (OtherIo ''write zero''), s1)
             else write_all_polls wr s1 (drop n bs)))"

partial_function (option) await_poll ::
  "('s \<Rightarrow> 'r poll \<times> 's) \<Rightarrow> 's \<Rightarrow> ('r \<times> 's) option" where
  "await_poll p s =
     (case p s of (Pending, s1) \<Rightarrow> await_poll p s1 | (Ready r, s1) \<Rightarrow> Some (r, s1))"

lemma write_all_induct:
  assumes ret: "write_all_polls wr s bs = Some q"
    and fin: "\<And>s. P s [] (Inr (), s)"
    and pend: "\<And>s s1 bs q. wr s bs = (Pending, s1) \<Longrightarrow> P s1 bs q \<Longrightarrow> P s bs q"
    and err: "\<And>s s1 bs e. wr s bs = (Ready (Inl e), s1) \<Longrightarrow> P s bs (Inl e, s1)"
    and zero: "\<And>s s1 bs e. wr s bs = (Ready (Inr 0), s1) \<Longrightarrow> P s bs (Inl e, s1)"
    and some: "\<And>s s1 bs n q. wr s bs = (Ready (Inr n), s1) \<Longrightarrow> P s1 (drop n bs) q \<Longrightarrow> P s bs q"
  shows "P s bs q"
proof -
  have "wr = wr \<longrightarrow> P s bs q"
  proof (rule write_all_polls.raw_induct [where P = "\<lambda>wr' s bs q. wr' = wr \<longrightarrow> P s bs q", OF _ ret])
    fix wa wr' s bs q
    assume IH: "\<And>wr1 s1 bs1 q1. wa wr1 s1 bs1 = Some q1 \<Longrightarrow> wr1 = wr \<longrightarrow> P s1 bs1 q1"
      and eq: "(if bs = [] then Some (Inr (), s)
        else case wr' s bs of
           (Pending, s1) \<Rightarrow> wa wr' s1 bs
         | (Ready (Inl e), s1) \<Rightarrow> Some (Inl e, s1)
         | (Ready (Inr n), s1) \<Rightarrow>
             if n = 0 then Some (Inl (OtherIo ''write zero''), s1) else wa wr' s1 (drop n bs)) = Some q"
    have IH': "wa wr s1 bs1 = Some q1 \<Longrightarrow> P s1 bs1 q1" for s1 bs1 q1 using IH by blast
    obtain p s1 where w: "wr s bs = (p, s1)" by (cases "wr s bs")
    show "wr' = wr \<longrightarrow> P s bs q"
      using eq w fin pend [of s bs s1] err [of s bs _ s1] zero [of s bs s1] some [of s bs _ s1]
      by (cases q) (auto split: poll.splits sum.splits if_splits dest!: IH')
  qed
  then show ?thesis by simp
qed

text \<open>Awaiting an operation whose polls keep a property keeps it.\<close>

lemma await_poll_keeps:
  assumes "await_poll p s = Some (r, s')" and "\<And>s q s1. p s = (q, s1) \<Longrightarrow> out s1 = out s"
  shows "out s' = out s"
proof -
  let ?P = "\<lambda>p' s q. p' = p \<longrightarrow> out (snd q) = out s"
  have "?P p s (r, s')"
  proof (rule await_poll.raw_induct [where P = ?P, OF _ assms(1)], intro impI)
    fix aw p' s q
    assume IH: "\<And>p' s q. aw p' s = Some q \<Longrightarrow> ?P p' s q"
      and eq: "(case p' s of (Pending, s1) \<Rightarrow> aw p' s1 | (Ready r, s1) \<Rightarrow> Some (r, s1)) = Some q"
      and p: "p' = p"
    obtain x s1 where x: "p s = (x, s1)" by (cases "p s")
    with assms(2) have "out s1 = out s" by blast
    with eq p x IH show "out (snd q) = out s" by (fastforce split: poll.splits)
  qed
  then show ?thesis by simp
qed

context byte_sink
begin

text \<open>What was accepted is a prefix of the buffer, all of it when \<^verbatim>\<open>write_all\<close> succeeds.\<close>

lemma write_all_out:
  assumes "write_all_polls wr s bs = Some q"
  shows "\<exists>k \<le> length bs. out (snd q) = out s @ take k bs \<and> (fst q = Inr () \<longrightarrow> k = length bs)"
  using assms
proof (rule write_all_induct)
  fix s s1 bs n q
  assume "wr s bs = (Ready (Inr n), s1)"
    and "\<exists>k \<le> length (drop n bs). out (snd q) = out s1 @ take k (drop n bs)
      \<and> (fst q = Inr () \<longrightarrow> k = length (drop n bs))"
  with wr_ok obtain k where "k \<le> length bs - n" "out (snd q) = out s @ take n bs @ take k (drop n bs)"
    "fst q = Inr () \<longrightarrow> k = length bs - n" "n \<le> length bs" by fastforce
  then show "\<exists>k \<le> length bs. out (snd q) = out s @ take k bs \<and> (fst q = Inr () \<longrightarrow> k = length bs)"
    by (intro exI [of _ "n + k"]) (auto simp: take_add)
next
  fix s s1 bs q
  assume "wr s bs = (Pending, s1)"
    and "\<exists>k \<le> length bs. out (snd q) = out s1 @ take k bs \<and> (fst q = Inr () \<longrightarrow> k = length bs)"
  with wr_other show "\<exists>k \<le> length bs. out (snd q) = out s @ take k bs
      \<and> (fst q = Inr () \<longrightarrow> k = length bs)" by fastforce
next
  fix s s1 bs e
  assume w: "wr s bs = (Ready (Inl e), s1)"
  show "\<exists>k \<le> length bs. out (snd (Inl e, s1)) = out s @ take k bs
      \<and> (fst (Inl e, s1) = Inr () \<longrightarrow> k = length bs)"
    using wr_other [OF w] by (intro exI [of _ 0]) auto
next
  fix s s1 bs and e :: io_error
  assume w: "wr s bs = (Ready (Inr 0), s1)"
  show "\<exists>k \<le> length bs. out (snd (Inl e, s1)) = out s @ take k bs
      \<and> (fst (Inl e, s1) = Inr () \<longrightarrow> k = length bs)"
    using wr_ok [OF w] by (intro exI [of _ 0]) auto
qed auto

end

text \<open>
  What the code asks of a writer is two operations that run to completion, \<^verbatim>\<open>write_all\<close> and
  \<^verbatim>\<open>flush\<close>; \<open>None\<close> when the awaited future never completes.
\<close>

record 's writer =
  w_write_all :: "'s \<Rightarrow> bytes \<Rightarrow> ((io_error + unit) \<times> 's) option"
  w_flush :: "'s \<Rightarrow> ((io_error + unit) \<times> 's) option"

locale async_writer =
  fixes W :: "'s writer"
    and out :: "'s \<Rightarrow> bytes"
  assumes write_out: "w_write_all W s bs = Some (r, s') \<Longrightarrow>
      \<exists>k \<le> length bs. out s' = out s @ take k bs \<and> (r = Inr () \<longrightarrow> k = length bs)"
    and flush_out: "w_flush W s = Some (r, s') \<Longrightarrow> out s' = out s"

definition framed_writer :: "('e, 't) transport \<Rightarrow> 't framed_io writer" where
  "framed_writer T =
     \<lparr>w_write_all = write_all_polls (poll_write T), w_flush = await_poll (framed_poll_flush T)\<rparr>"

text \<open>A frame sink: the transport's write half, whose accepted frames make up its output.\<close>

locale frame_sink =
  fixes T :: "('e, 't) transport"
    and sent :: "'t \<Rightarrow> bytes"
  assumes ready_sent: "tr_poll_ready T t = (p, t') \<Longrightarrow> sent t' = sent t"
    and send_ok: "tr_start_send T bs t = (Inr u, t') \<Longrightarrow> sent t' = sent t @ bs"
    and send_err: "tr_start_send T bs t = (Inl e, t') \<Longrightarrow> sent t' = sent t"
    and flush_sent: "tr_poll_flush T t = (q, t') \<Longrightarrow> sent t' = sent t"

sublocale frame_sink \<subseteq> framed_sink: byte_sink "poll_write T" "\<lambda>f. sent (inner f)"
proof (unfold_locales, goal_cases)
  case (1 f bs n f')
  then show ?case
    by (auto simp: poll_write_def dest!: ready_sent send_ok
        split: prod.splits poll.splits sum.splits)
next
  case (2 f bs p f')
  then show ?case
    by (auto simp: poll_write_def dest!: ready_sent send_err
        split: prod.splits poll.splits sum.splits)
qed

context frame_sink
begin

lemma await_flush_sent:
  "await_poll (framed_poll_flush T) f = Some (r, f') \<Longrightarrow> sent (inner f') = sent (inner f)"
  by (rule await_poll_keeps [where out = "\<lambda>f. sent (inner f)"])
    (auto simp: framed_poll_flush_def Let_def split: prod.splits dest: flush_sent)

end

sublocale frame_sink \<subseteq> framed_writer: async_writer "framed_writer T" "\<lambda>f. sent (inner f)"
proof (unfold_locales, goal_cases)
  case (1 s bs r s')
  then show ?case using framed_sink.write_all_out by (fastforce simp: framed_writer_def)
next
  case (2 s r s')
  then show ?case by (simp add: framed_writer_def await_flush_sent)
qed


subsection \<open>A scripted transport\<close>

text \<open>
  The environment of an adapter over a finite time: what each poll of the transport will answer,
  in order, and the frames it has accepted. An exhausted script is a peer with nothing to say and
  a socket that accepts.
\<close>

record script =
  arrivals :: "(io_error + bytes) option poll list"
  readiness :: "(io_error + unit) poll list"
  send_faults :: "io_error option list"
  flushes :: "(io_error + unit) poll list"
  frames :: "bytes list"

definition script_transport :: "(io_error, script) transport" where
  "script_transport =
     \<lparr>tr_into = (\<lambda>e. e),
      tr_poll_next = (\<lambda>s. case arrivals s of [] \<Rightarrow> (Pending, s) | p # ps \<Rightarrow> (p, s\<lparr>arrivals := ps\<rparr>)),
      tr_poll_ready =
        (\<lambda>s. case readiness s of [] \<Rightarrow> (Ready (Inr ()), s) | p # ps \<Rightarrow> (p, s\<lparr>readiness := ps\<rparr>)),
      tr_start_send =
        (\<lambda>bs s. case send_faults s of
            Some e # fs \<Rightarrow> (Inl e, s\<lparr>send_faults := fs\<rparr>)
          | _ \<Rightarrow> (Inr (), s\<lparr>send_faults := tl (send_faults s), frames := frames s @ [bs]\<rparr>)),
      tr_poll_flush =
        (\<lambda>s. case flushes s of [] \<Rightarrow> (Ready (Inr ()), s) | p # ps \<Rightarrow> (p, s\<lparr>flushes := ps\<rparr>)),
      tr_poll_close =
        (\<lambda>s. case flushes s of [] \<Rightarrow> (Ready (Inr ()), s) | p # ps \<Rightarrow> (p, s\<lparr>flushes := ps\<rparr>))\<rparr>"

definition arrival_bytes :: "(io_error + bytes) option poll \<Rightarrow> bytes" where
  "arrival_bytes p = (case p of Ready (Some (Inr c)) \<Rightarrow> c | _ \<Rightarrow> [])"

definition script_bytes :: "script \<Rightarrow> bytes" where
  "script_bytes s = concat (map arrival_bytes (arrivals s))"

definition script_sent :: "script \<Rightarrow> bytes" where
  "script_sent s = concat (frames s)"

interpretation script_reads: chunk_stream script_transport script_bytes
  by unfold_locales
    (auto simp: script_transport_def script_bytes_def arrival_bytes_def
      split: list.splits poll.splits option.splits sum.splits)

interpretation script_writes: frame_sink script_transport script_sent
  by unfold_locales
    (auto simp: script_transport_def script_sent_def split: list.splits option.splits)

end
