(* ===== verification/Responder.thy ===== *)
theory Responder
  imports Wire Framed_Io
begin

text \<open>
  The responder side of the TS2021 Noise handshake, \<^verbatim>\<open>noise/src/responder.rs\<close> and
  \<^verbatim>\<open>noise/src/error.rs\<close>. The IK computation, the record codec, base64 and the JSON writer live in
  other crates and are parameters; what is here is the parsing and validation of the initiation,
  the prologue, the framing of the response, and the EarlyNoise frame. An awaited operation that
  never completes makes the whole function \<open>None\<close>.
\<close>


subsection \<open>Errors and parameters\<close>

datatype noise_error =
    Base64 string
  | BadInitiation string
  | HandshakeFailed
  | UnsupportedVersion u16 u16
  | NoiseSerde string
  | NoiseIo io_error

text \<open>
  The crates the handshake is built on: the base64 decoder; \<^verbatim>\<open>SentHandshake::INIT_SIZE\<close>,
  \<^verbatim>\<open>ReceivedHandshake::RESP_SIZE\<close> and the message types; the conversion of a private key,
  \<^verbatim>\<open>ReceivedHandshake::new\<close> on payload, prologue and static secret, its peer key, \<^verbatim>\<open>finish\<close> on
  the zeroed response buffer, and the public half of a secret.
\<close>

record ('sk, 'hs, 'sess) noise_lib =
  b64_decode :: "string \<Rightarrow> string + bytes"
  init_size :: nat
  resp_size :: nat
  mt_initiation :: u8
  mt_response :: u8
  static_secret :: "key \<Rightarrow> 'sk"
  received_new :: "bytes \<Rightarrow> bytes \<Rightarrow> 'sk \<Rightarrow> 'hs option"
  peer_static_pub :: "'hs \<Rightarrow> key"
  hs_finish :: "'hs \<Rightarrow> bytes \<Rightarrow> bytes \<times> 'sess"
  public_of :: "'sk \<Rightarrow> key"

text \<open>The documented values, and that \<^verbatim>\<open>finish\<close> fills its buffer in place.\<close>

definition noise_lib_ok :: "('sk, 'hs, 'sess) noise_lib \<Rightarrow> bool" where
  "noise_lib_ok L \<longleftrightarrow>
     init_size L = 96 \<and> mt_initiation L = 1 \<and> mt_response L = 2 \<and> resp_size L < 2 ^ 16
     \<and> (\<forall>hs buf. length (fst (hs_finish L hs buf)) = length buf)"


subsection \<open>The initiation\<close>

definition controlbase_header_len :: nat where
  "controlbase_header_len = 3"

definition capver_prefix_len :: nat where
  "capver_prefix_len = 2"

definition parse_initiation ::
  "('sk, 'hs, 'sess) noise_lib \<Rightarrow> bytes \<Rightarrow> noise_error + (u16 \<times> bytes)" where
  "parse_initiation L raw =
     (if length raw < capver_prefix_len + controlbase_header_len + init_size L
      then Inl (BadInitiation ''initiation too short'')
      else
        let capver = u16_from_be_bytes (raw ! 0) (raw ! 1);
            min = min_supported_capability_version
        in
        if capver < min then Inl (UnsupportedVersion capver min)
        else if raw ! 2 \<noteq> mt_initiation L then Inl (BadInitiation ''not an initiation message'')
        else
          let body_len = unat (u16_from_be_bytes (raw ! 3) (raw ! 4)) in
          if body_len \<noteq> init_size L
          then Inl (BadInitiation ''unexpected initiation payload length'')
          else
            let payload_start = capver_prefix_len + controlbase_header_len
            in Inr (capver, take (init_size L) (drop payload_start raw)))"

definition prologue :: "u16 \<Rightarrow> string" where
  "prologue capver = ''Tailscale Control Protocol v'' @ show_dec (unat capver)"


subsection \<open>The handshake\<close>

record 't accepted =
  stream :: "'t framed_io"
  capability_version :: u16
  peer_machine_key :: key
  acc_node_key_challenge :: key

text \<open>\<^verbatim>\<open>socket.write_all(..).await?\<close>: an I/O error ends the function, with what was written.\<close>

definition await_io ::
  "((io_error + unit) \<times> 's) option \<Rightarrow> ('s \<Rightarrow> ((noise_error + 'a) \<times> 's) option)
     \<Rightarrow> ((noise_error + 'a) \<times> 's) option" where
  "await_io x k =
     (case x of
        None \<Rightarrow> None
      | Some (Inl e, s) \<Rightarrow> Some (Inl (NoiseIo e), s)
      | Some (Inr _, s) \<Rightarrow> k s)"

definition response_header :: "('sk, 'hs, 'sess) noise_lib \<Rightarrow> bytes" where
  "response_header L =
     (let len_be = u16_to_be_bytes (usize_as_u16 (resp_size L))
      in [mt_response L, len_be ! 0, len_be ! 1])"

text \<open>
  \<open>mk\<close> is \<^verbatim>\<open>Framed::new(socket, BiCodec::from(session))\<close>, and \<open>rnd\<close> the secret
  \<^verbatim>\<open>StaticSecret::random()\<close> returned.
\<close>

definition accept ::
  "('sk, 'hs, 'sess) noise_lib \<Rightarrow> 's writer \<Rightarrow> ('s \<Rightarrow> 'sess \<Rightarrow> 't) \<Rightarrow> 'sk
     \<Rightarrow> 's \<Rightarrow> key \<Rightarrow> string \<Rightarrow> ((noise_error + 't accepted) \<times> 's) option" where
  "accept L W mk rnd socket server_private initiation_b64 =
     (case and_then (map_err Base64 (b64_decode L (str_trim initiation_b64))) (parse_initiation L) of
        Inl e \<Rightarrow> Some (Inl e, socket)
      | Inr (capver, payload) \<Rightarrow>
          (case received_new L payload (str_bytes (prologue capver)) (static_secret L server_private) of
             None \<Rightarrow> Some (Inl HandshakeFailed, socket)
           | Some received \<Rightarrow>
               let peer = peer_static_pub L received;
                   (resp, session) = hs_finish L received (replicate (resp_size L) 0)
               in
               await_io (w_write_all W socket (response_header L)) (\<lambda>s1.
                 await_io (w_write_all W s1 resp) (\<lambda>s2.
                   await_io (w_flush W s2) (\<lambda>s3.
                     Some (Inr \<lparr>stream = framed_new (mk s3 session), capability_version = capver,
                             peer_machine_key = peer, acc_node_key_challenge = public_of L rnd\<rparr>, s3))))))"


subsection \<open>The EarlyNoise frame\<close>

text \<open>\<open>to_vec\<close> is \<^verbatim>\<open>serde_json::to_vec\<close> on the tree the derived implementation gives it.\<close>

definition early_noise_frame :: "bytes \<Rightarrow> bytes" where
  "early_noise_frame json =
     early_noise_magic @ u32_to_be_bytes (usize_as_u32 (length json)) @ json"

definition write_early_noise ::
  "(json \<Rightarrow> string + bytes) \<Rightarrow> key_lib \<Rightarrow> 's writer \<Rightarrow> 's \<Rightarrow> early_noise
     \<Rightarrow> ((noise_error + unit) \<times> 's) option" where
  "write_early_noise to_vec K W s frame =
     (case map_err NoiseSerde (to_vec (early_noise_to_json K frame)) of
        Inl e \<Rightarrow> Some (Inl e, s)
      | Inr json \<Rightarrow>
          await_io (w_write_all W s (early_noise_frame json)) (\<lambda>s1.
            await_io (w_flush W s1) (\<lambda>s2. Some (Inr (), s2))))"

text \<open>
  The client's side of the frame, as the tests read it: nine bytes of header, the magic, then as
  many bytes of JSON as the length says. The result is the JSON and what follows it.
\<close>

definition read_early_noise :: "bytes \<Rightarrow> (bytes \<times> bytes) option" where
  "read_early_noise bs =
     (if length bs < 9 \<or> take 5 bs \<noteq> early_noise_magic then None
      else
        let n = unat (u32_from_be_bytes (bs ! 5) (bs ! 6) (bs ! 7) (bs ! 8)) in
        if length bs < 9 + n then None else Some (take n (drop 9 bs), drop (9 + n) bs))"


subsection \<open>Lemmas\<close>

lemmas initiation_defs [noise_simps] = parse_initiation_def capver_prefix_len_def controlbase_header_len_def Let_def

lemma await_io_simps [simp]:
  "await_io None k = None"
  "await_io (Some (Inl e, s)) k = Some (Inl (NoiseIo e), s)"
  "await_io (Some (Inr u, s)) k = k s"
  by (simp_all add: await_io_def)

lemma await_io_Inr:
  "await_io x k = Some (Inr a, s') \<longleftrightarrow> (\<exists>s. x = Some (Inr (), s) \<and> k s = Some (Inr a, s'))"
  by (auto simp: await_io_def split: option.splits prod.splits sum.splits)

lemma await_io_completes:
  "x = Some y \<Longrightarrow> (\<And>s. \<exists>q. k s = Some q) \<Longrightarrow> \<exists>q. await_io x k = Some q"
  by (cases y; cases "fst y") auto

text \<open>When a parse succeeds, and what it returns.\<close>

lemma parse_initiation_Inr:
  "parse_initiation L raw = Inr (capver, payload) \<longleftrightarrow>
     5 + init_size L \<le> length raw
     \<and> capver = u16_from_be_bytes (raw ! 0) (raw ! 1)
     \<and> min_supported_capability_version \<le> capver
     \<and> raw ! 2 = mt_initiation L
     \<and> unat (u16_from_be_bytes (raw ! 3) (raw ! 4)) = init_size L
     \<and> payload = take (init_size L) (drop 5 raw)"
  by (auto simp: initiation_defs)

text \<open>The handshake, step by step, when it succeeds.\<close>

lemma accept_Inr:
  assumes "accept L W mk rnd s priv b64 = Some (Inr a, s')"
  obtains raw capver payload hs s1 s2
  where "b64_decode L (str_trim b64) = Inr raw" and "parse_initiation L raw = Inr (capver, payload)"
    and "received_new L payload (str_bytes (prologue capver)) (static_secret L priv) = Some hs"
    and "w_write_all W s (response_header L) = Some (Inr (), s1)"
    and "w_write_all W s1 (fst (hs_finish L hs (replicate (resp_size L) 0))) = Some (Inr (), s2)"
    and "w_flush W s2 = Some (Inr (), s')"
    and "a = \<lparr>stream = framed_new (mk s' (snd (hs_finish L hs (replicate (resp_size L) 0)))),
      capability_version = capver, peer_machine_key = peer_static_pub L hs,
      acc_node_key_challenge = public_of L rnd\<rparr>"
proof -
  from assms obtain raw where raw: "b64_decode L (str_trim b64) = Inr raw"
    by (cases "b64_decode L (str_trim b64)") (auto simp: accept_def)
  from assms raw obtain cp where "parse_initiation L raw = Inr cp"
    by (cases "parse_initiation L raw") (auto simp: accept_def)
  then obtain capver payload where ps: "parse_initiation L raw = Inr (capver, payload)"
    by (cases cp) auto
  from assms raw ps obtain hs where hs:
    "received_new L payload (str_bytes (prologue capver)) (static_secret L priv) = Some hs"
    by (auto simp: accept_def split: option.splits)
  show ?thesis
    using that [OF raw ps hs] assms raw ps hs
    by (auto simp: accept_def Let_def await_io_Inr split: prod.splits)
qed

context async_writer
begin

text \<open>What a successful handshake has authenticated, and the bytes of the response on the socket.\<close>

lemma accept_out:
  assumes "accept L W mk rnd s priv b64 = Some (Inr a, s')"
  shows "\<exists>raw payload hs. b64_decode L (str_trim b64) = Inr raw
    \<and> parse_initiation L raw = Inr (capability_version a, payload)
    \<and> received_new L payload (str_bytes (prologue (capability_version a))) (static_secret L priv) = Some hs
    \<and> peer_machine_key a = peer_static_pub L hs \<and> chunk (stream a) = None
    \<and> out s' = out s @ response_header L @ fst (hs_finish L hs (replicate (resp_size L) 0))"
  using assms
proof (rule accept_Inr)
  fix raw capver payload hs s1 s2
  assume dec: "b64_decode L (str_trim b64) = Inr raw"
    and ps: "parse_initiation L raw = Inr (capver, payload)"
    and hs: "received_new L payload (str_bytes (prologue capver)) (static_secret L priv) = Some hs"
    and w1: "w_write_all W s (response_header L) = Some (Inr (), s1)"
    and w2: "w_write_all W s1 (fst (hs_finish L hs (replicate (resp_size L) 0))) = Some (Inr (), s2)"
    and fl: "w_flush W s2 = Some (Inr (), s')"
    and a: "a = \<lparr>stream = framed_new (mk s' (snd (hs_finish L hs (replicate (resp_size L) 0)))),
      capability_version = capver, peer_machine_key = peer_static_pub L hs,
      acc_node_key_challenge = public_of L rnd\<rparr>"
  have "out s1 = out s @ response_header L" using write_out [OF w1] by auto
  moreover have "out s2 = out s1 @ fst (hs_finish L hs (replicate (resp_size L) 0))"
    using write_out [OF w2] by auto
  moreover have "out s' = out s2" using fl by (rule flush_out)
  ultimately show ?thesis using a dec ps hs
    by (intro exI [of _ raw] exI [of _ payload] exI [of _ hs]) (simp add: framed_new_def)
qed

text \<open>Whatever its outcome, an EarlyNoise write emits a prefix of the frame, and all of it on success.\<close>

lemma early_noise_out:
  assumes "write_early_noise to_vec K W s e = Some (r, s')"
    and "to_vec (early_noise_to_json K e) = Inr json"
  shows "\<exists>k \<le> length (early_noise_frame json). out s' = out s @ take k (early_noise_frame json)
    \<and> (r = Inr () \<longrightarrow> k = length (early_noise_frame json))"
proof -
  obtain q s1 where w: "w_write_all W s (early_noise_frame json) = Some (q, s1)"
    using assms by (auto simp: write_early_noise_def await_io_def split: option.splits)
  note o = write_out [OF w]
  show ?thesis
  proof (cases q)
    case (Inl e1)
    with assms w have "s' = s1" "r = Inl (NoiseIo e1)" by (auto simp: write_early_noise_def)
    with o show ?thesis by auto
  next
    case (Inr u)
    with assms w obtain q2 where "w_flush W s1 = Some (q2, s')"
      by (auto simp: write_early_noise_def await_io_def split: option.splits prod.splits sum.splits)
    then have "out s' = out s1" by (rule flush_out)
    with o Inr show ?thesis by auto
  qed
qed

end

end
