(* ===== verification/Noise_Samples.thy ===== *)
theory Noise_Samples
  imports Responder
begin

text \<open>
  Concrete inputs for the Noise side: a socket that follows a script, a text codec of keys, and a
  stand-in for the handshake crates. The properties of the responder are stated over the scripted
  socket, which may accept a write in pieces, stall it or fail it; the stand-ins show that their
  hypotheses can hold together.
\<close>


subsection \<open>A scripted socket\<close>

text \<open>
  \<open>grants\<close> answers the polls of a write in order (\<open>Ready (Inr n)\<close> takes at most \<open>n\<close> bytes); after
  the script everything is accepted. \<open>wire\<close> holds the bytes taken so far.
\<close>

record socket =
  grants :: "(io_error + nat) poll list"
  socket_flushes :: "(io_error + unit) poll list"
  wire :: bytes

definition socket_take :: "nat \<Rightarrow> bytes \<Rightarrow> socket \<Rightarrow> (io_error + nat) poll \<times> socket" where
  "socket_take n bs s =
     (let k = min n (length bs) in (Ready (Inr k), s\<lparr>wire := wire s @ take k bs\<rparr>))"

definition socket_write :: "socket \<Rightarrow> bytes \<Rightarrow> (io_error + nat) poll \<times> socket" where
  "socket_write s bs =
     (case grants s of
        [] \<Rightarrow> socket_take (length bs) bs s
      | p # ps \<Rightarrow>
          (case p of
             Ready (Inr n) \<Rightarrow> socket_take n bs (s\<lparr>grants := ps\<rparr>)
           | _ \<Rightarrow> (p, s\<lparr>grants := ps\<rparr>)))"

definition socket_flush :: "socket \<Rightarrow> (io_error + unit) poll \<times> socket" where
  "socket_flush s =
     (case socket_flushes s of [] \<Rightarrow> (Ready (Inr ()), s) | p # ps \<Rightarrow> (p, s\<lparr>socket_flushes := ps\<rparr>))"

definition socket_writer :: "socket writer" where
  "socket_writer = \<lparr>w_write_all = write_all_polls socket_write, w_flush = await_poll socket_flush\<rparr>"

definition socket_new :: socket where
  "socket_new = \<lparr>grants = [], socket_flushes = [], wire = []\<rparr>"

interpretation socket_sink: byte_sink socket_write wire
  by unfold_locales
    (auto simp: socket_write_def socket_take_def Let_def split: list.splits poll.splits sum.splits)

interpretation socket: async_writer socket_writer wire
proof (unfold_locales, goal_cases)
  case (1 s bs r s')
  then show ?case using socket_sink.write_all_out by (fastforce simp: socket_writer_def)
next
  case (2 s r s')
  then have "await_poll socket_flush s = Some (r, s')" by (simp add: socket_writer_def)
  then show ?case
    by (rule await_poll_keeps) (auto simp: socket_flush_def split: list.splits)
qed


subsection \<open>Every await on the socket completes\<close>

lemma socket_write_progress:
  assumes "bs \<noteq> []" and "socket_write s bs = (p, s1)"
  shows "(p = Pending \<longrightarrow> length (grants s1) < length (grants s))
    \<and> (\<forall>n. p = Ready (Inr n) \<longrightarrow> n \<le> length bs \<and> length (grants s1) \<le> length (grants s))"
  using assms
  by (auto simp: socket_write_def socket_take_def Let_def split: list.splits poll.splits sum.splits)

lemma socket_write_all_completes: "\<exists>q. write_all_polls socket_write s bs = Some q"
proof (induction "length (grants s) + length bs" arbitrary: s bs rule: less_induct)
  case less
  show ?case
  proof (cases "bs = []")
    case True
    then show ?thesis by (simp add: write_all_polls.simps)
  next
    case False
    obtain p s1 where w: "socket_write s bs = (p, s1)" by (cases "socket_write s bs")
    note pr = socket_write_progress [OF False w]
    show ?thesis
    proof (cases p)
      case Pending
      then have "\<exists>q. write_all_polls socket_write s1 bs = Some q" using pr less by simp
      with False w Pending show ?thesis by (subst write_all_polls.simps) simp
    next
      case (Ready r)
      show ?thesis
      proof (cases r)
        case (Inl e)
        with False w Ready show ?thesis by (subst write_all_polls.simps) simp
      next
        case (Inr n)
        have "\<exists>q. write_all_polls socket_write s1 (drop n bs) = Some q" if "n \<noteq> 0"
          using pr Ready Inr that False by (intro less) auto
        with False w Ready Inr show ?thesis
          by (cases "n = 0") (subst write_all_polls.simps, simp)+
      qed
    qed
  qed
qed

lemma socket_flush_completes: "\<exists>q. await_poll socket_flush s = Some q"
proof (induction "length (socket_flushes s)" arbitrary: s)
  case 0
  then show ?case by (subst await_poll.simps) (simp add: socket_flush_def)
next
  case (Suc n)
  then obtain p ps where s: "socket_flushes s = p # ps" by (cases "socket_flushes s") auto
  with Suc have "\<exists>q. await_poll socket_flush (s\<lparr>socket_flushes := ps\<rparr>) = Some q" by simp
  with s show ?case
    by (subst await_poll.simps) (cases p; simp add: socket_flush_def)
qed


lemma calm_write:
  assumes "grants s = []"
  shows "w_write_all socket_writer s bs = Some (Inr (), s\<lparr>wire := wire s @ bs\<rparr>)"
proof -
  have nil: "write_all_polls socket_write s' [] = Some (Inr (), s')" for s'
    by (subst write_all_polls.simps) simp
  have "write_all_polls socket_write s bs = Some (Inr (), s\<lparr>wire := wire s @ bs\<rparr>)"
    using assms
    by (subst write_all_polls.simps) (simp add: socket_write_def socket_take_def Let_def nil)
  then show ?thesis by (simp add: socket_writer_def)
qed

lemma calm_flush: "socket_flushes s = [] \<Longrightarrow> w_flush socket_writer s = Some (Inr (), s)"
  by (simp add: socket_writer_def socket_flush_def await_poll.simps)


subsection \<open>Keys as hexadecimal text\<close>

definition hex_value :: "char \<Rightarrow> nat option" where
  "hex_value c = find_index (\<lambda>x. x = c) ''0123456789abcdef''"

fun unhex :: "string \<Rightarrow> key option" where
  "unhex [] = Some []"
| "unhex [c] = None"
| "unhex (c # d # cs) =
     (case (hex_value c, hex_value d) of
        (Some h, Some l) \<Rightarrow> map_option ((#) (of_nat (16 * h + l))) (unhex cs)
      | _ \<Rightarrow> None)"

lemma find_index_nth: "distinct xs \<Longrightarrow> i < length xs \<Longrightarrow> find_index (\<lambda>x. x = xs ! i) xs = Some i"
  by (induction xs arbitrary: i) (auto simp: nth_Cons split: nat.splits)

lemma hex_value_digit: "hex_value (hex_digit n) = Some (n mod 16)"
  unfolding hex_value_def hex_digit_def by (rule find_index_nth) simp_all

lemma unhex_hex: "unhex (hex bs) = Some bs"
proof (induction bs)
  case (Cons b bs)
  have "unat b < 2 ^ LENGTH(8)" by (rule unsigned_less)
  then have "unat b div 16 < 16" by simp
  then have "of_nat (16 * (unat b div 16 mod 16) + unat b mod 16) = b" by simp
  with Cons show ?case by (simp add: hex_def hex_value_digit)
qed (simp add: hex_def)

lemma hex_inject: "hex xs = hex ys \<longleftrightarrow> xs = ys"
  by (metis option.inject unhex_hex)

definition prefixed_key :: "string \<Rightarrow> string \<Rightarrow> key option" where
  "prefixed_key pre s = (if take (length pre) s = pre then unhex (drop (length pre) s) else None)"

definition hex_keys :: key_lib where
  "hex_keys =
     \<lparr>mkey_default = replicate 32 0,
      mkey_text = (\<lambda>k. ''mkey:'' @ hex k), mkey_parse = prefixed_key ''mkey:'',
      chalpub_text = (\<lambda>k. ''chalpub:'' @ hex k), chalpub_parse = prefixed_key ''chalpub:''\<rparr>"

lemma hex_keys_ok [simp]: "key_text_ok hex_keys"
  by (simp add: key_text_ok_def hex_keys_def prefixed_key_def unhex_hex)


subsection \<open>A stand-in for the handshake crates\<close>

text \<open>
  The text decodes to its own bytes, a payload is accepted unless it begins with a zero, the peer
  key is its first 32 bytes, and a response repeats a byte.
\<close>

definition toy_noise :: "(key, bytes, unit) noise_lib" where
  "toy_noise =
     \<lparr>b64_decode = (\<lambda>s. Inr (str_bytes s)), init_size = 96, resp_size = 48,
      mt_initiation = 1, mt_response = 2, static_secret = (\<lambda>k. k),
      received_new = (\<lambda>payload pro sk. if payload ! 0 = 0 then None else Some payload),
      peer_static_pub = take 32, hs_finish = (\<lambda>hs buf. (map (\<lambda>_. 7) buf, ())),
      public_of = (\<lambda>k. k)\<rparr>"

lemma toy_noise_simps [simp]:
  "b64_decode toy_noise s = Inr (str_bytes s)" "init_size toy_noise = 96" "resp_size toy_noise = 48"
  "mt_initiation toy_noise = 1" "mt_response toy_noise = 2" "static_secret toy_noise k = k"
  "received_new toy_noise payload pro sk = (if payload ! 0 = 0 then None else Some payload)"
  "peer_static_pub toy_noise hs = take 32 hs" "hs_finish toy_noise hs buf = (map (\<lambda>_. 7) buf, ())"
  "public_of toy_noise k = k"
  by (simp_all add: toy_noise_def)

lemma toy_noise_ok [simp]: "noise_lib_ok toy_noise"
  by (simp add: noise_lib_ok_def)

end
