(* ===== verification/Noise_Correctness.thy ===== *)
theory Noise_Correctness
  imports Noise_Samples
begin

text \<open>
  The properties of the Noise side: what the byte stream adapter promises a reader and a writer,
  which initiations the responder accepts, what it puts on the socket, and that a client reads the
  EarlyNoise frame back.
\<close>


subsection \<open>Reading through the adapter\<close>

definition script_new :: "(io_error + bytes) option poll list \<Rightarrow> script" where
  "script_new ps = \<lparr>arrivals = ps, readiness = [], send_faults = [], flushes = [], frames = []\<rparr>"

lemma script_fill_returns: "\<exists>r. poll_fill_buf script_transport f = Some r"
  by (rule fill_buf_returns [where m = "\<lambda>s. length (arrivals s)"])
    (auto simp: script_transport_def split: list.splits)

lemma script_poll_read_finishes: "\<exists>p b' f'. poll_read script_transport f b = Finished (p, b', f')"
proof (cases "poll_read script_transport f b")
  case Diverges
  then show ?thesis
    using script_fill_returns [of f]
    by (auto simp: poll_read_def Let_def split: if_splits poll.splits sum.splits option.splits)
qed (auto simp: poll_read_never_panics)

lemma script_read_polls_return: "\<exists>q. read_polls (poll_read script_transport) ns f = Some q"
proof (induction ns arbitrary: f)
  case (Cons n ns)
  obtain p b f1 where "poll_read script_transport f \<lparr>filled = [], capacity = n\<rparr> = Finished (p, b, f1)"
    using script_poll_read_finishes by blast
  with Cons [of f1] show ?case by auto
qed simp

text \<open>
  Reading with any sequence of buffer sizes, over any arrivals (chunks of any size, empty
  ones, stalls, errors, end of stream): every poll returns, and what was read, followed by the rest
  of the held chunk and the bytes still to arrive, is the stream. No byte is lost, repeated or
  reordered.
\<close>

lemma reads_deliver_the_stream:
  "\<exists>bs f'. read_polls (poll_read script_transport) ns f = Some (bs, f')
    \<and> chunk_bytes f @ script_bytes (inner f) = bs @ chunk_bytes f' @ script_bytes (inner f')"
  using script_read_polls_return [of ns f] script_reads.framed.read_polls_conserve
  by (fastforce simp: framed_left_def)

lemma empty_fill_is_eof:
  assumes "poll_fill_buf T f = Some (Ready (Inr []), f')"
  shows "\<exists>t. tr_poll_next T t = (Ready None, inner f')"
proof -
  have "fst r = Ready (Inr []) \<longrightarrow> (\<exists>t. tr_poll_next T t = (Ready None, inner (snd r)))"
    if "poll_fill_buf T f = Some r" for r
    using that by (rule fill_buf_induct) (auto simp: has_chunk_iff)
  with assms show ?thesis by fastforce
qed

text \<open>
  A read into a buffer with room that succeeds without delivering a byte happens only when
  the transport has ended: empty chunks are skipped, so an HTTP/2 server never takes one for the
  end of the stream.
\<close>

lemma empty_read_means_end:
  assumes "0 < remaining b" and "poll_read T f b = Finished (Ready (Inr ()), b, f')"
  shows "\<exists>t. tr_poll_next T t = (Ready None, inner f')"
proof -
  obtain bs f1 where fb: "poll_fill_buf T f = Some (Ready (Inr bs), f1)"
    using assms by (auto simp: poll_read_def Let_def split: option.splits poll.splits sum.splits)
  from poll_read_ready [OF _ fb, of b] assms have "b = b\<lparr>filled := filled b @ take (min (length bs) (remaining b)) bs\<rparr>"
    and "inner f' = inner f1" by auto
  then have "filled b = filled b @ take (min (length bs) (remaining b)) bs"
    by (metis read_buf.select_convs(1) read_buf.surjective read_buf.update_convs(1))
  with assms(1) have "bs = []" by (auto simp: min_def split: if_splits)
  with fb have "poll_fill_buf T f = Some (Ready (Inr []), f1)" by simp
  from empty_fill_is_eof [OF this] \<open>inner f' = inner f1\<close> show ?thesis by simp
qed

lemma empty_read_means_end_witness:
  "\<exists>t. tr_poll_next script_transport t = (Ready None, script_new [])"
proof -
  let ?f = "framed_new (script_new [Ready (Some (Inr [])), Ready None])"
  have "poll_read script_transport ?f \<lparr>filled = [], capacity = 4\<rparr>
      = Finished (Ready (Inr ()), \<lparr>filled = [], capacity = 4\<rparr>, \<lparr>inner = script_new [], chunk = Some []\<rparr>)"
    by (simp add: poll_read_def poll_fill_buf.simps has_chunk_def framed_new_def script_new_def
        script_transport_def remaining_def put_slice_def framed_consume_def)
  from empty_read_means_end [OF _ this] show ?thesis by (simp add: remaining_def)
qed

text \<open>
  C37. Whatever the transport does, a read never reaches the panics of \<^verbatim>\<open>consume\<close> and \<^verbatim>\<open>put_slice\<close>;
  it appends at most what fits, and only when it succeeds.
\<close>

theorem reads_stay_in_bounds:
  "case poll_read T f b of
     Panics \<Rightarrow> False
   | Diverges \<Rightarrow> poll_fill_buf T f = None
   | Finished (p, b', f') \<Rightarrow>
       capacity b' = capacity b
       \<and> (\<exists>bs. filled b' = filled b @ bs
            \<and> (if p = Ready (Inr ()) then length bs \<le> remaining b else bs = []))"
proof (cases "remaining b \<noteq> 0 \<and> (\<exists>bs f1. poll_fill_buf T f = Some (Ready (Inr bs), f1))")
  case True
  then obtain bs f1 where "remaining b \<noteq> 0" "poll_fill_buf T f = Some (Ready (Inr bs), f1)" by blast
  from poll_read_ready [OF this] show ?thesis by auto
next
  case False
  then show ?thesis by (auto simp: poll_read_def split: option.splits poll.splits sum.splits)
qed

text \<open>
  The loop that looks for a non-empty chunk ends if the transport cannot hand out empty chunks
  for ever (some measure of its state goes down with each), whatever its state.
\<close>

lemma read_returns_if_empty_chunks_end:
  fixes m :: "'t \<Rightarrow> nat"
  assumes "\<forall>t t'. tr_poll_next T t = (Ready (Some (Inr [])), t') \<longrightarrow> m t' < m t"
  shows "\<exists>p b' f'. poll_read T f b = Finished (p, b', f')"
proof (cases "poll_read T f b")
  case Diverges
  have "\<exists>r. poll_fill_buf T f = Some r" using assms by (intro fill_buf_returns [where m = m]) blast
  with Diverges show ?thesis
    by (auto simp: poll_read_def Let_def split: if_splits poll.splits sum.splits option.splits)
qed (auto simp: poll_read_never_panics)

lemma read_returns_if_empty_chunks_end_witness:
  "\<exists>p b' f'. poll_read script_transport (framed_new (script_new [Ready (Some (Inr []))])) \<lparr>filled = [], capacity = 4\<rparr>
     = Finished (p, b', f')"
  by (rule read_returns_if_empty_chunks_end [where m = "\<lambda>s. length (arrivals s)"])
    (auto simp: script_transport_def split: list.splits)

text \<open>
  It does not end when every poll hands out an empty chunk: one poll of the reader then spins
  inside the task without ever yielding.
\<close>

lemma read_spins_on_endless_empty_chunks:
  assumes "\<forall>t. \<exists>t'. tr_poll_next T t = (Ready (Some (Inr [])), t')"
    and "chunk_bytes f = []" and "0 < remaining b"
  shows "poll_read T f b = Diverges"
  using fill_buf_diverges [of T f] assms by (simp add: poll_read_def has_chunk_iff)

lemma fill_buf_pending:
  assumes "poll_fill_buf T f = Some (Pending, f')"
  shows "chunk_bytes f = [] \<and> chunk_bytes f' = [] \<and> (\<exists>t. tr_poll_next T t = (Pending, inner f'))"
proof -
  have "fst r = Pending \<longrightarrow>
      \<not> has_chunk f \<and> \<not> has_chunk (snd r) \<and> (\<exists>t. tr_poll_next T t = (Pending, inner (snd r)))"
    if "poll_fill_buf T f = Some r" for r
    using that by (rule fill_buf_induct) (auto simp: has_chunk_def)
  from this [OF assms] show ?thesis by (simp add: has_chunk_iff)
qed

lemma poll_read_pending:
  assumes "poll_read T f b = Finished (Pending, b', f')"
  shows "b' = b \<and> poll_fill_buf T f = Some (Pending, f')"
proof (cases "remaining b = 0")
  case False
  then obtain q f1 where fb: "poll_fill_buf T f = Some (q, f1)"
    using assms by (auto simp: poll_read_def split: option.splits)
  show ?thesis
  proof (cases "\<exists>bs. q = Ready (Inr bs)")
    case True
    with fb poll_read_ready [OF False, of T f] assms show ?thesis by fastforce
  next
    case other: False
    with fb assms False show ?thesis by (auto simp: poll_read_def split: poll.splits sum.splits)
  qed
qed (use assms in \<open>simp add: poll_read_def\<close>)

lemma map_poll_Pending [simp]: "map_poll g p = Pending \<longleftrightarrow> p = Pending"
  by (simp add: map_poll_def split: poll.split)

text \<open>
  C19. No wake-up is lost, over any transport: a read is pending only with nothing left to deliver and when the
  last poll of the transport was pending, which has then taken the waker; with bytes at hand it
  delivers as many of them as fit and does not ask the transport. A write, a flush or a shutdown is pending exactly when the
  transport's \<^verbatim>\<open>poll_ready\<close>, \<^verbatim>\<open>poll_flush\<close> or \<^verbatim>\<open>poll_close\<close> is.
\<close>

theorem pending_polls_are_the_transports:
  "(poll_read T f b = Finished (Pending, b', f') \<longrightarrow>
      b' = b \<and> chunk_bytes f = [] \<and> chunk_bytes f' = [] \<and> (\<exists>t. tr_poll_next T t = (Pending, inner f')))
   \<and> (chunk_bytes f \<noteq> [] \<and> remaining b \<noteq> 0 \<longrightarrow>
      (\<exists>f1. inner f1 = inner f \<and> chunk_bytes f1 = drop (remaining b) (chunk_bytes f)
        \<and> poll_read T f b
            = Finished (Ready (Inr ()), b\<lparr>filled := filled b @ take (remaining b) (chunk_bytes f)\<rparr>, f1)))
   \<and> (fst (poll_write T f bs) = Pending \<longleftrightarrow> fst (tr_poll_ready T (inner f)) = Pending)
   \<and> (fst (framed_poll_flush T f) = Pending \<longleftrightarrow> fst (tr_poll_flush T (inner f)) = Pending)
   \<and> (fst (framed_poll_shutdown T f) = Pending \<longleftrightarrow> fst (tr_poll_close T (inner f)) = Pending)"
proof (intro conjI impI)
  assume "poll_read T f b = Finished (Pending, b', f')"
  note rd = poll_read_pending [OF this]
  from rd show "b' = b" by simp
  from fill_buf_pending [OF conjunct2 [OF rd]] show "chunk_bytes f = []" "chunk_bytes f' = []"
    "\<exists>t. tr_poll_next T t = (Pending, inner f')" by blast+
next
  assume c: "chunk_bytes f \<noteq> [] \<and> remaining b \<noteq> 0"
  then have fb: "poll_fill_buf T f = Some (Ready (Inr (chunk_bytes f)), f)"
    by (simp add: poll_fill_buf.simps has_chunk_iff has_chunkD)
  have "take (min (length (chunk_bytes f)) (remaining b)) (chunk_bytes f) = take (remaining b) (chunk_bytes f)"
    "drop (min (length (chunk_bytes f)) (remaining b)) (chunk_bytes f) = drop (remaining b) (chunk_bytes f)"
    by (simp_all add: min_def)
  with poll_read_ready [OF conjunct2 [OF c] fb] show "\<exists>f1. inner f1 = inner f
      \<and> chunk_bytes f1 = drop (remaining b) (chunk_bytes f)
      \<and> poll_read T f b
          = Finished (Ready (Inr ()), b\<lparr>filled := filled b @ take (remaining b) (chunk_bytes f)\<rparr>, f1)" by auto
next
  show "fst (poll_write T f bs) = Pending \<longleftrightarrow> fst (tr_poll_ready T (inner f)) = Pending"
    by (auto simp: poll_write_def split: prod.split poll.split sum.split)
qed (simp_all add: framed_poll_flush_def framed_poll_shutdown_def Let_def split: prod.split)

theorem pending_polls_are_the_transports_witness:
  "\<exists>f1. poll_read script_transport (\<lparr>inner = script_new [], chunk = Some [7, 8]\<rparr>) \<lparr>filled = [], capacity = 1\<rparr>
     = Finished (Ready (Inr ()), \<lparr>filled = [7], capacity = 1\<rparr>, f1) \<and> chunk_bytes f1 = [8]"
proof -
  let ?f = "\<lparr>inner = script_new [], chunk = Some [7, 8]\<rparr>" and ?b = "\<lparr>filled = [], capacity = 1\<rparr>"
  have "chunk_bytes ?f \<noteq> [] \<and> remaining ?b \<noteq> 0" by (simp add: chunk_bytes_def remaining_def)
  from pending_polls_are_the_transports [THEN conjunct2, THEN conjunct1, THEN mp, OF this, of script_transport]
  show ?thesis by (auto simp: chunk_bytes_def remaining_def)
qed



subsection \<open>Writing through the adapter\<close>

lemma script_write_outcome:
  assumes "poll_write script_transport f bs = (p, f1)"
  shows "chunk f1 = chunk f"
    and "p = Pending \<Longrightarrow> length (readiness (inner f1)) < length (readiness (inner f))"
    and "\<forall>n. p \<noteq> Ready (Inr n) \<Longrightarrow> frames (inner f1) = frames (inner f)"
    and "p = Ready (Inr n) \<Longrightarrow> n = length bs \<and> frames (inner f1) = frames (inner f) @ [bs]"
  using assms
  by (auto simp: poll_write_def script_transport_def
      split: list.splits poll.splits sum.splits option.splits)

text \<open>
  \<^verbatim>\<open>write_all\<close> on the adapter completes for every script of the transport, and is all or
  nothing: the buffer goes out as one frame, or no frame goes out and the caller gets the error.
\<close>

lemma write_all_sends_one_frame:
  "\<exists>f'. chunk f' = chunk f \<and>
     (write_all_polls (poll_write script_transport) f bs = Some (Inr (), f')
        \<and> frames (inner f') = frames (inner f) @ (if bs = [] then [] else [bs])
      \<or> (\<exists>e. write_all_polls (poll_write script_transport) f bs = Some (Inl e, f')
        \<and> frames (inner f') = frames (inner f)))"
proof (cases "bs = []")
  case True
  then show ?thesis by (intro exI [of _ f]) (simp add: write_all_polls.simps)
next
  case nonempty: False
  have "\<exists>f'. chunk f' = chunk f \<and>
     (write_all_polls (poll_write script_transport) f bs = Some (Inr (), f')
        \<and> frames (inner f') = frames (inner f) @ [bs]
      \<or> (\<exists>e. write_all_polls (poll_write script_transport) f bs = Some (Inl e, f')
        \<and> frames (inner f') = frames (inner f)))"
  proof (induction "length (readiness (inner f))" arbitrary: f rule: less_induct)
    case less
    obtain p f1 where w: "poll_write script_transport f bs = (p, f1)"
      by (cases "poll_write script_transport f bs")
    show ?case
    proof (cases p)
      case Pending
      with script_write_outcome [OF w] less [of f1] w nonempty show ?thesis
        by (subst (1 2) write_all_polls.simps) auto
    next
      case (Ready r)
      with script_write_outcome [OF w] w nonempty show ?thesis
        by (intro exI [of _ f1]; cases r; subst (1 2) write_all_polls.simps)
          (auto simp: write_all_polls.simps)
    qed
  qed
  with nonempty show ?thesis by simp
qed


subsection \<open>The initiation\<close>

definition initiation_bytes :: "u16 \<Rightarrow> bytes \<Rightarrow> bytes" where
  "initiation_bytes v payload = u16_to_be_bytes v @ [1] @ u16_to_be_bytes 96 @ payload"

lemma split_five:
  "5 \<le> length xs \<Longrightarrow> xs = xs ! 0 # xs ! 1 # xs ! 2 # xs ! 3 # xs ! 4 # drop 5 xs"
  by (intro nth_equalityI) (auto simp: nth_Cons numeral_eq_Suc split: nat.splits)

lemma u16_bytes_96: "u16_to_be_bytes 96 = [0, 96]"
  by (simp add: u16_to_be_bytes_def)

lemma initiation_nth:
  "(initiation_bytes v payload @ rest) ! 0 = u16_to_be_bytes v ! 0"
  "(initiation_bytes v payload @ rest) ! Suc 0 = u16_to_be_bytes v ! Suc 0"
  "(initiation_bytes v payload @ rest) ! 2 = 1"
  "(initiation_bytes v payload @ rest) ! 3 = 0" "(initiation_bytes v payload @ rest) ! 4 = 96"
  "drop 5 (initiation_bytes v payload) = payload"
  "length (initiation_bytes v payload) = 5 + length payload"
  by (simp_all add: initiation_bytes_def u16_bytes_96)
    (simp_all add: u16_to_be_bytes_def)

text \<open>
  C14. The initiations the responder accepts are exactly those with the layout of the protocol
  reference: version at least 113 in big endian, the initiation type, the length 96 in big endian,
  and a payload of 96 bytes, which is handed on unchanged. Bytes after the payload are ignored.
\<close>

theorem accepted_initiations:
  assumes "noise_lib_ok L"
  shows "parse_initiation L raw = Inr (v, payload)
    \<longleftrightarrow> 113 \<le> v \<and> length payload = 96 \<and> (\<exists>rest. raw = initiation_bytes v payload @ rest)"
proof
  assume "parse_initiation L raw = Inr (v, payload)"
  then have len: "101 \<le> length raw" and v: "v = u16_from_be_bytes (raw ! 0) (raw ! 1)" "113 \<le> v"
    and ty: "raw ! 2 = 1" and ln: "unat (u16_from_be_bytes (raw ! 3) (raw ! 4)) = 96"
    and pl: "payload = take 96 (drop 5 raw)"
    using assms by (auto simp: parse_initiation_Inr noise_lib_ok_def min_supported_capability_version_def)
  have "u16_from_be_bytes (raw ! 3) (raw ! 4) = 96" using ln by (simp add: word_unat_eq_iff)
  then have "u16_to_be_bytes 96 = [raw ! 3, raw ! 4]" using u16_from_to [of "raw ! 3" "raw ! 4"] by simp
  moreover have "raw = [raw ! 0, raw ! 1] @ [raw ! 2] @ [raw ! 3, raw ! 4] @ drop 5 raw"
    using split_five [of raw] len by simp
  ultimately have "raw = initiation_bytes v payload @ drop 96 (drop 5 raw)"
    using v(1) ty pl by (simp add: initiation_bytes_def u16_from_to del: drop_drop)
  then show "113 \<le> v \<and> length payload = 96 \<and> (\<exists>rest. raw = initiation_bytes v payload @ rest)"
    using len v(2) pl by auto
next
  assume r: "113 \<le> v \<and> length payload = 96 \<and> (\<exists>rest. raw = initiation_bytes v payload @ rest)"
  then obtain rest where raw: "raw = initiation_bytes v payload @ rest" by blast
  have "u16_from_be_bytes 0 96 = 96" by (simp add: u16_from_be_bytes_def)
  with raw r assms show "parse_initiation L raw = Inr (v, payload)"
    by (simp add: parse_initiation_Inr initiation_nth u16_be_round_trip [unfolded One_nat_def] noise_lib_ok_def
        min_supported_capability_version_def)
qed

theorem accepted_initiations_witness:
  "parse_initiation toy_noise (initiation_bytes 138 (replicate 96 5) @ [1, 2, 3])
     = Inr (138, replicate 96 5)"
  using accepted_initiations [OF toy_noise_ok, of "initiation_bytes 138 (replicate 96 5) @ [1, 2, 3]" 138 "replicate 96 5"]
  by auto

text \<open>
  A client below the minimum version is refused with both versions in the error, before any
  cryptography runs, whatever the rest of its initiation holds, and nothing is written to the
  socket.
\<close>

lemma old_client_refused:
  assumes "noise_lib_ok L" and "b64_decode L (str_trim b64) = Inr raw" and "101 \<le> length raw"
    and "u16_from_be_bytes (raw ! 0) (raw ! 1) < 113"
  shows "accept L W mk rnd s priv b64
    = Some (Inl (UnsupportedVersion (u16_from_be_bytes (raw ! 0) (raw ! 1)) 113), s)"
  using assms
  by (simp add: accept_def noise_simps noise_lib_ok_def)

text \<open>
  The prologue the handshake authenticates determines the version: two clients whose handshakes
  use the same prologue bytes speak the same version, so a version cannot be swapped in transit.
\<close>

lemma prologue_binds_version:
  "str_bytes (prologue v) = str_bytes (prologue w) \<longleftrightarrow> v = w"
  by (auto simp: prologue_def word_unat_eq_iff dest: show_dec_inject)


subsection \<open>The handshake on the socket\<close>

text \<open>
  C11. A successful handshake has put on the socket, after what was there, exactly one response: the
  type 2, the length of the message in big endian, the message. The peer key and the version are
  those of the handshake that authenticated the payload, the version is at least 113, and the
  stream starts with no held chunk.
\<close>

theorem accepted_handshake:
  assumes "noise_lib_ok L" and "accept L socket_writer mk rnd s priv b64 = Some (Inr a, s')"
  shows "\<exists>payload hs hi lo resp.
      received_new L payload (str_bytes (prologue (capability_version a))) (static_secret L priv) = Some hs
    \<and> peer_machine_key a = peer_static_pub L hs \<and> length payload = 96
    \<and> 113 \<le> capability_version a
    \<and> wire s' = wire s @ [2, hi, lo] @ resp
    \<and> unat (u16_from_be_bytes hi lo) = length resp \<and> length resp = resp_size L
    \<and> chunk (stream a) = None"
proof -
  obtain raw payload hs where ps: "parse_initiation L raw = Inr (capability_version a, payload)"
    and hs: "received_new L payload (str_bytes (prologue (capability_version a))) (static_secret L priv) = Some hs"
      "peer_machine_key a = peer_static_pub L hs" "chunk (stream a) = None"
    and w: "wire s' = wire s @ response_header L @ fst (hs_finish L hs (replicate (resp_size L) 0))"
    using socket.accept_out [OF assms(2)] by blast
  let ?len = "u16_to_be_bytes (usize_as_u16 (resp_size L))"
  have L: "init_size L = 96" "mt_response L = 2" "resp_size L < 2 ^ 16"
    "length (fst (hs_finish L hs buf)) = length buf" for buf
    using assms(1) by (simp_all add: noise_lib_ok_def)
  have "113 \<le> capability_version a" "length payload = 96"
    using ps L(1) by (auto simp: parse_initiation_Inr min_supported_capability_version_def)
  moreover have "unat (u16_from_be_bytes (?len ! 0) (?len ! 1)) = resp_size L"
    using L(3) by (simp add: u16_be_round_trip unat_usize_as_u16 del: One_nat_def)
  moreover have "response_header L = [2, ?len ! 0, ?len ! 1]"
    using L(2) by (simp add: response_header_def Let_def)
  ultimately show ?thesis using hs w L(4)
    by (intro exI [of _ payload] exI [of _ hs] exI [of _ "?len ! 0"] exI [of _ "?len ! 1"]
        exI [of _ "fst (hs_finish L hs (replicate (resp_size L) 0))"]) simp
qed

text \<open>An initiation the stand-in accepts, as text.\<close>

definition good_initiation :: string where
  "good_initiation = map char_of [0 :: nat, 138, 1, 0, 96] @ replicate 96 (CHR 0x05)"

lemma good_initiation_bytes: "str_bytes good_initiation = [0, 138, 1, 0, 96] @ replicate 96 5"
  by (simp add: good_initiation_def str_bytes_def)

lemma good_initiation_trim: "str_trim good_initiation = good_initiation"
  by code_simp

lemma good_initiation_parses: "parse_initiation toy_noise (str_bytes good_initiation) = Inr (138, replicate 96 5)"
  by (simp add: good_initiation_bytes noise_simps u16_from_be_bytes_def)

lemma good_initiation_accepted:
  "accept toy_noise socket_writer mk rnd socket_new priv good_initiation
     = Some (Inr \<lparr>stream = framed_new (mk (socket_new\<lparr>wire := [2, 0, 48] @ replicate 48 7\<rparr>) ()),
         capability_version = 138, peer_machine_key = replicate 32 5, acc_node_key_challenge = rnd\<rparr>,
       socket_new\<lparr>wire := [2, 0, 48] @ replicate 48 7\<rparr>)"
proof -
  have hdr: "response_header toy_noise = [2, 0, 48]"
    by (simp add: response_header_def u16_to_be_bytes_def usize_as_u16_def)
  show ?thesis
    by (simp add: accept_def good_initiation_trim good_initiation_parses hdr calm_write calm_flush socket_new_def)
qed

theorem accepted_handshake_witness:
  "\<exists>a s' hi lo resp. accept toy_noise socket_writer (\<lambda>_ _. ()) [] socket_new [] good_initiation = Some (Inr a, s')
     \<and> wire s' = [2, hi, lo] @ resp \<and> length resp = 48"
  using accepted_handshake [OF toy_noise_ok good_initiation_accepted] good_initiation_accepted
  by (fastforce simp: socket_new_def)

text \<open>
  A refused initiation, for whatever reason but an I/O error of the socket itself, has written
  nothing to it.
\<close>

lemma refusal_writes_nothing:
  assumes "accept L W mk rnd s priv b64 = Some (Inl e, s')"
  shows "s' = s \<or> (\<exists>io. e = NoiseIo io)"
  using assms
  by (auto simp: accept_def await_io_def Let_def split: sum.splits option.splits prod.splits)

lemma refusal_writes_nothing_witness:
  "\<exists>e s'. accept toy_noise socket_writer (\<lambda>_ _. ()) [] socket_new [] [] = Some (Inl e, s') \<and> s' = socket_new"
proof -
  have "str_trim [] = []" by code_simp
  then have "accept toy_noise socket_writer (\<lambda>_ _. ()) [] socket_new [] []
      = Some (Inl (BadInitiation ''initiation too short''), socket_new)"
    by (simp add: accept_def noise_simps)
  from refusal_writes_nothing [OF this] this show ?thesis by auto
qed

lemma accept_completes: "\<exists>q. accept L socket_writer mk rnd s priv b64 = Some q"
proof -
  have w: "\<exists>y. w_write_all socket_writer s bs = Some y" "\<exists>y. w_flush socket_writer s = Some y" for s bs
    using socket_write_all_completes socket_flush_completes by (simp_all add: socket_writer_def)
  have step: "(\<And>s. \<exists>q. k s = Some q) \<Longrightarrow> \<exists>q. await_io (w_write_all socket_writer s bs) k = Some q"
    "(\<And>s. \<exists>q. k s = Some q) \<Longrightarrow> \<exists>q. await_io (w_flush socket_writer s) k = Some q"
    for s bs and k :: "socket \<Rightarrow> ((noise_error + 'f accepted) \<times> socket) option"
    using w await_io_completes by blast+
  show ?thesis
    by (auto simp: accept_def Let_def simp del: split_paired_Ex
        split: sum.split option.split prod.split intro!: step)
qed



subsection \<open>EarlyNoise and the key response\<close>

lemma early_noise_magic_bytes: "early_noise_magic = [255, 255, 255, 84, 83]"
  by (simp add: early_noise_magic_def str_bytes_def)

lemma u32_bytes: "\<exists>a b c d. u32_to_be_bytes w = [a, b, c, d] \<and> u32_from_be_bytes a b c d = w"
  using u32_be_round_trip by (fastforce simp: u32_to_be_bytes_def)

text \<open>
  What a client reads out of the stream is the frame the server wrote: for JSON below the four
  gigabytes its length field can count, the frame parses back to exactly that JSON and leaves what
  follows untouched.
\<close>

lemma early_noise_frame_round_trip:
  assumes "length js < 2 ^ 32"
  shows "read_early_noise (early_noise_frame js @ rest) = Some (js, rest)"
proof -
  obtain a b c d where u: "u32_to_be_bytes (usize_as_u32 (length js)) = [a, b, c, d]"
    "u32_from_be_bytes a b c d = usize_as_u32 (length js)"
    using u32_bytes by blast
  with assms show ?thesis
    by (simp add: read_early_noise_def early_noise_frame_def early_noise_magic_bytes
        unat_usize_as_u32 Let_def)
      (simp add: add.commute [of 9] flip: drop_drop)
qed

text \<open>The frame is the one of the protocol, byte for byte; its length field never truncates.\<close>

definition early_noise_wire :: "key \<Rightarrow> bytes" where
  "early_noise_wire k =
     [0xFF, 0xFF, 0xFF, 0x54, 0x53, 0, 0, 0, 95]
     @ str_bytes (''{'' @ json_quote ''NodeKeyChallenge'' @ '':'' @ json_quote (''chalpub:'' @ hex k) @ ''}'')"

lemma early_noise_frame_bytes:
  assumes "key_text_ok K" and "length (node_key_challenge e) = 32"
  shows "early_noise_frame (str_bytes (json_text (early_noise_to_json K e))) = early_noise_wire (node_key_challenge e)"
proof -
  have "u32_to_be_bytes (usize_as_u32 95) = [0, 0, 0, 95]"
    by (simp add: u32_to_be_bytes_def usize_as_u32_def)
  with early_noise_text(4) [OF assms] show ?thesis
    by (simp add: early_noise_frame_def early_noise_magic_bytes early_noise_wire_def early_noise_text(1) [OF assms]
        del: append_Cons append.simps)
qed

text \<open>A successful write of EarlyNoise has put exactly the frame on the stream.\<close>

lemma early_noise_sent:
  assumes "key_text_ok K" and "length (node_key_challenge e) = 32"
    and "json_ok_for J (early_noise_to_json K e)"
    and "write_early_noise (js_to_vec J) K (framed_writer script_transport) f e = Some (Inr (), f')"
  shows "script_sent (inner f') = script_sent (inner f) @ early_noise_wire (node_key_challenge e)"
proof -
  have js: "js_to_vec J (early_noise_to_json K e) = Inr (str_bytes (json_text (early_noise_to_json K e)))"
    using assms(3) early_noise_text(2) [OF assms(1,2)] by (simp add: json_ok_for_def)
  then show ?thesis
    using script_writes.framed_writer.early_noise_out [OF assms(4) js] early_noise_frame_bytes [OF assms(1,2)]
    by auto
qed

lemma early_noise_read:
  assumes "key_text_ok K" and "length (node_key_challenge e) = 32"
    and "json_ok_for J (early_noise_to_json K e)"
  shows "\<exists>js. read_early_noise (early_noise_wire (node_key_challenge e) @ rest) = Some (js, rest)
    \<and> Option.bind (js_from_slice J js) (early_noise_from_json K) = Some e"
proof -
  let ?js = "str_bytes (json_text (early_noise_to_json K e))"
  have "length ?js < 2 ^ 32" using early_noise_text(4) [OF assms(1,2)] by simp
  then have "read_early_noise (early_noise_wire (node_key_challenge e) @ rest) = Some (?js, rest)"
    by (simp add: early_noise_frame_round_trip flip: early_noise_frame_bytes [OF assms(1,2)])
  with assms(3) early_noise_text(2,3) [OF assms(1,2)] show ?thesis by (simp add: json_ok_for_def)
qed

text \<open>
  C31. End to end: when the server's write of EarlyNoise succeeds, the encrypted stream carries, after
  what was there, exactly the 104 bytes of the protocol: the magic, the length 95 in big endian, and
  the JSON object with the one field and the key as hexadecimal text. The client that reads them, whatever
  follows, gets back the challenge key the server chose.
\<close>

theorem early_noise_reaches_client:
  assumes "key_text_ok K" and "length (node_key_challenge e) = 32"
    and "json_ok_for J (early_noise_to_json K e)"
    and "write_early_noise (js_to_vec J) K (framed_writer script_transport) f e = Some (Inr (), f')"
  shows "script_sent (inner f') = script_sent (inner f) @ early_noise_wire (node_key_challenge e)
    \<and> length (early_noise_wire (node_key_challenge e)) = 104
    \<and> (\<exists>js. read_early_noise (early_noise_wire (node_key_challenge e) @ rest) = Some (js, rest)
        \<and> Option.bind (js_from_slice J js) (early_noise_from_json K) = Some e)"
proof -
  have "length (early_noise_wire (node_key_challenge e)) = 104"
    using assms(2) by (simp add: early_noise_wire_def json_quote_def)
  with early_noise_sent [OF assms] early_noise_read [OF assms(1-3)] show ?thesis by blast
qed

text \<open>A JSON library that writes every tree as its text and reads back the trees of one challenge.\<close>

definition toy_challenge :: early_noise where
  "toy_challenge = \<lparr>node_key_challenge = replicate 32 9\<rparr>"

definition toy_trees :: "json list" where
  "toy_trees =
     [early_noise_to_json hex_keys toy_challenge,
      over_tls_to_json hex_keys (over_tls_new hex_keys (replicate 32 0x11)),
      over_tls_to_json hex_keys (over_tls_new hex_keys (replicate 32 0xAB))]"

definition toy_json :: json_lib where
  "toy_json =
     \<lparr>js_to_vec = (\<lambda>j. Inr (str_bytes (json_text j))),
      js_from_slice = (\<lambda>bs. find (\<lambda>j. str_bytes (json_text j) = bs) toy_trees)\<rparr>"

lemma toy_json_ok:
  assumes "j \<in> set toy_trees"
  shows "json_ok_for toy_json j"
proof -
  have "distinct (map json_text toy_trees)"
    by (simp add: toy_trees_def toy_challenge_def early_noise_text(1) over_tls_text(1) json_quote_def
        hex_inject replicate_eq_replicate)
  then have "find (\<lambda>i. str_bytes (json_text i) = str_bytes (json_text j)) toy_trees = Some j"
    using assms by (auto simp: toy_trees_def)
  then show ?thesis by (simp add: json_ok_for_def toy_json_def)
qed

lemma calm_early_noise:
  assumes "to_vec (early_noise_to_json K e) = Inr js"
  shows "write_early_noise to_vec K (framed_writer script_transport) (framed_new (script_new [])) e
     = Some (Inr (), framed_new (script_new []\<lparr>frames := [early_noise_frame js]\<rparr>))"
proof -
  let ?f = "framed_new (script_new [])"
  let ?g = "framed_new (script_new []\<lparr>frames := [early_noise_frame js]\<rparr>)"
  have "early_noise_frame js \<noteq> []" by (simp add: early_noise_frame_def early_noise_magic_bytes)
  then have "write_all_polls (poll_write script_transport) ?f (early_noise_frame js) = Some (Inr (), ?g)"
    by (simp add: write_all_polls.simps poll_write_def framed_new_def script_new_def script_transport_def)
  moreover have "await_poll (framed_poll_flush script_transport) ?g = Some (Inr (), ?g)"
    by (simp add: await_poll.simps framed_poll_flush_def framed_new_def script_new_def script_transport_def
        map_poll_def)
  ultimately show ?thesis using assms by (simp add: write_early_noise_def framed_writer_def)
qed

definition toy_frame :: bytes where
  "toy_frame = early_noise_frame (str_bytes (json_text (early_noise_to_json hex_keys toy_challenge)))"

lemma toy_early_noise:
  "write_early_noise (js_to_vec toy_json) hex_keys (framed_writer script_transport) (framed_new (script_new []))
     toy_challenge
     = Some (Inr (), framed_new (script_new []\<lparr>frames := [toy_frame]\<rparr>))"
  unfolding toy_frame_def by (rule calm_early_noise) (simp add: toy_json_def)

theorem early_noise_reaches_client_witness:
  "\<exists>js. read_early_noise (early_noise_wire (replicate 32 9) @ [80, 82, 73]) = Some (js, [80, 82, 73])
    \<and> Option.bind (js_from_slice toy_json js) (early_noise_from_json hex_keys) = Some toy_challenge"
  using early_noise_reaches_client [OF hex_keys_ok _ _ toy_early_noise, of "[80, 82, 73]"]
  by (simp add: toy_challenge_def [symmetric] toy_json_ok toy_trees_def)
    (simp add: toy_challenge_def)

text \<open>
  C38. The body of \<^verbatim>\<open>GET /key\<close> is, byte for byte, the JSON object of the Go server: exactly the two
  fields in their order, with the names in PascalCase, the legacy key zero and the given key as
  hexadecimal text, without white space. It reads back as the response that was sent.
\<close>

theorem key_response_json:
  assumes "key_text_ok K" and "length k = 32" and "json_ok_for J (over_tls_to_json K (over_tls_new K k))"
  shows "js_to_vec J (over_tls_to_json K (over_tls_new K k))
      = Inr (str_bytes (''{'' @ json_quote ''LegacyPublicKey'' @ '':'' @ json_quote (''mkey:'' @ hex (replicate 32 0))
          @ '','' @ json_quote ''PublicKey'' @ '':'' @ json_quote (''mkey:'' @ hex k) @ ''}''))
    \<and> (\<forall>bs. js_to_vec J (over_tls_to_json K (over_tls_new K k)) = Inr bs \<longrightarrow>
         Option.bind (js_from_slice J bs) (over_tls_from_json K) = Some (over_tls_new K k))"
  using assms(3) over_tls_text [OF assms(1,2)] by (simp add: json_ok_for_def)

theorem key_response_json_witness:
  "\<exists>bs. js_to_vec toy_json (over_tls_to_json hex_keys (over_tls_new hex_keys (replicate 32 0x11))) = Inr bs
     \<and> Option.bind (js_from_slice toy_json bs) (over_tls_from_json hex_keys)
        = Some (over_tls_new hex_keys (replicate 32 0x11))"
  using key_response_json [OF hex_keys_ok, of "replicate 32 0x11" toy_json]
  by (simp add: toy_json_ok toy_trees_def)

end
