(* ===== verification/Server.thy ===== *)
theory Server
  imports Responder
begin

text \<open>
  The HTTP edge, \<^verbatim>\<open>control-core/src/server/mod.rs\<close>: the routes, the two HTTP/1.1 handlers, the
  connection task that \<^verbatim>\<open>POST /ts2021\<close> spawns, and the handler inside the Noise tunnel. Of
  axum and hyper the model keeps what the code hands to them and takes from them: a request is
  what its headers answer, a response is what the handler sets. The life of one connection, from
  request to HTTP/2, is a step relation.
\<close>


subsection \<open>Requests, responses, state\<close>

text \<open>
  \<open>req_headers\<close> is the function \<^verbatim>\<open>HeaderMap::get\<close> computes: header names to the first value, as
  bytes. Names are in lower case, in which header names are compared.
\<close>

record request =
  req_method :: string
  req_path :: string
  req_headers :: "string \<rightharpoonup> bytes"

datatype body = EmptyBody | TextBody string | JsonBody over_tls_public_key_response

record response =
  status :: nat
  headers :: "(string \<times> string) list"
  body :: body

datatype server_error = ServerIo io_error | ServerNoise noise_error | Http2 string

record machine_key_pair =
  private_half :: key
  public_half :: key

record 'st server_state =
  server_key :: machine_key_pair
  state_store :: 'st

definition server_state_new :: "machine_key_pair \<Rightarrow> 'st \<Rightarrow> 'st server_state" where
  "server_state_new k st = \<lparr>server_key = k, state_store = st\<rparr>"


subsection \<open>HTTP/1.1\<close>

datatype handler = GetKey | Ts2021Upgrade

text \<open>The routing table: method, path, handler.\<close>

definition router :: "(string \<times> string \<times> handler) list" where
  "router = [(''GET'', ''/key'', GetKey), (''POST'', ''/ts2021'', Ts2021Upgrade)]"

text \<open>The handler the router finds for a request, by method and path.\<close>

definition routed :: "request \<Rightarrow> handler option" where
  "routed req = map_of (map (\<lambda>(m, p, h). ((m, p), h)) router) (req_method req, req_path req)"

definition serve_listener ::
  "('l \<Rightarrow> (string \<times> string \<times> handler) list \<Rightarrow> 'st server_state \<Rightarrow> io_error + unit) \<Rightarrow> 'l
     \<Rightarrow> 'st server_state \<Rightarrow> server_error + unit" where
  "serve_listener axum_serve listener st = map_err ServerIo (axum_serve listener router st)"

definition get_key :: "key_lib \<Rightarrow> 'st server_state \<Rightarrow> request \<Rightarrow> response" where
  "get_key K st req =
     \<lparr>status = 200, headers = [], body = JsonBody (over_tls_new K (public_half (server_key st)))\<rparr>"

text \<open>The connection task: the key and the handshake header it runs with.\<close>

record conn_task =
  task_key :: machine_key_pair
  task_init_b64 :: string

text \<open>
  \<open>to_str\<close> is \<^verbatim>\<open>HeaderValue::to_str\<close>, \<open>None\<close> when the value is not visible ASCII. The result is the
  response and the task spawned, if any.
\<close>

definition ts2021_upgrade ::
  "(bytes \<Rightarrow> string option) \<Rightarrow> 'st server_state \<Rightarrow> request \<Rightarrow> response \<times> conn_task option" where
  "ts2021_upgrade to_str st req =
     (let has_upgrade = (case req_headers req ''upgrade'' of Some v \<Rightarrow> v \<noteq> [] | None \<Rightarrow> False) in
      if \<not> has_upgrade
      then (\<lparr>status = 500, headers = [], body = TextBody ''missing upgrade header''\<rparr>, None)
      else
        (case Option.bind (req_headers req ''x-tailscale-handshake'') to_str of
           None \<Rightarrow> (\<lparr>status = 400, headers = [], body = TextBody ''missing handshake header''\<rparr>, None)
         | Some init_b64 \<Rightarrow>
             (\<lparr>status = 101, headers = [(''connection'', ''upgrade''), (''upgrade'', upgrade_ts2021)],
                body = EmptyBody\<rparr>,
              Some \<lparr>task_key = server_key st, task_init_b64 = init_b64\<rparr>)))"

text \<open>
  What the server answers to a request, and the task it spawns for it. The answers axum gives by
  itself, where no route matches, are a parameter.
\<close>

definition dispatch ::
  "(request \<Rightarrow> response) \<Rightarrow> (bytes \<Rightarrow> string option) \<Rightarrow> key_lib \<Rightarrow> 'st server_state \<Rightarrow> request
     \<Rightarrow> response \<times> conn_task option" where
  "dispatch unmatched to_str K st req =
     (case routed req of
        None \<Rightarrow> (unmatched req, None)
      | Some GetKey \<Rightarrow> (get_key K st req, None)
      | Some Ts2021Upgrade \<Rightarrow> ts2021_upgrade to_str st req)"


subsection \<open>Inside the tunnel\<close>

definition handle_machine :: "request \<Rightarrow> response" where
  "handle_machine req =
     \<lparr>status = 200, headers = [(''content-type'', ''application/json'')], body = TextBody ''{}''\<rparr>"

text \<open>
  What a connection needs from outside: the handshake crates, the JSON writer and the key codec;
  a writer for the hijacked socket and one for the encrypted stream; the construction of the
  transport; the random secret; and hyper's HTTP/2 server, which is given the handler and the
  stream and ends with an error text or normally.
\<close>

record ('sk, 'hs, 'sess, 's, 't) conn_env =
  ce_noise :: "('sk, 'hs, 'sess) noise_lib"
  ce_to_vec :: "json \<Rightarrow> string + bytes"
  ce_keys :: key_lib
  ce_socket :: "'s writer"
  ce_stream :: "'t framed_io writer"
  ce_framed :: "'s \<Rightarrow> 'sess \<Rightarrow> 't"
  ce_random :: 'sk
  ce_http2 :: "(request \<Rightarrow> response) \<Rightarrow> 't framed_io \<Rightarrow> (string + unit) option"

text \<open>
  The result of a connection; and, if HTTP/2 was started, the socket as the handshake left it and the encrypted
  stream, inside of which that socket is from then on, with which HTTP/2 started.
\<close>

definition run_noise_connection ::
  "('sk, 'hs, 'sess, 's, 't) conn_env \<Rightarrow> 's \<Rightarrow> machine_key_pair \<Rightarrow> string
     \<Rightarrow> ((server_error + unit) \<times> ('s \<times> 't framed_io) option) option" where
  "run_noise_connection E io k init_b64 =
     (case accept (ce_noise E) (ce_socket E) (ce_framed E) (ce_random E) io (private_half k) init_b64 of
        None \<Rightarrow> None
      | Some (Inl e, _) \<Rightarrow> Some (Inl (ServerNoise e), None)
      | Some (Inr accepted, io1) \<Rightarrow>
          let early = \<lparr>node_key_challenge = acc_node_key_challenge accepted\<rparr> in
          (case write_early_noise (ce_to_vec E) (ce_keys E) (ce_stream E) (stream accepted) early of
             None \<Rightarrow> None
           | Some (Inl e, _) \<Rightarrow> Some (Inl (ServerNoise e), None)
           | Some (Inr _, st) \<Rightarrow>
               (case ce_http2 E handle_machine st of
                  None \<Rightarrow> None
                | Some r \<Rightarrow> Some (map_err Http2 r, Some (io1, st)))))"


subsection \<open>The life of a connection\<close>

text \<open>
  The states of one \<^verbatim>\<open>/ts2021\<close> connection: the request, the answer without an upgrade, the wait
  for hyper's upgrade, the hijacked socket, the established tunnel, HTTP/2 with the requests it
  has answered, and the end with the error it logs, if any.
\<close>

datatype ('s, 't) conn =
    Received request
  | Refused response
  | Upgrading conn_task
  | Hijacked conn_task 's
  | Tunnel "'t accepted"
  | Serving "'t framed_io" "(request \<times> response) list"
  | Closed "server_error option"
  | NoUpgrade string

inductive conn_step ::
  "(bytes \<Rightarrow> string option) \<Rightarrow> 'st server_state \<Rightarrow> ('sk, 'hs, 'sess, 's, 't) conn_env
     \<Rightarrow> ('s, 't) conn \<Rightarrow> ('s, 't) conn \<Rightarrow> bool" for to_str st E where
  refuse: "ts2021_upgrade to_str st req = (resp, None) \<Longrightarrow>
     conn_step to_str st E (Received req) (Refused resp)"
| switch: "ts2021_upgrade to_str st req = (resp, Some task) \<Longrightarrow>
     conn_step to_str st E (Received req) (Upgrading task)"
| upgraded: "conn_step to_str st E (Upgrading task) (Hijacked task s)"
| upgrade_fails: "conn_step to_str st E (Upgrading task) (NoUpgrade e)"
| handshake:
    "accept (ce_noise E) (ce_socket E) (ce_framed E) (ce_random E) s
       (private_half (task_key task)) (task_init_b64 task) = Some (Inr a, s') \<Longrightarrow>
     conn_step to_str st E (Hijacked task s) (Tunnel a)"
| handshake_fails:
    "accept (ce_noise E) (ce_socket E) (ce_framed E) (ce_random E) s
       (private_half (task_key task)) (task_init_b64 task) = Some (Inl e, s') \<Longrightarrow>
     conn_step to_str st E (Hijacked task s) (Closed (Some (ServerNoise e)))"
| announce:
    "write_early_noise (ce_to_vec E) (ce_keys E) (ce_stream E) (stream a)
       \<lparr>node_key_challenge = acc_node_key_challenge a\<rparr> = Some (Inr (), f) \<Longrightarrow>
     conn_step to_str st E (Tunnel a) (Serving f [])"
| announce_fails:
    "write_early_noise (ce_to_vec E) (ce_keys E) (ce_stream E) (stream a)
       \<lparr>node_key_challenge = acc_node_key_challenge a\<rparr> = Some (Inl e, f) \<Longrightarrow>
     conn_step to_str st E (Tunnel a) (Closed (Some (ServerNoise e)))"
| answer: "conn_step to_str st E (Serving f log) (Serving f' (log @ [(req, handle_machine req)]))"
| finish: "conn_step to_str st E (Serving f log) (Closed None)"
| http2_fails: "conn_step to_str st E (Serving f log) (Closed (Some (Http2 e)))"

abbreviation conn_steps ::
  "(bytes \<Rightarrow> string option) \<Rightarrow> 'st server_state \<Rightarrow> ('sk, 'hs, 'sess, 's, 't) conn_env
     \<Rightarrow> ('s, 't) conn \<Rightarrow> ('s, 't) conn \<Rightarrow> bool" where
  "conn_steps to_str st E \<equiv> (conn_step to_str st E)\<^sup>*\<^sup>*"

inductive_cases from_refused: "conn_step to_str st E (Refused r) c"
inductive_cases from_closed: "conn_step to_str st E (Closed r) c"
inductive_cases from_no_upgrade: "conn_step to_str st E (NoUpgrade e) c"
inductive_simps to_tunnel: "conn_step to_str st E c (Tunnel a)"

end
