(* ===== verification/Control_Api.thy ===== *)
theory Control_Api
  imports Server File_Store
begin

text \<open>
  The embedding API of the crate \<^verbatim>\<open>control-api\<close> (\<^verbatim>\<open>server.rs\<close>, \<^verbatim>\<open>routing.rs\<close>, \<^verbatim>\<open>events.rs\<close>) and the
  binary \<^verbatim>\<open>tailcontrold\<close>: the builder, the server handle it makes, and the start-up that binds and
  serves.
\<close>


subsection \<open>Routing strategies and events\<close>

record tenant_routing =
  subdomain :: bool
  path_prefix :: bool
  optional_mtls :: bool

definition routing_default :: tenant_routing where
  "routing_default = \<lparr>subdomain = False, path_prefix = False, optional_mtls = False\<rparr>"

definition routing_subdomain :: tenant_routing where
  "routing_subdomain = \<lparr>subdomain = True, path_prefix = False, optional_mtls = False\<rparr>"

definition routing_path_prefix :: tenant_routing where
  "routing_path_prefix = \<lparr>subdomain = False, path_prefix = True, optional_mtls = False\<rparr>"

definition routing_all :: tenant_routing where
  "routing_all = \<lparr>subdomain = True, path_prefix = True, optional_mtls = True\<rparr>"

datatype api_event =
    NodeOnline network_id node_id
  | NodeOffline network_id node_id
  | NodeRegistered network_id node_id


subsection \<open>The builder\<close>

datatype api_error = MissingStore | Bind string io_error | Serve server_error

definition default_listen :: string where
  "default_listen = ''0.0.0.0:8080''"

text \<open>\<^verbatim>\<open>Arc<dyn Store>\<close>: one of the bundled backends or one the host implements.\<close>

datatype 'h dyn_store = MemoryBackend memory_store | FileBackend file_store | HostBackend 'h

record 'h server_builder =
  b_store :: "'h dyn_store option"
  b_listen :: "string option"
  b_tenant_routing :: tenant_routing
  b_server_key :: "machine_key_pair option"

definition builder_new :: "'h server_builder" where
  "builder_new =
     \<lparr>b_store = None, b_listen = None, b_tenant_routing = routing_default, b_server_key = None\<rparr>"

definition builder_store :: "'h dyn_store \<Rightarrow> 'h server_builder \<Rightarrow> 'h server_builder" where
  "builder_store s b = b\<lparr>b_store := Some s\<rparr>"

definition builder_memory_store :: "'h server_builder \<Rightarrow> 'h server_builder" where
  "builder_memory_store b = b\<lparr>b_store := Some (MemoryBackend memory_new)\<rparr>"

definition builder_listen :: "string \<Rightarrow> 'h server_builder \<Rightarrow> 'h server_builder" where
  "builder_listen addr b = b\<lparr>b_listen := Some addr\<rparr>"

definition builder_tenant_routing :: "tenant_routing \<Rightarrow> 'h server_builder \<Rightarrow> 'h server_builder" where
  "builder_tenant_routing r b = b\<lparr>b_tenant_routing := r\<rparr>"

definition builder_server_key :: "machine_key_pair \<Rightarrow> 'h server_builder \<Rightarrow> 'h server_builder" where
  "builder_server_key k b = b\<lparr>b_server_key := Some k\<rparr>"

record 'h control_server =
  cs_store :: "'h dyn_store"
  cs_listen :: string
  cs_server_key :: machine_key_pair
  cs_tenant_routing :: tenant_routing

definition unwrap_or :: "'a \<Rightarrow> 'a option \<Rightarrow> 'a" where
  "unwrap_or d x = (case x of None \<Rightarrow> d | Some a \<Rightarrow> a)"

text \<open>\<open>fresh\<close> is the key pair \<^verbatim>\<open>MachineKeyPair::default()\<close> generates.\<close>

definition build :: "machine_key_pair \<Rightarrow> 'h server_builder \<Rightarrow> api_error + 'h control_server" where
  "build fresh b =
     and_then (ok_or MissingStore (b_store b)) (\<lambda>s.
       Inr \<lparr>cs_store = s, cs_listen = unwrap_or default_listen (b_listen b),
            cs_server_key = unwrap_or fresh (b_server_key b),
            cs_tenant_routing = b_tenant_routing b\<rparr>)"


subsection \<open>The server handle\<close>

definition control_server_builder :: "'h server_builder" where
  "control_server_builder = builder_new"

definition control_server_store :: "'h control_server \<Rightarrow> 'h dyn_store" where
  "control_server_store cs = cs_store cs"

definition server_public_key :: "'h control_server \<Rightarrow> key" where
  "server_public_key cs = public_half (cs_server_key cs)"

definition listen_addr :: "'h control_server \<Rightarrow> string" where
  "listen_addr cs = cs_listen cs"

definition tenant_routing_of :: "'h control_server \<Rightarrow> tenant_routing" where
  "tenant_routing_of cs = cs_tenant_routing cs"

text \<open>
  \<open>bind\<close> is \<^verbatim>\<open>TcpListener::bind\<close> and \<open>axum_serve\<close> is \<^verbatim>\<open>axum::serve\<close>, which runs until shutdown.
\<close>

definition control_serve ::
  "(string \<Rightarrow> io_error + 'l)
     \<Rightarrow> ('l \<Rightarrow> (string \<times> string \<times> handler) list \<Rightarrow> 'h dyn_store server_state \<Rightarrow> io_error + unit)
     \<Rightarrow> 'h control_server \<Rightarrow> api_error + unit" where
  "control_serve bind axum_serve cs =
     and_then (map_err (Bind (cs_listen cs)) (bind (cs_listen cs))) (\<lambda>listener.
       map_err Serve
         (serve_listener axum_serve listener (server_state_new (cs_server_key cs) (cs_store cs))))"

text \<open>
  \<^verbatim>\<open>main\<close> of \<^verbatim>\<open>tailcontrold\<close>: \<open>var\<close> is what \<^verbatim>\<open>std::env::var("OXISCALE_LISTEN")\<close> returned.
\<close>

definition tailcontrold_main ::
  "'v + string \<Rightarrow> machine_key_pair \<Rightarrow> (string \<Rightarrow> io_error + 'l)
     \<Rightarrow> ('l \<Rightarrow> (string \<times> string \<times> handler) list \<Rightarrow> unit dyn_store server_state \<Rightarrow> io_error + unit)
     \<Rightarrow> api_error + unit" where
  "tailcontrold_main var fresh bind axum_serve =
     (let listen = (case var of Inl _ \<Rightarrow> ''0.0.0.0:8080'' | Inr s \<Rightarrow> s) in
      and_then (build fresh (builder_listen listen (builder_memory_store builder_new)))
        (control_serve bind axum_serve))"

end
