(* ===== verification/Edge_Correctness.thy ===== *)
theory Edge_Correctness
  imports Noise_Correctness Control_Api
begin

text \<open>
  The properties of the HTTP edge and of the embedding API: how an upgrade request is answered,
  when HTTP/2 runs on a connection, that connections only move forward, and what the builder
  builds.
\<close>


subsection \<open>The upgrade request\<close>

text \<open>
  An upgrade request starts a connection task exactly when its Upgrade header is present and
  not empty and its handshake header is present and readable; the task gets the server's key pair
  and the text of the header. Only then the answer is 101; a missing Upgrade header gives 500
  whatever else the request holds, a missing or unreadable handshake header 400.
\<close>

lemma upgrade_answers:
  "snd (ts2021_upgrade to_str st req)
     = (if \<exists>v. req_headers req ''upgrade'' = Some v \<and> v \<noteq> []
        then map_option (\<lambda>h. \<lparr>task_key = server_key st, task_init_b64 = h\<rparr>)
               (Option.bind (req_headers req ''x-tailscale-handshake'') to_str)
        else None)
   \<and> status (fst (ts2021_upgrade to_str st req))
     = (if \<exists>v. req_headers req ''upgrade'' = Some v \<and> v \<noteq> []
        then if \<exists>v h. req_headers req ''x-tailscale-handshake'' = Some v \<and> to_str v = Some h then 101 else 400
        else 500)"
  by (auto simp: ts2021_upgrade_def Let_def bind_eq_Some_conv split: option.split)


subsection \<open>The life of a connection\<close>

text \<open>What is known of a connection in each of its states.\<close>

definition upgrade_task ::
  "(bytes \<Rightarrow> string option) \<Rightarrow> 'st server_state \<Rightarrow> request \<Rightarrow> conn_task \<Rightarrow> bool" where
  "upgrade_task to_str st req task \<longleftrightarrow> snd (ts2021_upgrade to_str st req) = Some task"

definition tunnel_open ::
  "(bytes \<Rightarrow> string option) \<Rightarrow> 'st server_state \<Rightarrow> ('sk, 'hs, 'sess, 's, 't) conn_env \<Rightarrow> request
     \<Rightarrow> 't accepted \<Rightarrow> bool" where
  "tunnel_open to_str st E req a \<longleftrightarrow>
     (\<exists>task s s'. upgrade_task to_str st req task
        \<and> accept (ce_noise E) (ce_socket E) (ce_framed E) (ce_random E) s
            (private_half (task_key task)) (task_init_b64 task) = Some (Inr a, s'))"

fun conn_ok ::
  "(bytes \<Rightarrow> string option) \<Rightarrow> 'st server_state \<Rightarrow> ('sk, 'hs, 'sess, 's, 't) conn_env \<Rightarrow> request
     \<Rightarrow> ('s, 't) conn \<Rightarrow> bool" where
  "conn_ok to_str st E req (Received r) = (r = req)"
| "conn_ok to_str st E req (Refused resp) = (\<forall>task. \<not> upgrade_task to_str st req task)"
| "conn_ok to_str st E req (Upgrading task) = upgrade_task to_str st req task"
| "conn_ok to_str st E req (Hijacked task s) = upgrade_task to_str st req task"
| "conn_ok to_str st E req (Tunnel a) = tunnel_open to_str st E req a"
| "conn_ok to_str st E req (Serving f log) =
     ((\<exists>a f0. tunnel_open to_str st E req a
        \<and> write_early_noise (ce_to_vec E) (ce_keys E) (ce_stream E) (stream a)
            \<lparr>node_key_challenge = acc_node_key_challenge a\<rparr> = Some (Inr (), f0))
      \<and> (\<forall>(r, p) \<in> set log. p = handle_machine r))"
| "conn_ok to_str st E req (Closed e) = True"
| "conn_ok to_str st E req (NoUpgrade e) = True"

lemma conn_ok_step:
  "conn_step to_str st E c c' \<Longrightarrow> conn_ok to_str st E req c \<Longrightarrow> conn_ok to_str st E req c'"
  by (induction rule: conn_step.induct) (auto simp: upgrade_task_def tunnel_open_def)

lemma conn_ok_steps:
  "conn_steps to_str st E c c' \<Longrightarrow> conn_ok to_str st E req c \<Longrightarrow> conn_ok to_str st E req c'"
  by (induction rule: rtranclp_induct) (auto intro: conn_ok_step)

lemma upgrade_task_iff:
  "upgrade_task to_str st req task \<longleftrightarrow>
     (\<exists>v. req_headers req ''upgrade'' = Some v \<and> v \<noteq> [])
     \<and> Option.bind (req_headers req ''x-tailscale-handshake'') to_str = Some (task_init_b64 task)
     \<and> task_key task = server_key st"
  by (cases task) (auto simp: upgrade_task_def ts2021_upgrade_def Let_def split: option.splits)

lemma received_to_tunnel:
  assumes "upgrade_task to_str st req task"
    and "accept (ce_noise E) (ce_socket E) (ce_framed E) (ce_random E) s
       (private_half (task_key task)) (task_init_b64 task) = Some (Inr a, s')"
  shows "conn_steps to_str st E (Received req) (Tunnel a)"
proof -
  obtain resp where "ts2021_upgrade to_str st req = (resp, Some task)"
    using assms(1) unfolding upgrade_task_def by (metis prod.collapse)
  then have "conn_step to_str st E (Received req) (Upgrading task)" by (rule conn_step.switch)
  moreover have "conn_step to_str st E (Upgrading task) (Hijacked task s)" by (rule conn_step.upgraded)
  moreover have "conn_step to_str st E (Hijacked task s) (Tunnel a)" using assms(2) by (rule conn_step.handshake)
  ultimately show ?thesis by (meson converse_rtranclp_into_rtranclp rtranclp.rtrancl_refl)
qed

text \<open>
  C15. HTTP/2 is served on a connection only after its request passed the header checks, the Noise
  handshake with the server's key and the text of that header succeeded for a client of version at
  least 113, and EarlyNoise was written; every request served was answered by the machine handler.
\<close>

theorem http2_only_after_handshake:
  assumes "conn_steps to_str st E (Received req) (Serving f log)"
  shows "\<exists>h s s' a f0.
      (\<exists>v. req_headers req ''upgrade'' = Some v \<and> v \<noteq> [])
    \<and> Option.bind (req_headers req ''x-tailscale-handshake'') to_str = Some h
    \<and> accept (ce_noise E) (ce_socket E) (ce_framed E) (ce_random E) s (private_half (server_key st)) h
        = Some (Inr a, s')
    \<and> 113 \<le> capability_version a
    \<and> write_early_noise (ce_to_vec E) (ce_keys E) (ce_stream E) (stream a)
        \<lparr>node_key_challenge = acc_node_key_challenge a\<rparr> = Some (Inr (), f0)
    \<and> map snd log = map (handle_machine \<circ> fst) log"
proof -
  have "conn_ok to_str st E req (Serving f log)" using conn_ok_steps [OF assms] by simp
  then obtain a f0 where t: "tunnel_open to_str st E req a"
    and w: "write_early_noise (ce_to_vec E) (ce_keys E) (ce_stream E) (stream a)
        \<lparr>node_key_challenge = acc_node_key_challenge a\<rparr> = Some (Inr (), f0)"
    and log: "\<forall>(r, p) \<in> set log. p = handle_machine r" by auto
  from t obtain task s s' where u: "upgrade_task to_str st req task"
    and acc: "accept (ce_noise E) (ce_socket E) (ce_framed E) (ce_random E) s
        (private_half (task_key task)) (task_init_b64 task) = Some (Inr a, s')"
    by (auto simp: tunnel_open_def)
  have v: "113 \<le> capability_version a"
    using acc
    by (rule accept_Inr) (auto simp: parse_initiation_Inr min_supported_capability_version_def)
  from u have key: "task_key task = server_key st" by (simp add: upgrade_task_iff)
  show ?thesis
    using u acc v w log key
    by (intro exI [of _ "task_init_b64 task"] exI [of _ s] exI [of _ s'] exI [of _ a] exI [of _ f0])
      (auto simp: upgrade_task_iff)
qed

text \<open>A complete connection of the stand-ins.\<close>

definition toy_env :: "(key, bytes, unit, socket, script) conn_env" where
  "toy_env =
     \<lparr>ce_noise = toy_noise, ce_to_vec = js_to_vec toy_json, ce_keys = hex_keys, ce_socket = socket_writer,
      ce_stream = framed_writer script_transport, ce_framed = (\<lambda>_ _. script_new []),
      ce_random = replicate 32 9, ce_http2 = (\<lambda>_ _. Some (Inr ()))\<rparr>"

definition toy_key :: machine_key_pair where
  "toy_key = \<lparr>private_half = replicate 32 1, public_half = replicate 32 2\<rparr>"

definition toy_state :: "unit server_state" where
  "toy_state = server_state_new toy_key ()"

definition toy_request :: request where
  "toy_request =
     \<lparr>req_method = ''POST'', req_path = path_ts2021,
      req_headers = [''upgrade'' \<mapsto> str_bytes upgrade_ts2021,
                     ''x-tailscale-handshake'' \<mapsto> str_bytes good_initiation]\<rparr>"

definition toy_task :: conn_task where
  "toy_task = \<lparr>task_key = toy_key, task_init_b64 = good_initiation\<rparr>"

definition toy_tunnel :: "script accepted" where
  "toy_tunnel =
     \<lparr>stream = framed_new (script_new []), capability_version = 138,
      peer_machine_key = replicate 32 5, acc_node_key_challenge = replicate 32 9\<rparr>"

definition ascii_header :: "bytes \<Rightarrow> string option" where
  "ascii_header v = Some (bytes_str v)"

lemma toy_request_upgrades:
  "server_key st = toy_key \<Longrightarrow> \<exists>resp. ts2021_upgrade ascii_header st toy_request = (resp, Some toy_task)"
  by (simp add: ts2021_upgrade_def toy_request_def toy_task_def upgrade_ts2021_def str_bytes_def
      ascii_header_def Let_def)
    (simp flip: str_bytes_def)

lemma toy_connection_tunnel:
  assumes "server_key st = toy_key"
  shows "conn_steps ascii_header st toy_env (Received toy_request) (Tunnel toy_tunnel)"
proof (rule received_to_tunnel [where s = socket_new and s' = "socket_new\<lparr>wire := [2, 0, 48] @ replicate 48 7\<rparr>"])
  show "upgrade_task ascii_header st toy_request toy_task"
    using toy_request_upgrades [OF assms] by (auto simp: upgrade_task_def)
qed (simp add: toy_env_def toy_task_def toy_key_def toy_tunnel_def good_initiation_accepted)

lemma toy_connection:
  "\<exists>f. conn_steps ascii_header toy_state toy_env (Received toy_request) (Serving f [])"
proof -
  have "conn_step ascii_header toy_state toy_env (Tunnel toy_tunnel)
      (Serving (framed_new (script_new []\<lparr>frames := [toy_frame]\<rparr>)) [])"
    by (rule conn_step.announce) (simp add: toy_env_def toy_tunnel_def toy_early_noise [unfolded toy_challenge_def])
  moreover have "conn_steps ascii_header toy_state toy_env (Received toy_request) (Tunnel toy_tunnel)"
    by (rule toy_connection_tunnel) (simp add: toy_state_def server_state_new_def)
  ultimately show ?thesis by (meson rtranclp.rtrancl_into_rtrancl)
qed

theorem http2_only_after_handshake_witness:
  "\<exists>f. conn_steps ascii_header toy_state toy_env (Received toy_request) (Serving f [])
     \<and> (\<exists>h s s' a. accept toy_noise socket_writer (\<lambda>_ _. script_new []) (replicate 32 9) s (replicate 32 1) h
          = Some (Inr a, s') \<and> 113 \<le> capability_version a)"
proof -
  obtain f where run: "conn_steps ascii_header toy_state toy_env (Received toy_request) (Serving f [])"
    using toy_connection by blast
  from http2_only_after_handshake [OF run] run show ?thesis
    by (auto simp: toy_env_def toy_state_def toy_key_def server_state_new_def)
qed


subsection \<open>Progress\<close>

datatype conn_stage = ReceivedStage | UpgradingStage | HijackedStage | TunnelStage | ServingStage | EndStage

fun stage_rank :: "conn_stage \<Rightarrow> nat" where
  "stage_rank ReceivedStage = 0"
| "stage_rank UpgradingStage = 1"
| "stage_rank HijackedStage = 2"
| "stage_rank TunnelStage = 3"
| "stage_rank ServingStage = 4"
| "stage_rank EndStage = 5"

lemma stage_rank_inject [simp]: "stage_rank x = stage_rank y \<longleftrightarrow> x = y"
  by (cases x; cases y) simp_all

instantiation conn_stage :: linorder
begin

definition less_eq_conn_stage :: "conn_stage \<Rightarrow> conn_stage \<Rightarrow> bool" where
  "less_eq_conn_stage x y \<longleftrightarrow> stage_rank x \<le> stage_rank y"

definition less_conn_stage :: "conn_stage \<Rightarrow> conn_stage \<Rightarrow> bool" where
  "less_conn_stage x y \<longleftrightarrow> stage_rank x < stage_rank y"

instance
  by standard (auto simp: less_eq_conn_stage_def less_conn_stage_def)

end

fun conn_stage_of :: "('s, 't) conn \<Rightarrow> conn_stage" where
  "conn_stage_of (Received r) = ReceivedStage"
| "conn_stage_of (Refused r) = EndStage"
| "conn_stage_of (Upgrading t) = UpgradingStage"
| "conn_stage_of (Hijacked t s) = HijackedStage"
| "conn_stage_of (Tunnel a) = TunnelStage"
| "conn_stage_of (Serving f log) = ServingStage"
| "conn_stage_of (Closed e) = EndStage"
| "conn_stage_of (NoUpgrade e) = EndStage"

lemmas stage_order = less_eq_conn_stage_def less_conn_stage_def

lemma conn_step_stage:
  "conn_step to_str st E c c' \<Longrightarrow>
     conn_stage_of c < conn_stage_of c' \<or> (conn_stage_of c = ServingStage \<and> conn_stage_of c' = ServingStage)"
  by (induction rule: conn_step.induct) (simp_all add: stage_order)

text \<open>
  A connection only moves forward through its stages (only HTTP/2 repeats its own), and as
  long as the awaited handshake and EarlyNoise write complete, it is stuck nowhere before its end:
  exactly the refused, failed and finished connections have no further step.
\<close>

lemma connections_move_forward:
  assumes "\<forall>s k h. accept (ce_noise E) (ce_socket E) (ce_framed E) (ce_random E) s k h \<noteq> None"
    and "\<forall>f e. write_early_noise (ce_to_vec E) (ce_keys E) (ce_stream E) f e \<noteq> None"
  shows "(conn_stage_of c = EndStage \<longleftrightarrow> \<not> (\<exists>c'. conn_step to_str st E c c'))
    \<and> (conn_step to_str st E c d \<longrightarrow>
        conn_stage_of c < conn_stage_of d
        \<or> (conn_stage_of c = ServingStage \<and> conn_stage_of d = ServingStage))"
proof (intro conjI impI)
  show "conn_stage_of c < conn_stage_of d \<or> (conn_stage_of c = ServingStage \<and> conn_stage_of d = ServingStage)"
    if "conn_step to_str st E c d"
    using that by (rule conn_step_stage)
  show "conn_stage_of c = EndStage \<longleftrightarrow> \<not> (\<exists>c'. conn_step to_str st E c c')"
  proof (cases c)
    case (Received req)
    obtain resp t where "ts2021_upgrade to_str st req = (resp, t)" by (cases "ts2021_upgrade to_str st req")
    then show ?thesis using Received by (cases t) (auto intro: conn_step.intros)
  next
    case (Hijacked task s)
    obtain r s' where "accept (ce_noise E) (ce_socket E) (ce_framed E) (ce_random E) s
        (private_half (task_key task)) (task_init_b64 task) = Some (r, s')"
      using assms(1) by fastforce
    then show ?thesis using Hijacked by (cases r) (auto intro: conn_step.intros)
  next
    case (Tunnel a)
    obtain r f where "write_early_noise (ce_to_vec E) (ce_keys E) (ce_stream E) (stream a)
        \<lparr>node_key_challenge = acc_node_key_challenge a\<rparr> = Some (r, f)"
      using assms(2) by fastforce
    then show ?thesis using Tunnel by (cases r) (auto intro: conn_step.intros)
  qed (auto intro: conn_step.intros elim: from_refused from_closed from_no_upgrade)
qed

definition sure_writer :: "'s writer" where
  "sure_writer = \<lparr>w_write_all = (\<lambda>s bs. Some (Inr (), s)), w_flush = (\<lambda>s. Some (Inr (), s))\<rparr>"

lemma connections_move_forward_witness:
  "\<exists>c'. conn_step (\<lambda>_. None) toy_state (toy_env\<lparr>ce_socket := sure_writer, ce_stream := sure_writer\<rparr>)
     (Hijacked toy_task socket_new) c'"
proof -
  let ?E = "toy_env\<lparr>ce_socket := sure_writer, ce_stream := sure_writer\<rparr>"
  let ?c = "Hijacked toy_task socket_new :: (socket, script) conn"
  have "\<forall>s k h. accept (ce_noise ?E) (ce_socket ?E) (ce_framed ?E) (ce_random ?E) s k h \<noteq> None"
    by (simp add: accept_def sure_writer_def Let_def split: sum.split prod.split option.split)
  moreover have "\<forall>f e. write_early_noise (ce_to_vec ?E) (ce_keys ?E) (ce_stream ?E) f e \<noteq> None"
    by (simp add: write_early_noise_def sure_writer_def split: sum.split)
  ultimately have "conn_stage_of ?c = EndStage
      \<longleftrightarrow> \<not> (\<exists>c'. conn_step (\<lambda>_. None) toy_state ?E ?c c')"
    by (rule connections_move_forward [THEN conjunct1])
  then show ?thesis by simp
qed

text \<open>
  The connection function and the step relation agree: where the function ends with a result,
  the hijacked connection can step to the end that logs exactly its error, or none, and HTTP/2 was
  started exactly when both the handshake and EarlyNoise had succeeded.
\<close>

lemma connection_function_is_a_run:
  assumes "run_noise_connection E s (task_key task) (task_init_b64 task) = Some (r, served)"
  shows "conn_steps to_str st E (Hijacked task s) (Closed (case r of Inl e \<Rightarrow> Some e | Inr _ \<Rightarrow> None))
    \<and> (case served of
         None \<Rightarrow> \<exists>e. r = Inl (ServerNoise e)
       | Some (s', f) \<Rightarrow> conn_steps to_str st E (Hijacked task s) (Serving f [])
            \<and> (r = Inr () \<or> (\<exists>e. r = Inl (Http2 e))))"
proof -
  let ?step = "conn_step to_str st E"
  obtain q s' where acc: "accept (ce_noise E) (ce_socket E) (ce_framed E) (ce_random E) s
      (private_half (task_key task)) (task_init_b64 task) = Some (q, s')"
    using assms by (auto simp: run_noise_connection_def split: option.splits)
  show ?thesis
  proof (cases q)
    case (Inl e)
    have "?step (Hijacked task s) (Closed (Some (ServerNoise e)))"
      using acc Inl by (intro conn_step.handshake_fails) simp
    with assms acc Inl show ?thesis by (auto simp: run_noise_connection_def)
  next
    case (Inr a)
    have t: "?step (Hijacked task s) (Tunnel a)" using acc Inr by (intro conn_step.handshake) simp
    obtain w f where w: "write_early_noise (ce_to_vec E) (ce_keys E) (ce_stream E) (stream a)
        \<lparr>node_key_challenge = acc_node_key_challenge a\<rparr> = Some (w, f)"
      using assms acc Inr by (auto simp: run_noise_connection_def Let_def split: option.splits)
    show ?thesis
    proof (cases w)
      case (Inl e)
      then have "?step (Tunnel a) (Closed (Some (ServerNoise e)))"
        using w by (intro conn_step.announce_fails) simp
      with t have "(?step)\<^sup>*\<^sup>* (Hijacked task s) (Closed (Some (ServerNoise e)))" by auto
      with assms acc Inr w Inl show ?thesis by (auto simp: run_noise_connection_def Let_def)
    next
      case u: (Inr u)
      then have f: "?step (Tunnel a) (Serving f [])" using w by (intro conn_step.announce) simp
      with t have sv: "(?step)\<^sup>*\<^sup>* (Hijacked task s) (Serving f [])" by auto
      obtain h where h: "ce_http2 E handle_machine f = Some h"
        and r: "r = map_err Http2 h" "served = Some (s', f)"
        using assms acc Inr w u by (auto simp: run_noise_connection_def Let_def split: option.splits)
      have "?step (Serving f []) (Closed (case r of Inl e \<Rightarrow> Some e | Inr _ \<Rightarrow> None))"
        using r by (cases h) (auto intro: conn_step.intros)
      with sv have "(?step)\<^sup>*\<^sup>* (Hijacked task s) (Closed (case r of Inl e \<Rightarrow> Some e | Inr _ \<Rightarrow> None))"
        by (rule rtranclp.rtrancl_into_rtrancl)
      with sv r show ?thesis by (cases h) auto
    qed
  qed
qed

lemma connection_function_is_a_run_witness:
  "\<exists>s f. run_noise_connection toy_env socket_new (task_key toy_task) (task_init_b64 toy_task) = Some (Inr (), Some (s, f))
     \<and> conn_steps (\<lambda>_. None) toy_state toy_env (Hijacked toy_task socket_new) (Serving f [])"
proof -
  obtain s f where r: "run_noise_connection toy_env socket_new (task_key toy_task) (task_init_b64 toy_task)
      = Some (Inr (), Some (s, f))"
    by (simp add: run_noise_connection_def toy_env_def toy_task_def toy_key_def good_initiation_accepted
        toy_early_noise [unfolded toy_challenge_def])
  from connection_function_is_a_run [OF r] r show ?thesis by auto
qed


subsection \<open>The embedding API\<close>

text \<open>The calls a host makes on the builder, as data, and what each sets.\<close>

datatype 'h builder_call =
    CallStore "'h dyn_store"
  | CallMemoryStore
  | CallListen string
  | CallTenantRouting tenant_routing
  | CallServerKey machine_key_pair

fun apply_call :: "'h builder_call \<Rightarrow> 'h server_builder \<Rightarrow> 'h server_builder" where
  "apply_call (CallStore s) = builder_store s"
| "apply_call CallMemoryStore = builder_memory_store"
| "apply_call (CallListen l) = builder_listen l"
| "apply_call (CallTenantRouting r) = builder_tenant_routing r"
| "apply_call (CallServerKey k) = builder_server_key k"

fun store_set :: "'h builder_call \<Rightarrow> 'h dyn_store option" where
  "store_set (CallStore s) = Some s"
| "store_set CallMemoryStore = Some (MemoryBackend memory_new)"
| "store_set _ = None"

fun listen_set :: "'h builder_call \<Rightarrow> string option" where
  "listen_set (CallListen l) = Some l"
| "listen_set _ = None"

fun routing_set :: "'h builder_call \<Rightarrow> tenant_routing option" where
  "routing_set (CallTenantRouting r) = Some r"
| "routing_set _ = None"

fun key_set :: "'h builder_call \<Rightarrow> machine_key_pair option" where
  "key_set (CallServerKey k) = Some k"
| "key_set _ = None"

fun last_set :: "('c \<Rightarrow> 'a option) \<Rightarrow> 'a option \<Rightarrow> 'c list \<Rightarrow> 'a option" where
  "last_set g x [] = x"
| "last_set g x (c # cs) = last_set g (case g c of None \<Rightarrow> x | Some y \<Rightarrow> Some y) cs"

lemma fold_calls:
  "b_store (fold apply_call cs b) = last_set store_set (b_store b) cs"
  "b_listen (fold apply_call cs b) = last_set listen_set (b_listen b) cs"
  "b_server_key (fold apply_call cs b) = last_set key_set (b_server_key b) cs"
  "Some (b_tenant_routing (fold apply_call cs b)) = last_set routing_set (Some (b_tenant_routing b)) cs"
proof (induction cs arbitrary: b)
  case (Cons c cs)
  {
    case 1 with Cons show ?case
      by (cases c) (simp_all add: builder_store_def builder_memory_store_def builder_listen_def
          builder_tenant_routing_def builder_server_key_def)
  next
    case 2 with Cons show ?case
      by (cases c) (simp_all add: builder_store_def builder_memory_store_def builder_listen_def
          builder_tenant_routing_def builder_server_key_def)
  next
    case 3 with Cons show ?case
      by (cases c) (simp_all add: builder_store_def builder_memory_store_def builder_listen_def
          builder_tenant_routing_def builder_server_key_def)
  next
    case 4 with Cons show ?case
      by (cases c) (simp_all add: builder_store_def builder_memory_store_def builder_listen_def
          builder_tenant_routing_def builder_server_key_def)
  }
qed simp_all

text \<open>
  Whatever calls the host makes on the builder, in whatever order, the server gets the last
  store, address, routing and key that were set, or the default address, no routing and the fresh
  key; the build fails exactly when no call set a store.
\<close>

lemma build_takes_last_settings:
  "build fresh (fold apply_call calls builder_new)
     = (case last_set store_set None calls of
          None \<Rightarrow> Inl MissingStore
        | Some s \<Rightarrow>
            Inr \<lparr>cs_store = s,
                 cs_listen = unwrap_or ''0.0.0.0:8080'' (last_set listen_set None calls),
                 cs_server_key = unwrap_or fresh (last_set key_set None calls),
                 cs_tenant_routing = the (last_set routing_set (Some routing_default) calls)\<rparr>)"
proof -
  have "b_tenant_routing (fold apply_call calls builder_new) = the (last_set routing_set (Some routing_default) calls)"
    using fold_calls(4) [of calls builder_new] by (metis builder_new_def option.sel server_builder.select_convs(3))
  then show ?thesis
    using fold_calls [of calls builder_new]
    by (simp add: build_def builder_new_def default_listen_def split: option.split)
qed

text \<open>The handle answers with these settings.\<close>

lemma handle_reports_last_settings:
  assumes "build fresh (fold apply_call calls control_server_builder) = Inr cs"
  shows "last_set store_set None calls = Some (control_server_store cs)
    \<and> listen_addr cs = unwrap_or ''0.0.0.0:8080'' (last_set listen_set None calls)
    \<and> server_public_key cs = public_half (unwrap_or fresh (last_set key_set None calls))
    \<and> tenant_routing_of cs = the (last_set routing_set (Some routing_default) calls)"
  using assms unfolding control_server_builder_def build_takes_last_settings
  by (auto simp: control_server_store_def listen_addr_def server_public_key_def tenant_routing_of_def
      split: option.splits)

text \<open>
  The binary always gets past the builder: it serves the routes on the address of its
  environment variable, or the default one, with an empty memory store and the fresh key, and fails
  only if that address cannot be bound, which the error names, or if serving fails.
\<close>

lemma main_serves_fresh_memory_store:
  "tailcontrold_main var fresh bind axum_serve
     = (case bind (case var of Inl _ \<Rightarrow> ''0.0.0.0:8080'' | Inr l \<Rightarrow> l) of
          Inl e \<Rightarrow> Inl (Bind (case var of Inl _ \<Rightarrow> ''0.0.0.0:8080'' | Inr l \<Rightarrow> l) e)
        | Inr listener \<Rightarrow>
            (case axum_serve listener router \<lparr>server_key = fresh, state_store = MemoryBackend memory_new\<rparr> of
               Inl e \<Rightarrow> Inl (Serve (ServerIo e))
             | Inr _ \<Rightarrow> Inr ()))"
  by (simp add: tailcontrold_main_def Let_def build_def builder_listen_def builder_memory_store_def
      builder_new_def unwrap_or_def control_serve_def serve_listener_def server_state_new_def
      split: sum.split)

end
