(* ===== verification/Connections.thy ===== *)
theory Connections
  imports Edge_Correctness
begin

text \<open>
  The server as a whole: any number of requests, the answers of its handlers, and the connection tasks
  they spawn, running beside each other. The theorem relates the connections that are open to the
  requests that were answered: no tunnel without a request that passed the checks of the handler.
\<close>


subsection \<open>The server\<close>

text \<open>
  What surrounds the handlers is taken from the documentation of axum and tokio: a request may come in at any
  time and is answered by the handler the router finds (\<open>dispatch\<close>); a spawned task runs on its own, a step
  of it at any time. The handlers get a clone of the server state and return none, so it stays what
  \<^verbatim>\<open>with_state\<close> got. \<open>answered\<close> lists the requests with their responses, \<open>running\<close> the connection tasks in the
  order they were spawned, each with the request it was spawned for and with what it takes from outside.
\<close>

record ('sk, 'hs, 'sess, 's, 't) front =
  answered :: "(request \<times> response) list"
  running :: "(request \<times> ('sk, 'hs, 'sess, 's, 't) conn_env \<times> ('s, 't) conn) list"

definition front_new :: "('sk, 'hs, 'sess, 's, 't) front" where
  "front_new = \<lparr>answered = [], running = []\<rparr>"

inductive server_step ::
  "(request \<Rightarrow> response) \<Rightarrow> (bytes \<Rightarrow> string option) \<Rightarrow> key_lib \<Rightarrow> 'st server_state
     \<Rightarrow> ('sk, 'hs, 'sess, 's, 't) front \<Rightarrow> ('sk, 'hs, 'sess, 's, 't) front \<Rightarrow> bool"
  for unmatched to_str K st where
  respond:
    "dispatch unmatched to_str K st req = (resp, None) \<Longrightarrow>
     server_step unmatched to_str K st fr (fr\<lparr>answered := answered fr @ [(req, resp)]\<rparr>)"
| spawn:
    "dispatch unmatched to_str K st req = (resp, Some task) \<Longrightarrow>
     server_step unmatched to_str K st fr
       (fr\<lparr>answered := answered fr @ [(req, resp)], running := running fr @ [(req, E, Upgrading task)]\<rparr>)"
| move:
    "i < length (running fr) \<Longrightarrow> running fr ! i = (req, E, c) \<Longrightarrow> conn_step to_str st E c c' \<Longrightarrow>
     server_step unmatched to_str K st fr (fr\<lparr>running := (running fr)[i := (req, E, c')]\<rparr>)"

abbreviation server_steps ::
  "(request \<Rightarrow> response) \<Rightarrow> (bytes \<Rightarrow> string option) \<Rightarrow> key_lib \<Rightarrow> 'st server_state
     \<Rightarrow> ('sk, 'hs, 'sess, 's, 't) front \<Rightarrow> ('sk, 'hs, 'sess, 's, 't) front \<Rightarrow> bool" where
  "server_steps unmatched to_str K st \<equiv> (server_step unmatched to_str K st)\<^sup>*\<^sup>*"


subsection \<open>The answers\<close>

text \<open>What each request is to be answered with.\<close>

definition right_answer ::
  "(request \<Rightarrow> response) \<Rightarrow> (bytes \<Rightarrow> string option) \<Rightarrow> key_lib \<Rightarrow> key \<Rightarrow> request \<Rightarrow> response \<Rightarrow> bool" where
  "right_answer unmatched to_str K public req resp \<longleftrightarrow>
     (if req_method req = ''GET'' \<and> req_path req = ''/key''
      then status resp = 200
        \<and> body resp = JsonBody \<lparr>legacy_public_key = mkey_default K, public_key = public\<rparr>
      else if req_method req = ''POST'' \<and> req_path req = ''/ts2021''
      then status resp =
        (if req_headers req ''upgrade'' = None \<or> req_headers req ''upgrade'' = Some [] then 500
         else if Option.bind (req_headers req ''x-tailscale-handshake'') to_str = None then 400
         else 101)
      else resp = unmatched req)"

lemma routed_cases:
  "routed req =
     (if req_method req = ''GET'' \<and> req_path req = ''/key'' then Some GetKey
      else if req_method req = ''POST'' \<and> req_path req = ''/ts2021'' then Some Ts2021Upgrade
      else None)"
  by (simp add: routed_def router_def)

lemma dispatch_right:
  assumes "dispatch unmatched to_str K st req = (resp, spawned)"
  shows "right_answer unmatched to_str K (public_half (server_key st)) req resp"
  using assms
  by (auto simp: right_answer_def dispatch_def routed_cases get_key_def over_tls_new_def ts2021_upgrade_def Let_def
      split: if_splits option.splits)

text \<open>A task is spawned with a 101 and with nothing else.\<close>

lemma dispatch_spawns:
  assumes "dispatch unmatched to_str K st req = (resp, spawned)" and "status (unmatched req) \<noteq> 101"
  shows "status resp = 101 \<longleftrightarrow> spawned \<noteq> None"
  using assms
  by (auto simp: dispatch_def routed_cases get_key_def ts2021_upgrade_def Let_def split: if_splits option.splits)

lemma dispatch_task:
  "dispatch unmatched to_str K st req = (resp, Some task) \<Longrightarrow> upgrade_task to_str st req task"
  by (auto simp: dispatch_def upgrade_task_def split: option.splits handler.splits)


subsection \<open>Every connection was asked for\<close>

text \<open>The tunnel \<open>a\<close> comes from the handshake of the request, made with the server's key \<open>k\<close>.\<close>

definition negotiated ::
  "(bytes \<Rightarrow> string option) \<Rightarrow> key \<Rightarrow> ('sk, 'hs, 'sess, 's, 't) conn_env \<Rightarrow> request \<Rightarrow> 't accepted \<Rightarrow> bool" where
  "negotiated to_str k E req a \<longleftrightarrow>
     (\<exists>h s s'. Option.bind (req_headers req ''x-tailscale-handshake'') to_str = Some h
        \<and> accept (ce_noise E) (ce_socket E) (ce_framed E) (ce_random E) s k h = Some (Inr a, s')
        \<and> 113 \<le> capability_version a)"

lemma tunnel_negotiated:
  assumes "tunnel_open to_str st E req a"
  shows "negotiated to_str (private_half (server_key st)) E req a"
proof -
  obtain task s s' where u: "upgrade_task to_str st req task"
    and acc: "accept (ce_noise E) (ce_socket E) (ce_framed E) (ce_random E) s
        (private_half (task_key task)) (task_init_b64 task) = Some (Inr a, s')"
    using assms by (auto simp: tunnel_open_def)
  have "113 \<le> capability_version a"
    using acc by (rule accept_Inr) (auto simp: parse_initiation_Inr min_supported_capability_version_def)
  moreover have "task_key task = server_key st"
    "Option.bind (req_headers req ''x-tailscale-handshake'') to_str = Some (task_init_b64 task)"
    using u by (simp_all add: upgrade_task_iff)
  ultimately show ?thesis using acc by (auto simp: negotiated_def)
qed

definition front_ok ::
  "(request \<Rightarrow> response) \<Rightarrow> (bytes \<Rightarrow> string option) \<Rightarrow> key_lib \<Rightarrow> 'st server_state
     \<Rightarrow> ('sk, 'hs, 'sess, 's, 't) front \<Rightarrow> bool" where
  "front_ok unmatched to_str K st fr \<longleftrightarrow>
     map fst (running fr) = map fst (filter (\<lambda>(req, resp). status resp = 101) (answered fr))
     \<and> (\<forall>(req, resp) \<in> set (answered fr).
          right_answer unmatched to_str K (public_half (server_key st)) req resp)
     \<and> (\<forall>(req, E, c) \<in> set (running fr). conn_ok to_str st E req c)"

lemma front_ok_step:
  assumes "server_step unmatched to_str K st fr fr'" and "\<forall>r. status (unmatched r) \<noteq> 101"
    and ok: "front_ok unmatched to_str K st fr"
  shows "front_ok unmatched to_str K st fr'"
  using assms(1)
proof cases
  case (respond req resp)
  with ok assms(2) dispatch_right [OF respond(2)] dispatch_spawns [OF respond(2)]
  show ?thesis by (simp add: front_ok_def)
next
  case (spawn req resp task E)
  with ok assms(2) dispatch_right [OF spawn(2)] dispatch_spawns [OF spawn(2)] dispatch_task [OF spawn(2)]
  show ?thesis by (simp add: front_ok_def)
next
  case (move i req E c c')
  have "(req, E, c) \<in> set (running fr)" using move(2,3) by (metis nth_mem)
  with ok have "conn_ok to_str st E req c" by (auto simp: front_ok_def)
  with move(4) have "conn_ok to_str st E req c'" by (rule conn_ok_step)
  moreover have "map fst ((running fr)[i := (req, E, c')]) = map fst (running fr)"
    using move(2,3) by (simp add: map_update list_update_same_conv)
  moreover have "set ((running fr)[i := (req, E, c')]) \<subseteq> insert (req, E, c') (set (running fr))"
    by (rule set_update_subset_insert)
  ultimately show ?thesis using move(1) ok by (fastforce simp: front_ok_def)
qed

lemma front_ok_steps:
  assumes "server_steps unmatched to_str K st fr fr'" and "\<forall>r. status (unmatched r) \<noteq> 101"
    and "front_ok unmatched to_str K st fr"
  shows "front_ok unmatched to_str K st fr'"
  using assms(1) by (induction rule: rtranclp_induct) (use assms(2,3) front_ok_step in blast)+

text \<open>
  C16. Every connection of the server was asked for and let in by its handler. After any requests and any steps of the
  connections: each request has the right answer (200 with the server's key; 500 without a non-empty Upgrade header, 400
  without a readable handshake header, 101 otherwise; axum's own answer where no route matches); the
  connection tasks are exactly those of the requests answered with 101, in their order; every open tunnel
  was negotiated from the handshake header of its request, with the server's private key, by a client of version at
  least 113; and so was the tunnel of every connection that serves HTTP/2, where all answers are the machine handler's.
\<close>

theorem connections_were_asked_for:
  assumes "server_steps unmatched to_str K st front_new fr" and "\<forall>r. status (unmatched r) \<noteq> 101"
  shows "(\<forall>(req, resp) \<in> set (answered fr).
        right_answer unmatched to_str K (public_half (server_key st)) req resp)
    \<and> map fst (running fr) = map fst (filter (\<lambda>(req, resp). status resp = 101) (answered fr))
    \<and> (\<forall>req E a. (req, E, Tunnel a) \<in> set (running fr) \<longrightarrow>
          negotiated to_str (private_half (server_key st)) E req a)
    \<and> (\<forall>req E f log. (req, E, Serving f log) \<in> set (running fr) \<longrightarrow>
          (\<exists>a. negotiated to_str (private_half (server_key st)) E req a)
          \<and> map snd log = map (handle_machine \<circ> fst) log)"
proof -
  have "front_ok unmatched to_str K st front_new" by (simp add: front_ok_def front_new_def)
  note ok = front_ok_steps [OF assms this]
  have conn: "conn_ok to_str st E req c" if "(req, E, c) \<in> set (running fr)" for req E c
    using ok that by (auto simp: front_ok_def)
  have "negotiated to_str (private_half (server_key st)) E req a" if "(req, E, Tunnel a) \<in> set (running fr)" for req E a
    using conn [OF that] by (simp add: tunnel_negotiated)
  moreover have "(\<exists>a. negotiated to_str (private_half (server_key st)) E req a)
      \<and> map snd log = map (handle_machine \<circ> fst) log" if "(req, E, Serving f log) \<in> set (running fr)" for req E f log
    using conn [OF that] tunnel_negotiated by (fastforce simp: comp_def)
  ultimately show ?thesis using ok by (simp add: front_ok_def)
qed

text \<open>One client asks for the key, another one gets through to HTTP/2.\<close>

lemma toy_front_run:
  "\<exists>f. server_steps handle_machine ascii_header hex_keys toy_state front_new
     \<lparr>answered = [(toy_request\<lparr>req_method := ''GET'', req_path := ''/key''\<rparr>,
           get_key hex_keys toy_state toy_request),
         (toy_request, fst (ts2021_upgrade ascii_header toy_state toy_request))],
      running = [(toy_request, toy_env, Serving f [])]\<rparr>"
proof -
  let ?R = "server_steps handle_machine ascii_header hex_keys toy_state"
  let ?get = "toy_request\<lparr>req_method := ''GET'', req_path := ''/key''\<rparr>"
  let ?a1 = "(?get, get_key hex_keys toy_state toy_request)"
  let ?a2 = "(toy_request, fst (ts2021_upgrade ascii_header toy_state toy_request))"
  let ?fr = "\<lambda>c. \<lparr>answered = [?a1, ?a2], running = [(toy_request, toy_env, c)]\<rparr>"
  obtain resp where up: "ts2021_upgrade ascii_header toy_state toy_request = (resp, Some toy_task)"
    using toy_request_upgrades [of toy_state] by (auto simp: toy_state_def server_state_new_def)
  have "dispatch handle_machine ascii_header hex_keys toy_state ?get = (get_key hex_keys toy_state toy_request, None)"
    by (simp add: dispatch_def routed_cases get_key_def)
  from respond [OF this, of front_new]
  have r1: "?R front_new \<lparr>answered = [?a1], running = []\<rparr>" by (auto simp: front_new_def)
  have "dispatch handle_machine ascii_header hex_keys toy_state toy_request = (resp, Some toy_task)"
    using up by (simp add: dispatch_def routed_cases toy_request_def path_ts2021_def)
  from spawn [OF this, of "\<lparr>answered = [?a1], running = []\<rparr>" toy_env]
  have r2: "?R \<lparr>answered = [?a1], running = []\<rparr> (?fr (Upgrading toy_task))" using up by auto
  have moves: "?R (?fr c) (?fr c')" if "conn_steps ascii_header toy_state toy_env c c'" for c c'
    using that
  proof (induction rule: rtranclp_induct)
    case (step c1 c2)
    from move [of 0 "?fr c1", OF _ _ step(2)] have
      "server_step handle_machine ascii_header hex_keys toy_state (?fr c1) (?fr c2)" by simp
    with step(3) show ?case by (rule rtranclp.rtrancl_into_rtrancl)
  qed simp
  obtain s f where "run_noise_connection toy_env socket_new (task_key toy_task) (task_init_b64 toy_task)
      = Some (Inr (), Some (s, f))"
    using connection_function_is_a_run_witness by blast
  from connection_function_is_a_run [OF this, of ascii_header toy_state] have
    "conn_steps ascii_header toy_state toy_env (Hijacked toy_task socket_new) (Serving f [])" by simp
  moreover have "conn_step ascii_header toy_state toy_env (Upgrading toy_task) (Hijacked toy_task socket_new)"
    by (rule conn_step.upgraded)
  ultimately have "conn_steps ascii_header toy_state toy_env (Upgrading toy_task) (Serving f [])"
    by (rule converse_rtranclp_into_rtranclp [rotated])
  from r1 r2 moves [OF this] show ?thesis by (blast intro: rtranclp_trans)
qed

theorem connections_were_asked_for_witness:
  "\<exists>f a. server_steps handle_machine ascii_header hex_keys toy_state front_new
      \<lparr>answered = [(toy_request\<lparr>req_method := ''GET'', req_path := ''/key''\<rparr>,
            get_key hex_keys toy_state toy_request),
          (toy_request, fst (ts2021_upgrade ascii_header toy_state toy_request))],
       running = [(toy_request, toy_env, Serving f [])]\<rparr>
    \<and> negotiated ascii_header (private_half toy_key) toy_env toy_request a"
proof -
  obtain f where run: "server_steps handle_machine ascii_header hex_keys toy_state front_new
      \<lparr>answered = [(toy_request\<lparr>req_method := ''GET'', req_path := ''/key''\<rparr>,
            get_key hex_keys toy_state toy_request),
          (toy_request, fst (ts2021_upgrade ascii_header toy_state toy_request))],
       running = [(toy_request, toy_env, Serving f [])]\<rparr>"
    using toy_front_run by blast
  have "\<forall>r. status (handle_machine r) \<noteq> 101" by (simp add: handle_machine_def)
  from connections_were_asked_for [OF run this] obtain a where
    "negotiated ascii_header (private_half (server_key toy_state)) toy_env toy_request a" by auto
  with run show ?thesis by (auto simp: toy_state_def server_state_new_def)
qed

end
