(* ===== verification/Duplex.thy ===== *)
theory Duplex
  imports Noise_Correctness
begin

text \<open>
  Both directions of \<^verbatim>\<open>FramedIo\<close> at once. HTTP/2 reads and writes the stream from one task, in any
  order of polls; reads, writes, flushes and shutdowns may interleave, stall and fail anywhere.
  The locale \<open>duplex_transport\<close> is what the adapter asks of a transport with two independent halves.
\<close>


subsection \<open>Polls in any order\<close>

datatype io_call = ReadInto nat | WriteBuf bytes | FlushNow | ShutdownNow

definition accepted_bytes :: "(io_error + nat) poll \<Rightarrow> bytes \<Rightarrow> bytes" where
  "accepted_bytes p bs = (case p of Ready (Inr n) \<Rightarrow> take n bs | _ \<Rightarrow> [])"

text \<open>
  The polls of \<open>cs\<close>, one after the other: what the reads delivered, what the writes accepted, and the
  adapter at the end. \<open>None\<close>: some poll did not come back, or panicked.
\<close>

fun io_polls ::
  "('e, 't) transport \<Rightarrow> io_call list \<Rightarrow> 't framed_io \<Rightarrow> (bytes \<times> bytes \<times> 't framed_io) option" where
  "io_polls T [] f = Some ([], [], f)"
| "io_polls T (ReadInto n # cs) f =
     (case poll_read T f \<lparr>filled = [], capacity = n\<rparr> of
        Finished (p, b, f1) \<Rightarrow> map_option (\<lambda>(r, w, f'). (filled b @ r, w, f')) (io_polls T cs f1)
      | _ \<Rightarrow> None)"
| "io_polls T (WriteBuf bs # cs) f =
     (let (p, f1) = poll_write T f bs
      in map_option (\<lambda>(r, w, f'). (r, accepted_bytes p bs @ w, f')) (io_polls T cs f1))"
| "io_polls T (FlushNow # cs) f = io_polls T cs (snd (framed_poll_flush T f))"
| "io_polls T (ShutdownNow # cs) f = io_polls T cs (snd (framed_poll_shutdown T f))"

locale duplex_transport = chunk_stream T pending_bytes + frame_sink T sent
  for T :: "('e, 't) transport" and pending_bytes :: "'t \<Rightarrow> bytes" and sent :: "'t \<Rightarrow> bytes" +
  assumes next_sent: "tr_poll_next T t = (p, t') \<Longrightarrow> sent t' = sent t"
    and ready_pending: "tr_poll_ready T t = (q, t') \<Longrightarrow> pending_bytes t' = pending_bytes t"
    and send_pending: "tr_start_send T bs t = (x, t') \<Longrightarrow> pending_bytes t' = pending_bytes t"
    and flush_pending: "tr_poll_flush T t = (q, t') \<Longrightarrow> pending_bytes t' = pending_bytes t"
    and close_pending: "tr_poll_close T t = (q, t') \<Longrightarrow> pending_bytes t' = pending_bytes t \<and> sent t' = sent t"
begin

lemma fill_buf_sent:
  assumes "poll_fill_buf T f = Some r"
  shows "sent (inner (snd r)) = sent (inner f)"
  using assms by (rule fill_buf_induct) (auto dest: next_sent)

lemma poll_read_sent:
  assumes "poll_read T f b = Finished (p, b', f')"
  shows "sent (inner f') = sent (inner f)"
proof (cases "remaining b = 0")
  case True
  with assms show ?thesis by (simp add: poll_read_def)
next
  case False
  then obtain q f1 where fb: "poll_fill_buf T f = Some (q, f1)"
    using assms by (auto simp: poll_read_def split: option.splits)
  have "inner f' = inner f1"
  proof (cases "\<exists>bs. q = Ready (Inr bs)")
    case True
    with fb poll_read_ready [OF False, of T f] assms show ?thesis by fastforce
  next
    case other: False
    with fb assms False show ?thesis by (auto simp: poll_read_def split: poll.splits sum.splits)
  qed
  with fill_buf_sent [OF fb] show ?thesis by simp
qed

lemma poll_write_left:
  assumes "poll_write T f bs = (p, f')"
  shows "framed_left pending_bytes f' = framed_left pending_bytes f"
    and "sent (inner f') = sent (inner f) @ accepted_bytes p bs"
proof -
  show "framed_left pending_bytes f' = framed_left pending_bytes f"
    using assms
    by (auto simp: poll_write_def framed_left_def chunk_bytes_def dest!: ready_pending send_pending
        split: prod.splits poll.splits sum.splits)
  show "sent (inner f') = sent (inner f) @ accepted_bytes p bs"
  proof (cases "\<exists>n. p = Ready (Inr n)")
    case True
    with assms framed_sink.wr_ok show ?thesis by (auto simp: accepted_bytes_def)
  next
    case False
    with framed_sink.wr_other [OF assms] show ?thesis
      by (auto simp: accepted_bytes_def split: poll.split sum.split)
  qed
qed

lemma flush_shutdown_keep:
  "framed_left pending_bytes (snd (framed_poll_flush T f)) = framed_left pending_bytes f"
  "sent (inner (snd (framed_poll_flush T f))) = sent (inner f)"
  "framed_left pending_bytes (snd (framed_poll_shutdown T f)) = framed_left pending_bytes f"
  "sent (inner (snd (framed_poll_shutdown T f))) = sent (inner f)"
  by (auto simp: framed_poll_flush_def framed_poll_shutdown_def Let_def framed_left_def chunk_bytes_def
      split: prod.split dest: flush_pending flush_sent close_pending)

text \<open>Neither direction disturbs the other.\<close>

lemma io_polls_faithful:
  "io_polls T cs f = Some (r, w, f') \<Longrightarrow>
     framed_left pending_bytes f = r @ framed_left pending_bytes f' \<and> sent (inner f') = sent (inner f) @ w"
proof (induction cs arbitrary: f r w)
  case (Cons c cs)
  show ?case
  proof (cases c)
    case (ReadInto n)
    let ?b = "\<lparr>filled = [], capacity = n\<rparr>"
    from Cons.prems ReadInto obtain p b f1 r1 where rd: "poll_read T f ?b = Finished (p, b, f1)"
      and rest: "io_polls T cs f1 = Some (r1, w, f')" and r: "r = filled b @ r1"
      by (auto split: exec.splits prod.splits)
    have "framed_left pending_bytes f = filled b @ framed_left pending_bytes f1"
    proof (cases "p = Ready (Inr ())")
      case True
      with rd framed.rd_ok [of f ?b b f1] show ?thesis by auto
    next
      case False
      with rd framed.rd_other [of f ?b p b f1] show ?thesis by simp
    qed
    with Cons.IH [OF rest] poll_read_sent [OF rd] r show ?thesis by simp
  next
    case (WriteBuf bs)
    obtain p f1 where wr: "poll_write T f bs = (p, f1)" by (cases "poll_write T f bs")
    with Cons.prems WriteBuf obtain w1 where rest: "io_polls T cs f1 = Some (r, w1, f')"
      and w: "w = accepted_bytes p bs @ w1" by (auto split: prod.splits)
    from Cons.IH [OF rest] poll_write_left [OF wr] w show ?thesis by simp
  next
    case FlushNow
    then have "io_polls T cs (snd (framed_poll_flush T f)) = Some (r, w, f')" using Cons.prems by simp
    from Cons.IH [OF this] show ?thesis by (simp only: flush_shutdown_keep)
  next
    case ShutdownNow
    then have "io_polls T cs (snd (framed_poll_shutdown T f)) = Some (r, w, f')" using Cons.prems by simp
    from Cons.IH [OF this] show ?thesis by (simp only: flush_shutdown_keep)
  qed
qed simp

end

interpretation script_duplex: duplex_transport script_transport script_bytes script_sent
  by unfold_locales
    (auto simp: script_transport_def script_bytes_def script_sent_def split: list.splits option.splits)

text \<open>Every poll comes back when the transport cannot hand out empty chunks for ever.\<close>

lemma io_polls_return:
  fixes m :: "'t \<Rightarrow> nat" and T :: "('e, 't) transport"
  assumes "\<forall>t t'. tr_poll_next T t = (Ready (Some (Inr [])), t') \<longrightarrow> m t' < m t"
  shows "\<exists>q. io_polls T cs f = Some q"
proof (induction cs arbitrary: f)
  case (Cons c cs)
  show ?case
  proof (cases c)
    case (ReadInto n)
    obtain p b f1 where "poll_read T f \<lparr>filled = [], capacity = n\<rparr> = Finished (p, b, f1)"
      using read_returns_if_empty_chunks_end [OF assms] by blast
    with ReadInto Cons [of f1] show ?thesis by auto
  next
    case (WriteBuf bs)
    obtain p f1 where "poll_write T f bs = (p, f1)" by (cases "poll_write T f bs")
    with WriteBuf Cons [of f1] show ?thesis by auto
  qed (use Cons in simp_all)
qed simp

text \<open>
  C18. Both directions at once, over any transport whose two halves are independent (\<open>duplex_transport\<close>) and which does
  not hand out empty chunks for ever (some measure goes down with each): whatever reads, writes, flushes and
  shutdowns follow one another, with buffers of any size, every poll returns, none panics. What was read,
  followed by the rest of the held chunk and the bytes still to arrive, is the incoming stream, and
  what the transport was given to send is exactly what the writes accepted, in order: no byte is lost,
  repeated, reordered or moved between the directions.
\<close>

theorem duplex_polls_are_faithful:
  fixes m :: "'t \<Rightarrow> nat"
  assumes "duplex_transport T pending_bytes sent"
    and "\<forall>t t'. tr_poll_next T t = (Ready (Some (Inr [])), t') \<longrightarrow> m t' < m t"
  shows "\<exists>r w f'. io_polls T cs f = Some (r, w, f')
    \<and> chunk_bytes f @ pending_bytes (inner f) = r @ chunk_bytes f' @ pending_bytes (inner f')
    \<and> sent (inner f') = sent (inner f) @ w"
proof -
  obtain r w f' where "io_polls T cs f = Some (r, w, f')"
    using io_polls_return [OF assms(2), of cs f] by auto
  with duplex_transport.io_polls_faithful [OF assms(1) this] show ?thesis by (auto simp: framed_left_def)
qed

theorem duplex_polls_are_faithful_witness:
  "\<exists>r w f'. io_polls script_transport [ReadInto 2, WriteBuf [9], FlushNow, ReadInto 5, ShutdownNow]
       (framed_new (script_new [Pending, Ready (Some (Inr [])), Ready (Some (Inr [1, 2, 3]))])) = Some (r, w, f')
    \<and> [1, 2, 3] = r @ chunk_bytes f' @ script_bytes (inner f') \<and> script_sent (inner f') = w"
proof -
  let ?f = "framed_new (script_new [Pending, Ready (Some (Inr [])), Ready (Some (Inr [1, 2, 3]))])"
  have "\<forall>t t'. tr_poll_next script_transport t = (Ready (Some (Inr [])), t') \<longrightarrow>
      length (arrivals t') < length (arrivals t)"
    by (auto simp: script_transport_def split: list.splits)
  from duplex_polls_are_faithful [OF script_duplex.duplex_transport_axioms this,
      of "[ReadInto 2, WriteBuf [9], FlushNow, ReadInto 5, ShutdownNow]" ?f]
  obtain r w f' where q: "io_polls script_transport [ReadInto 2, WriteBuf [9], FlushNow, ReadInto 5, ShutdownNow] ?f
        = Some (r, w, f')"
    and "chunk_bytes ?f @ script_bytes (inner ?f) = r @ chunk_bytes f' @ script_bytes (inner f')"
    and "script_sent (inner f') = script_sent (inner ?f) @ w" by blast
  moreover have "chunk_bytes ?f @ script_bytes (inner ?f) = [1, 2, 3]" "script_sent (inner ?f) = []"
    by (simp_all add: framed_new_def script_new_def chunk_bytes_def script_bytes_def script_sent_def arrival_bytes_def)
  ultimately show ?thesis by (intro exI [of _ r] exI [of _ w] exI [of _ f']) simp
qed

end
