(* ===== verification/Client.thy ===== *)
theory Client
  imports Edge_Correctness
begin

text \<open>
  The other side of the handshake. The initiator of the repository's tests is the crate
  \<^verbatim>\<open>ts_control_noise\<close>, outside the repository: its two calls are parameters with their documented
  behaviour. What is proved is that the server of this repository and such a client fit together,
  from the upgrade request to the EarlyNoise frame, and that an initiation that was changed on its
  way, or meant for another server, opens no tunnel.
\<close>


subsection \<open>Text without white space\<close>

definition b64_char :: "char \<Rightarrow> bool" where
  "b64_char c \<longleftrightarrow> c \<in> set ''ABCDEFGHIJKLMNOPQRSTUVWXYZabcdefghijklmnopqrstuvwxyz0123456789+/=''"

lemma strip_any_None:
  "\<forall>w \<in> set ws. w = [] \<or> hd w \<notin> set s \<Longrightarrow> strip_any ws s = None"
proof (induction ws)
  case (Cons w ws)
  have "\<not> (w \<noteq> [] \<and> take (length w) s = w)"
  proof
    assume w: "w \<noteq> [] \<and> take (length w) s = w"
    then have "hd w \<in> set (take (length w) s)" by simp
    then have "hd w \<in> set s" by (rule in_set_takeD)
    with w Cons.prems show False by simp
  qed
  with Cons show ?case by simp
qed simp

lemma white_space_not_b64:
  "list_all (\<lambda>w. w \<noteq> [] \<and> \<not> b64_char (hd w) \<and> \<not> b64_char (last w)) white_space"
  by code_simp

lemma trim_b64:
  assumes "list_all b64_char s"
  shows "str_trim s = s"
proof -
  have "strip_any white_space s = None"
    using assms white_space_not_b64 by (intro strip_any_None) (fastforce simp: list_all_iff)
  then have start: "trim_start s = s" by (simp add: trim_start_def trim_with.simps)
  have "strip_any (map rev white_space) (rev s) = None"
    using assms white_space_not_b64 by (intro strip_any_None) (fastforce simp: list_all_iff hd_rev)
  then have "trim_with (map rev white_space) (rev s) = rev s" by (simp add: trim_with.simps)
  then show ?thesis using start by (simp add: str_trim_def trim_end_def)
qed


subsection \<open>The initiator\<close>

text \<open>
  \<^verbatim>\<open>Handshake::initialize\<close> takes the prologue, the client's private key, the server's public key and
  the version, and gives the pending handshake and the text of the first message;
  \<^verbatim>\<open>complete\<close> reads the response off the socket and leaves what follows it.
\<close>

record ('ch, 'cs) initiator =
  ini_initialize :: "string \<Rightarrow> key \<Rightarrow> key \<Rightarrow> u16 \<Rightarrow> 'ch \<times> string"
  ini_complete :: "'ch \<Rightarrow> key \<Rightarrow> bytes \<Rightarrow> ('cs \<times> bytes) option"

definition key_pair_ok :: "('sk, 'hs, 'sess) noise_lib \<Rightarrow> machine_key_pair \<Rightarrow> bool" where
  "key_pair_ok L k \<longleftrightarrow>
     length (private_half k) = 32 \<and> length (public_half k) = 32
     \<and> public_half k = public_of L (static_secret L (private_half k))"

text \<open>
  The documented behaviour of a client that offers version \<open>v\<close> and builds its prologue from it: the
  text is base64, of an initiation with that version in clear and 96 bytes of payload. The payload
  is accepted by the holder of the server key, under the prologue of that version, and by nobody
  else and under no other version's prologue; what is learned from it is the client's public key.
  The client completes on the response of such a handshake, framed with its type and length.
\<close>

definition client_completes ::
  "('ch, 'cs) initiator \<Rightarrow> 'ch \<Rightarrow> key \<Rightarrow> bytes \<Rightarrow> bool" where
  "client_completes I h priv resp \<longleftrightarrow>
     (\<exists>cs. \<forall>hi lo rest. unat (u16_from_be_bytes hi lo) = length resp \<longrightarrow>
        ini_complete I h priv ([2, hi, lo] @ resp @ rest) = Some (cs, rest))"

definition initiator_ok :: "('sk, 'hs, 'sess) noise_lib \<Rightarrow> ('ch, 'cs) initiator \<Rightarrow> bool" where
  "initiator_ok L I \<longleftrightarrow>
     (\<forall>client server v h b64.
        key_pair_ok L client \<longrightarrow> key_pair_ok L server \<longrightarrow>
        ini_initialize I (prologue v) (private_half client) (public_half server) v = (h, b64) \<longrightarrow>
        list_all b64_char b64
        \<and> (\<exists>payload hs.
             b64_decode L b64 = Inr (initiation_bytes v payload) \<and> length payload = 96
             \<and> (\<forall>w k. received_new L payload (str_bytes (prologue w)) (static_secret L k)
                  = (if str_bytes (prologue w) = str_bytes (prologue v)
                        \<and> public_of L (static_secret L k) = public_half server
                     then Some hs else None))
             \<and> peer_static_pub L hs = public_half client
             \<and> client_completes I h (private_half client)
                 (fst (hs_finish L hs (replicate (resp_size L) 0)))))"

lemma initiator_okE:
  assumes "initiator_ok L I" and "key_pair_ok L client" and "key_pair_ok L server"
    and "ini_initialize I (prologue v) (private_half client) (public_half server) v = (h, b64)"
  obtains payload hs where "str_trim b64 = b64" "b64_decode L b64 = Inr (initiation_bytes v payload)"
    "length payload = 96"
    "\<And>w k. received_new L payload (str_bytes (prologue w)) (static_secret L k)
       = (if w = v \<and> public_of L (static_secret L k) = public_half server then Some hs else None)"
    "peer_static_pub L hs = public_half client"
    "client_completes I h (private_half client) (fst (hs_finish L hs (replicate (resp_size L) 0)))"
proof -
  obtain payload hs where c: "list_all b64_char b64"
    "b64_decode L b64 = Inr (initiation_bytes v payload)" "length payload = 96"
    "\<forall>w k. received_new L payload (str_bytes (prologue w)) (static_secret L k)
       = (if str_bytes (prologue w) = str_bytes (prologue v) \<and> public_of L (static_secret L k) = public_half server
          then Some hs else None)"
    "peer_static_pub L hs = public_half client"
    "client_completes I h (private_half client) (fst (hs_finish L hs (replicate (resp_size L) 0)))"
    using assms unfolding initiator_ok_def by meson
  have "received_new L payload (str_bytes (prologue w)) (static_secret L k)
       = (if w = v \<and> public_of L (static_secret L k) = public_half server then Some hs else None)" for w k
    using c(4) prologue_binds_version by simp
  with c trim_b64 show ?thesis using that by blast
qed

text \<open>The initiation in the protocol's layout is parsed as such.\<close>

lemma initiation_parses:
  assumes "noise_lib_ok L" and "113 \<le> v" and "length payload = 96"
  shows "parse_initiation L (initiation_bytes v payload @ rest) = Inr (v, payload)"
proof -
  have "init_size L = 96" "mt_initiation L = 1" using assms(1) by (simp_all add: noise_lib_ok_def)
  moreover have "u16_from_be_bytes 0 96 = 96" by (simp add: u16_from_be_bytes_def)
  ultimately show ?thesis
    using assms(2,3) by (simp add: parse_initiation_Inr initiation_nth
        u16_be_round_trip [unfolded One_nat_def] min_supported_capability_version_def)
qed

lemma old_initiation_refused:
  assumes "noise_lib_ok L" and "v < 113" and "length payload = 96"
  shows "parse_initiation L (initiation_bytes v payload @ rest) = Inl (UnsupportedVersion v 113)"
  using assms by (simp add: noise_simps noise_lib_ok_def initiation_nth u16_be_round_trip [unfolded One_nat_def])


text \<open>On a socket that takes everything at once, only the initiation can fail the handshake.\<close>

lemma parse_no_io: "and_then (map_err Base64 x) (parse_initiation L) \<noteq> Inl (NoiseIo io)"
  by (cases x) (simp_all add: noise_simps)

lemma calm_accept_no_io:
  assumes "grants s = []" and "socket_flushes s = []"
  shows "accept L socket_writer mk rnd s k b64 \<noteq> Some (Inl (NoiseIo io), s')"
  using assms parse_no_io
  by (auto simp: accept_def calm_write calm_flush Let_def split: sum.split option.split prod.split)


subsection \<open>A stand-in for both sides\<close>

text \<open>
  Keys are their own public halves, the text of an initiation is hexadecimal, its payload names the
  client, the server and the version, and is accepted when server and prologue fit.
\<close>

definition twin_noise :: "(key, bytes, unit) noise_lib" where
  "twin_noise = toy_noise
     \<lparr>b64_decode := (\<lambda>s. case unhex s of None \<Rightarrow> Inl ''invalid base64'' | Some bs \<Rightarrow> Inr bs),
      received_new := (\<lambda>payload pro sk.
        if pro = str_bytes (prologue (u16_from_be_bytes (payload ! 64) (payload ! 65)))
           \<and> take 32 (drop 32 payload) = sk
        then Some payload else None)\<rparr>"

definition twin_payload :: "key \<Rightarrow> key \<Rightarrow> u16 \<Rightarrow> bytes" where
  "twin_payload client server v = client @ server @ u16_to_be_bytes v @ replicate 30 0"

definition twin_initiator :: "(unit, unit) initiator" where
  "twin_initiator =
     \<lparr>ini_initialize = (\<lambda>pro priv pub v. ((), hex (initiation_bytes v (twin_payload priv pub v)))),
      ini_complete = (\<lambda>_ _ bs.
        case bs of
          t # hi # lo # rest \<Rightarrow>
            (let n = unat (u16_from_be_bytes hi lo) in
             if t = 2 \<and> n \<le> length rest then Some ((), drop n rest) else None)
        | _ \<Rightarrow> None)\<rparr>"

lemma hex_b64: "list_all b64_char (hex bs)"
proof -
  have "list_all b64_char ''0123456789abcdef''" by code_simp
  moreover have "hex_digit n \<in> set ''0123456789abcdef''" for n
    unfolding hex_digit_def by (rule nth_mem) simp
  ultimately have "b64_char (hex_digit n)" for n unfolding list_all_iff by blast
  then show ?thesis by (induction bs) (simp_all add: hex_def)
qed

lemma twin_noise_ok [simp]: "noise_lib_ok twin_noise"
  by (simp add: noise_lib_ok_def twin_noise_def)

lemma twin_received:
  assumes "length client = 32" and "length server = 32"
  shows "received_new twin_noise (twin_payload client server v) (str_bytes (prologue w)) k
    = (if str_bytes (prologue w) = str_bytes (prologue v) \<and> k = server
       then Some (twin_payload client server v) else None)"
proof -
  have "twin_payload client server v ! 64 = u16_to_be_bytes v ! 0"
    "twin_payload client server v ! 65 = u16_to_be_bytes v ! 1"
    "take 32 (drop 32 (twin_payload client server v)) = server"
    using assms by (simp_all add: twin_payload_def nth_append)
  then show ?thesis
    using u16_be_round_trip [of v] by (auto simp: twin_noise_def)
qed

lemma twin_initiator_ok: "initiator_ok twin_noise twin_initiator"
  unfolding initiator_ok_def
proof (intro allI impI)
  fix client server v h b64
  assume kp: "key_pair_ok twin_noise client" "key_pair_ok twin_noise server"
    and ini: "ini_initialize twin_initiator (prologue v) (private_half client) (public_half server) v = (h, b64)"
  let ?p = "twin_payload (private_half client) (public_half server) v"
  have len: "length (private_half client) = 32" "length (public_half server) = 32"
    and pub: "public_half client = private_half client"
    using kp by (simp_all add: key_pair_ok_def twin_noise_def)
  have b64: "b64 = hex (initiation_bytes v ?p)" using ini by (simp add: twin_initiator_def)
  have plen: "length ?p = 96" using len by (simp add: twin_payload_def)
  have "client_completes twin_initiator h (private_half client)
      (fst (hs_finish twin_noise ?p (replicate (resp_size twin_noise) 0)))"
    unfolding client_completes_def
    by (intro exI [of _ "()"]) (auto simp: twin_initiator_def twin_noise_def Let_def)
  moreover have "b64_decode twin_noise b64 = Inr (initiation_bytes v ?p)"
    by (simp add: b64 twin_noise_def unhex_hex)
  moreover have "peer_static_pub twin_noise ?p = public_half client"
    using len pub by (simp add: twin_noise_def twin_payload_def)
  moreover have "received_new twin_noise ?p (str_bytes (prologue w)) (static_secret twin_noise k)
      = (if str_bytes (prologue w) = str_bytes (prologue v)
            \<and> public_of twin_noise (static_secret twin_noise k) = public_half server
         then Some ?p else None)" for w k
    using twin_received [OF len, of v w k] by (simp add: twin_noise_def)
  ultimately show "list_all b64_char b64 \<and> (\<exists>payload hs.
      b64_decode twin_noise b64 = Inr (initiation_bytes v payload) \<and> length payload = 96
      \<and> (\<forall>w k. received_new twin_noise payload (str_bytes (prologue w)) (static_secret twin_noise k)
           = (if str_bytes (prologue w) = str_bytes (prologue v)
                 \<and> public_of twin_noise (static_secret twin_noise k) = public_half server
              then Some hs else None))
      \<and> peer_static_pub twin_noise hs = public_half client
      \<and> client_completes twin_initiator h (private_half client)
          (fst (hs_finish twin_noise hs (replicate (resp_size twin_noise) 0))))"
    using plen hex_b64 b64 by (intro conjI exI [of _ ?p]) simp_all
qed

definition twin_key :: "u8 \<Rightarrow> machine_key_pair" where
  "twin_key b = \<lparr>private_half = replicate 32 b, public_half = replicate 32 b\<rparr>"

lemma twin_key_ok [simp]: "key_pair_ok twin_noise (twin_key b)"
  by (simp add: key_pair_ok_def twin_key_def twin_noise_def)

definition twin_text :: "u16 \<Rightarrow> string" where
  "twin_text v = hex (initiation_bytes v (twin_payload (replicate 32 1) (replicate 32 2) v))"

lemma twin_initialize:
  "ini_initialize twin_initiator (prologue v) (private_half (twin_key 1)) (public_half (twin_key 2)) v = ((), twin_text v)"
  by (simp add: twin_initiator_def twin_key_def twin_text_def)


subsection \<open>Client and server together\<close>

lemma handshake_with_client:
  assumes "noise_lib_ok L" and "initiator_ok L I" and "key_pair_ok L client" and "key_pair_ok L server"
    and "113 \<le> v"
    and "ini_initialize I (prologue v) (private_half client) (public_half server) v = (h, b64)"
  shows "\<exists>r s'. accept L socket_writer mk rnd s (private_half server) b64 = Some (r, s')
    \<and> ((\<exists>io. r = Inl (NoiseIo io))
       \<or> (\<exists>a msg cs. r = Inr a \<and> capability_version a = v \<and> peer_machine_key a = public_half client
            \<and> wire s' = wire s @ msg
            \<and> (\<forall>rest. ini_complete I h (private_half client) (msg @ rest) = Some (cs, rest))))"
proof -
  from initiator_okE [OF assms(2-4,6)] obtain payload hs where
    dec: "str_trim b64 = b64" "b64_decode L b64 = Inr (initiation_bytes v payload)" "length payload = 96"
    and rn: "received_new L payload (str_bytes (prologue v)) (static_secret L (private_half server)) = Some hs"
    and peer: "peer_static_pub L hs = public_half client"
    and compl: "client_completes I h (private_half client) (fst (hs_finish L hs (replicate (resp_size L) 0)))"
    using assms(4) unfolding key_pair_ok_def by metis
  have ps: "parse_initiation L (initiation_bytes v payload) = Inr (v, payload)"
    using initiation_parses [OF assms(1,5) dec(3), of "[]"] by simp
  obtain r s' where acc: "accept L socket_writer mk rnd s (private_half server) b64 = Some (r, s')"
    using accept_completes [of L mk rnd s "private_half server" b64] by auto
  show ?thesis
  proof (cases r)
    case (Inl e)
    with acc dec ps rn have "\<exists>io. e = NoiseIo io"
      by (auto simp: accept_def await_io_def Let_def split: sum.splits option.splits prod.splits)
    with acc Inl show ?thesis by blast
  next
    case (Inr a)
    let ?resp = "fst (hs_finish L hs (replicate (resp_size L) 0))"
    from socket.accept_out [OF acc [unfolded Inr]] dec ps rn have
      a: "capability_version a = v" "peer_machine_key a = public_half client"
      and w: "wire s' = wire s @ response_header L @ ?resp" by (auto simp: peer)
    let ?len = "u16_to_be_bytes (usize_as_u16 (resp_size L))"
    have L: "mt_response L = 2" "resp_size L < 2 ^ 16" "length ?resp = resp_size L"
      using assms(1) by (simp_all add: noise_lib_ok_def)
    have "unat (u16_from_be_bytes (?len ! 0) (?len ! 1)) = length ?resp"
      using L(2,3) by (simp add: u16_be_round_trip unat_usize_as_u16 del: One_nat_def)
    moreover have "response_header L = [2, ?len ! 0, ?len ! 1]"
      using L(1) by (simp add: response_header_def Let_def)
    moreover obtain cs where "\<forall>hi lo rest. unat (u16_from_be_bytes hi lo) = length ?resp \<longrightarrow>
        ini_complete I h (private_half client) ([2, hi, lo] @ ?resp @ rest) = Some (cs, rest)"
      using compl unfolding client_completes_def by blast
    ultimately have "\<forall>rest. ini_complete I h (private_half client) ((response_header L @ ?resp) @ rest) = Some (cs, rest)"
      by simp
    with acc Inr a w show ?thesis by blast
  qed
qed

text \<open>
  C12. Every client of version at least 113 gets its tunnel: on a socket that splits, stalls or fails
  its writes in any way, the handshake ends, and unless the socket itself failed, the server has
  learned the version the client offered and the client's public key, and the client completes
  on the bytes the server wrote, and takes no byte more.
\<close>

theorem client_and_server_agree:
  assumes "noise_lib_ok L" and "initiator_ok L I" and "key_pair_ok L client" and "key_pair_ok L server"
    and "113 \<le> v"
    and "ini_initialize I (prologue v) (private_half client) (public_half server) v = (h, b64)"
  shows "\<exists>r s'. accept L socket_writer mk rnd s (private_half server) b64 = Some (r, s')
    \<and> ((\<exists>io. r = Inl (NoiseIo io))
       \<or> (\<exists>a msg cs. r = Inr a \<and> capability_version a = v \<and> peer_machine_key a = public_half client
            \<and> wire s' = wire s @ msg
            \<and> (\<forall>rest. ini_complete I h (private_half client) (msg @ rest) = Some (cs, rest))))"
  using assms by (rule handshake_with_client)

theorem client_and_server_agree_witness:
  "\<exists>a s' cs. accept twin_noise socket_writer (\<lambda>_ _. ()) [] socket_new (private_half (twin_key 2)) (twin_text 138)
     = Some (Inr a, s') \<and> capability_version a = 138 \<and> peer_machine_key a = replicate 32 1
     \<and> ini_complete twin_initiator () (private_half (twin_key 1)) (wire s' @ [9]) = Some (cs, [9])"
proof -
  have no_io: "accept twin_noise socket_writer (\<lambda>_ _. ()) [] socket_new (private_half (twin_key 2)) (twin_text 138)
      \<noteq> Some (Inl (NoiseIo io), s')" for io s'
    by (rule calm_accept_no_io) (simp_all add: socket_new_def)
  have "113 \<le> (138 :: u16)" by simp
  from client_and_server_agree [OF twin_noise_ok twin_initiator_ok twin_key_ok twin_key_ok this twin_initialize,
      of "\<lambda>_ _. ()" "[]" socket_new] no_io
  show ?thesis by (fastforce simp: socket_new_def twin_key_def)
qed

text \<open>
  C13. The version and the server are bound: a message whose version in clear was changed on its way, or
  that reaches a server with another key, opens no tunnel, whatever text carries it and whatever follows
  it. Below version 113 the error names the version, otherwise the handshake fails; nothing is written.
\<close>

theorem altered_initiation_opens_no_tunnel:
  assumes "noise_lib_ok L" and "initiator_ok L I" and "key_pair_ok L client" and "key_pair_ok L server"
    and "ini_initialize I (prologue v) (private_half client) (public_half server) v = (h, b64)"
    and "b64_decode L b64 = Inr (initiation_bytes v payload)"
    and "b64_decode L (str_trim altered) = Inr (initiation_bytes w payload @ rest)"
    and "w = v \<Longrightarrow> public_of L (static_secret L k) \<noteq> public_half server"
  shows "accept L W mk rnd s k altered
    = Some (Inl (if w < 113 then UnsupportedVersion w 113 else HandshakeFailed), s)"
proof -
  from initiator_okE [OF assms(2-5)] obtain p hs where
    dec: "b64_decode L b64 = Inr (initiation_bytes v p)" "length p = 96"
    and rn: "\<And>w k. received_new L p (str_bytes (prologue w)) (static_secret L k)
       = (if w = v \<and> public_of L (static_secret L k) = public_half server then Some hs else None)"
    by metis
  have p: "payload = p" using dec assms(6) by (simp add: initiation_bytes_def)
  show ?thesis
  proof (cases "w < 113")
    case True
    with old_initiation_refused [OF assms(1) True] assms(7) dec p show ?thesis by (simp add: accept_def)
  next
    case False
    then have "113 \<le> w" by simp
    from initiation_parses [OF assms(1) this dec(2)] assms(7,8) rn p False show ?thesis
      by (auto simp: accept_def)
  qed
qed

theorem altered_initiation_opens_no_tunnel_witness:
  "accept twin_noise socket_writer (\<lambda>_ _. ()) [] socket_new (private_half (twin_key 2))
     (hex (initiation_bytes 139 (twin_payload (replicate 32 1) (replicate 32 2) 138)))
     = Some (Inl HandshakeFailed, socket_new)"
proof -
  let ?p = "twin_payload (replicate 32 1) (replicate 32 2) 138"
  have "b64_decode twin_noise (twin_text 138) = Inr (initiation_bytes 138 ?p)"
    by (simp add: twin_text_def twin_noise_def unhex_hex)
  moreover have "b64_decode twin_noise (str_trim (hex (initiation_bytes 139 ?p))) = Inr (initiation_bytes 139 ?p @ [])"
    by (simp add: trim_b64 [OF hex_b64] twin_noise_def unhex_hex)
  ultimately show ?thesis
    using altered_initiation_opens_no_tunnel [OF twin_noise_ok twin_initiator_ok twin_key_ok twin_key_ok
        twin_initialize, of 138 ?p "hex (initiation_bytes 139 ?p)" 139 "[]" "private_half (twin_key 2)"]
    by simp
qed


text \<open>
  C17. From the request to HTTP/2: when such a client sends its initiation in an upgrade request, the
  connection can go all the way. The server switches protocols, opens a tunnel with the client's
  key and version, on whose response the client completes, and starts HTTP/2 after an EarlyNoise frame
  from which the client reads the challenge key of this very tunnel.
\<close>

theorem client_reaches_http2:
  assumes "noise_lib_ok (ce_noise E)" and "initiator_ok (ce_noise E) I"
    and "key_pair_ok (ce_noise E) client" and "key_pair_ok (ce_noise E) (server_key st)" and "113 \<le> v"
    and "ini_initialize I (prologue v) (private_half client) (public_half (server_key st)) v = (h, b64)"
    and "req_headers req ''upgrade'' = Some x" and "x \<noteq> []"
    and "Option.bind (req_headers req ''x-tailscale-handshake'') to_str = Some b64"
    and "ce_socket E = socket_writer" and "ce_stream E = framed_writer script_transport"
    and "ce_framed E = (\<lambda>_ _. script_new [])" and "ce_to_vec E = js_to_vec J" and "key_text_ok (ce_keys E)"
    and "length (public_of (ce_noise E) (ce_random E)) = 32"
    and "json_ok_for J (early_noise_to_json (ce_keys E) \<lparr>node_key_challenge = public_of (ce_noise E) (ce_random E)\<rparr>)"
  shows "\<exists>a f s' cs js. conn_steps to_str st E (Received req) (Tunnel a)
    \<and> accept (ce_noise E) socket_writer (ce_framed E) (ce_random E) socket_new (private_half (server_key st)) b64
        = Some (Inr a, s')
    \<and> capability_version a = v \<and> peer_machine_key a = public_half client
    \<and> ini_complete I h (private_half client) (wire s') = Some (cs, [])
    \<and> conn_step to_str st E (Tunnel a) (Serving f [])
    \<and> read_early_noise (script_sent (inner f)) = Some (js, [])
    \<and> Option.bind (js_from_slice J js) (early_noise_from_json (ce_keys E))
        = Some \<lparr>node_key_challenge = acc_node_key_challenge a\<rparr>"
proof -
  let ?k = "server_key st" and ?e = "\<lparr>node_key_challenge = public_of (ce_noise E) (ce_random E)\<rparr>"
  have "accept (ce_noise E) socket_writer (ce_framed E) (ce_random E) socket_new (private_half ?k) b64
      \<noteq> Some (Inl (NoiseIo io), s')" for io s'
    by (rule calm_accept_no_io) (simp_all add: socket_new_def)
  with handshake_with_client [OF assms(1-6), of "ce_framed E" "ce_random E" socket_new]
  obtain a s' msg cs where acc: "accept (ce_noise E) socket_writer (ce_framed E) (ce_random E) socket_new
        (private_half ?k) b64 = Some (Inr a, s')"
    and a: "capability_version a = v" "peer_machine_key a = public_half client" "wire s' = wire socket_new @ msg"
      "\<forall>rest. ini_complete I h (private_half client) (msg @ rest) = Some (cs, rest)"
    by blast
  have c: "ini_complete I h (private_half client) (wire s') = Some (cs, [])"
    using a(3) a(4) [rule_format, of "[]"] by (simp add: socket_new_def)
  from acc have st: "stream a = framed_new (script_new [])" "acc_node_key_challenge a = public_of (ce_noise E) (ce_random E)"
    using assms(12) by (auto elim!: accept_Inr)
  have "upgrade_task to_str st req \<lparr>task_key = ?k, task_init_b64 = b64\<rparr>"
    using assms(7-9) by (simp add: upgrade_task_iff)
  then have run: "conn_steps to_str st E (Received req) (Tunnel a)"
    by (rule received_to_tunnel) (use acc assms(10) in simp)
  let ?js = "str_bytes (json_text (early_noise_to_json (ce_keys E) ?e))"
  let ?f = "framed_new (script_new []\<lparr>frames := [early_noise_frame ?js]\<rparr>)"
  have key: "length (node_key_challenge ?e) = 32" using assms(15) by simp
  have js: "js_to_vec J (early_noise_to_json (ce_keys E) ?e) = Inr ?js"
    using assms(16) early_noise_text(2) [OF assms(14) key] by (simp add: json_ok_for_def)
  have "write_early_noise (js_to_vec J) (ce_keys E) (framed_writer script_transport) (framed_new (script_new [])) ?e
      = Some (Inr (), ?f)" using js by (rule calm_early_noise)
  then have s4: "conn_step to_str st E (Tunnel a) (Serving ?f [])"
    using st assms(11,13) by (intro conn_step.announce) simp
  obtain js1 where rd: "read_early_noise (early_noise_wire (public_of (ce_noise E) (ce_random E)) @ []) = Some (js1, [])"
    "Option.bind (js_from_slice J js1) (early_noise_from_json (ce_keys E)) = Some ?e"
    using early_noise_read [OF assms(14) key assms(16), of "[]"] by auto
  have "script_sent (inner ?f) = early_noise_wire (public_of (ce_noise E) (ce_random E))"
    using early_noise_frame_bytes [OF assms(14) key] by (simp add: framed_new_def script_sent_def)
  with run acc a(1,2) c s4 rd st(2) show ?thesis
    by (intro exI [of _ a] exI [of _ ?f] exI [of _ s'] exI [of _ cs] exI [of _ js1]) simp
qed

definition twin_env :: "(key, bytes, unit, socket, script) conn_env" where
  "twin_env = toy_env\<lparr>ce_noise := twin_noise\<rparr>"

definition twin_request :: request where
  "twin_request = toy_request
     \<lparr>req_headers := [''upgrade'' \<mapsto> str_bytes upgrade_ts2021,
                     ''x-tailscale-handshake'' \<mapsto> str_bytes (twin_text 138)]\<rparr>"

lemma twin_env_simps [simp]:
  "ce_noise twin_env = twin_noise" "ce_socket twin_env = socket_writer"
  "ce_stream twin_env = framed_writer script_transport" "ce_framed twin_env = (\<lambda>_ _. script_new [])"
  "ce_to_vec twin_env = js_to_vec toy_json" "ce_keys twin_env = hex_keys" "ce_random twin_env = replicate 32 9"
  by (simp_all add: twin_env_def toy_env_def)

lemma twin_request_headers:
  "req_headers twin_request ''upgrade'' = Some (str_bytes upgrade_ts2021)"
  "Option.bind (req_headers twin_request ''x-tailscale-handshake'') ascii_header = Some (twin_text 138)"
  "str_bytes upgrade_ts2021 \<noteq> []"
  by (simp_all add: twin_request_def ascii_header_def) (simp add: upgrade_ts2021_def str_bytes_def)

lemma twin_public: "public_of twin_noise k = k"
  by (simp add: twin_noise_def)

theorem client_reaches_http2_witness:
  "\<exists>(a :: script accepted) f. conn_steps ascii_header (server_state_new (twin_key 2) ()) twin_env (Received twin_request) (Tunnel a)
     \<and> capability_version a = 138 \<and> peer_machine_key a = replicate 32 1
     \<and> conn_step ascii_header (server_state_new (twin_key 2) ()) twin_env (Tunnel a) (Serving f [])"
proof -
  let ?st = "server_state_new (twin_key 2) ()"
  have js: "json_ok_for toy_json (early_noise_to_json (ce_keys twin_env)
      \<lparr>node_key_challenge = public_of (ce_noise twin_env) (ce_random twin_env)\<rparr>)"
    unfolding twin_env_simps twin_public toy_challenge_def [symmetric]
    by (rule toy_json_ok) (simp add: toy_trees_def)
  have ini: "ini_initialize twin_initiator (prologue 138) (private_half (twin_key 1))
      (public_half (server_key ?st)) 138 = ((), twin_text 138)"
    by (simp add: server_state_new_def twin_initialize)
  have "noise_lib_ok (ce_noise twin_env)" "initiator_ok (ce_noise twin_env) twin_initiator"
    "key_pair_ok (ce_noise twin_env) (twin_key 1)" "key_pair_ok (ce_noise twin_env) (server_key ?st)"
    "113 \<le> (138 :: u16)" by (simp_all add: twin_initiator_ok server_state_new_def)
  note r = client_reaches_http2 [OF this ini twin_request_headers(1,3,2) twin_env_simps(2-5) _ _ js]
  have "key_text_ok (ce_keys twin_env)" "length (public_of (ce_noise twin_env) (ce_random twin_env)) = 32"
    by (simp_all add: twin_public)
  from r [OF this] show ?thesis by (auto simp: twin_key_def)
qed

end
