(* ===== verification/Exact_Reads.thy ===== *)
theory Exact_Reads
  imports Noise_Correctness
begin

text \<open>
  tokio's \<^verbatim>\<open>read_exact\<close> over a poll-level reader, which the repository's tests and its HTTP/2 peer
  use on the adapter: it fills a buffer with the next bytes of the stream, however these arrive.
\<close>


subsection \<open>The loop\<close>

text \<open>
  As documented: poll until the buffer is full; a pending read is polled again, and a successful
  read that adds nothing is the end of the stream, an error. \<open>None\<close>: the future never completes.
\<close>

partial_function (option) read_exact_polls ::
  "('r \<Rightarrow> read_buf \<Rightarrow> ((io_error + unit) poll \<times> read_buf \<times> 'r) exec) \<Rightarrow> 'r \<Rightarrow> read_buf
     \<Rightarrow> ((io_error + bytes) \<times> 'r) exec option" where
  "read_exact_polls rd r b =
     (if remaining b = 0 then Some (Finished (Inr (filled b), r))
      else
        (case rd r b of
           Diverges \<Rightarrow> None
         | Panics \<Rightarrow> Some Panics
         | Finished (Pending, b1, r1) \<Rightarrow> read_exact_polls rd r1 b1
         | Finished (Ready (Inl e), b1, r1) \<Rightarrow> Some (Finished (Inl e, r1))
         | Finished (Ready (Inr u), b1, r1) \<Rightarrow>
             if remaining b1 = remaining b then Some (Finished (Inl (OtherIo ''unexpected end of file''), r1))
             else read_exact_polls rd r1 b1))"

definition read_exact ::
  "('r \<Rightarrow> read_buf \<Rightarrow> ((io_error + unit) poll \<times> read_buf \<times> 'r) exec) \<Rightarrow> 'r \<Rightarrow> nat
     \<Rightarrow> ((io_error + bytes) \<times> 'r) exec" where
  "read_exact rd r n =
     (case read_exact_polls rd r \<lparr>filled = [], capacity = n\<rparr> of None \<Rightarrow> Diverges | Some x \<Rightarrow> x)"


subsection \<open>Over the scripted transport\<close>

text \<open>
  A script that only delivers data: chunks of any size, empty ones too, and stalls in any number.
  \<open>sends\<close> is the rest of its state, which reading does not touch.
\<close>

definition data_only :: "script \<Rightarrow> bool" where
  "data_only s \<longleftrightarrow> list_all (\<lambda>p. p = Pending \<or> (\<exists>c. p = Ready (Some (Inr c)))) (arrivals s)"

definition sends :: "script \<Rightarrow> script" where
  "sends s = s\<lparr>arrivals := []\<rparr>"

lemma script_next:
  "tr_poll_next script_transport s =
     (case arrivals s of [] \<Rightarrow> (Pending, s) | p # ps \<Rightarrow> (p, s\<lparr>arrivals := ps\<rparr>))"
  by (simp add: script_transport_def)

text \<open>
  One search for a chunk in such a script: it finds bytes, or it stalls after taking a stall off the
  script, or the script is used up.
\<close>

definition fill_found :: "script framed_io \<Rightarrow> (io_error + bytes) poll \<times> script framed_io \<Rightarrow> bool" where
  "fill_found f r \<longleftrightarrow>
     data_only (inner (snd r)) \<and> sends (inner (snd r)) = sends (inner f)
     \<and> length (arrivals (inner (snd r))) \<le> length (arrivals (inner f))
     \<and> ((\<exists>bs. fst r = Ready (Inr bs) \<and> bs \<noteq> [])
        \<or> fst r = Pending \<and> chunk_bytes (snd r) = []
           \<and> (arrivals (inner (snd r)) = [] \<or> length (arrivals (inner (snd r))) < length (arrivals (inner f))))"

lemma script_fill:
  assumes "poll_fill_buf script_transport f = Some r"
  shows "data_only (inner f) \<longrightarrow> fill_found f r"
  using assms
proof (rule fill_buf_induct)
  fix f c t r
  assume n: "tr_poll_next script_transport (inner f) = (Ready (Some (Inr c)), t)"
    and IH: "data_only (inner (f\<lparr>inner := t, chunk := Some c\<rparr>)) \<longrightarrow> fill_found (f\<lparr>inner := t, chunk := Some c\<rparr>) r"
  from n obtain ps where "arrivals (inner f) = Ready (Some (Inr c)) # ps" "t = inner f\<lparr>arrivals := ps\<rparr>"
    by (auto simp: script_next split: list.splits)
  with IH show "data_only (inner f) \<longrightarrow> fill_found f r"
    by (auto simp: fill_found_def data_only_def sends_def)
qed (auto simp: fill_found_def script_next data_only_def sends_def has_chunk_iff chunk_bytes_def
      split: list.splits option.splits)

lemma script_poll_read:
  assumes data: "data_only (inner f)" and room: "0 < remaining b"
    and enough: "remaining b \<le> length (framed_left script_bytes f)"
  shows "\<exists>p b' f' bs. poll_read script_transport f b = Finished (p, b', f')
    \<and> b' = b\<lparr>filled := filled b @ bs\<rparr> \<and> length bs \<le> remaining b
    \<and> framed_left script_bytes f = bs @ framed_left script_bytes f'
    \<and> data_only (inner f') \<and> sends (inner f') = sends (inner f)
    \<and> (p = Ready (Inr ()) \<and> bs \<noteq> [] \<and> length (arrivals (inner f')) \<le> length (arrivals (inner f))
       \<or> p = Pending \<and> bs = [] \<and> length (arrivals (inner f')) < length (arrivals (inner f)))"
proof -
  obtain q f1 where fb: "poll_fill_buf script_transport f = Some (q, f1)"
    using script_fill_returns [of f] by auto
  have ok: "fill_found f (q, f1)" using script_fill [OF fb] data by blast
  have left: "framed_left script_bytes f1 = framed_left script_bytes f"
    using script_reads.fill_buf_conserves [OF fb] by simp
  show ?thesis
  proof (cases q)
    case Pending
    have "arrivals (inner f1) \<noteq> []"
    proof
      assume "arrivals (inner f1) = []"
      then have "framed_left script_bytes f1 = []"
        using ok Pending by (simp add: fill_found_def framed_left_def script_bytes_def)
      with left enough room show False by simp
    qed
    with ok Pending fb left room show ?thesis
      by (intro exI [of _ Pending] exI [of _ b] exI [of _ f1] exI [of _ "[]"])
        (auto simp: poll_read_def fill_found_def)
  next
    case (Ready x)
    then obtain bs where bs: "q = Ready (Inr bs)" "bs \<noteq> []" using ok by (auto simp: fill_found_def)
    let ?n = "min (length bs) (remaining b)"
    from poll_read_ready [of b, OF _ fb [unfolded bs(1)]] room obtain f2 where
      pr: "poll_read script_transport f b = Finished (Ready (Inr ()), b\<lparr>filled := filled b @ take ?n bs\<rparr>, f2)"
      and f2: "inner f2 = inner f1" "chunk_bytes f2 = drop ?n bs" by auto
    have "framed_left script_bytes f1 = bs @ script_bytes (inner f1)"
      using fill_buf_chunk [OF fb [unfolded bs(1)]] by (simp add: framed_left_def)
    then have "framed_left script_bytes f = take ?n bs @ framed_left script_bytes f2"
      using left f2 by (simp add: framed_left_def flip: append_assoc)
    moreover have "take ?n bs \<noteq> []" using bs(2) room by simp
    ultimately show ?thesis using pr f2 ok
      by (intro exI [of _ "Ready (Inr ())"] exI [of _ "b\<lparr>filled := filled b @ take ?n bs\<rparr>"]
          exI [of _ f2] exI [of _ "take ?n bs"]) (simp add: fill_found_def)
  qed
qed

lemma script_read_exact_polls:
  assumes "data_only (inner f)" and "remaining b \<le> length (framed_left script_bytes f)"
    and "length (filled b) \<le> capacity b"
  shows "\<exists>f'. read_exact_polls (poll_read script_transport) f b
      = Some (Finished (Inr (filled b @ take (remaining b) (framed_left script_bytes f)), f'))
    \<and> framed_left script_bytes f' = drop (remaining b) (framed_left script_bytes f)
    \<and> data_only (inner f') \<and> sends (inner f') = sends (inner f)"
  using assms
proof (induction "length (arrivals (inner f)) + remaining b" arbitrary: f b rule: less_induct)
  case less
  show ?case
  proof (cases "remaining b = 0")
    case True
    with less.prems show ?thesis by (subst read_exact_polls.simps) simp
  next
    case False
    then obtain p b1 f1 bs where pr: "poll_read script_transport f b = Finished (p, b1, f1)"
      and b1: "b1 = b\<lparr>filled := filled b @ bs\<rparr>" and len: "length bs \<le> remaining b"
      and left: "framed_left script_bytes f = bs @ framed_left script_bytes f1"
      and keep: "data_only (inner f1)" "sends (inner f1) = sends (inner f)"
      and p: "p = Ready (Inr ()) \<and> bs \<noteq> [] \<and> length (arrivals (inner f1)) \<le> length (arrivals (inner f))
       \<or> p = Pending \<and> bs = [] \<and> length (arrivals (inner f1)) < length (arrivals (inner f))"
      using script_poll_read [OF less.prems(1) _ less.prems(2)] by auto
    have rem: "remaining b1 = remaining b - length bs" using b1 by (simp add: remaining_def)
    have smaller: "length (arrivals (inner f1)) + remaining b1 < length (arrivals (inner f)) + remaining b"
      using p rem len False by (auto simp: length_greater_0_conv [symmetric] simp del: length_greater_0_conv)
    have "remaining b1 \<le> length (framed_left script_bytes f1)" using less.prems(2) left rem by simp
    moreover have "length (filled b1) \<le> capacity b1"
      using b1 len less.prems(3) False by (simp add: remaining_def)
    ultimately obtain f' where f': "read_exact_polls (poll_read script_transport) f1 b1
      = Some (Finished (Inr (filled b1 @ take (remaining b1) (framed_left script_bytes f1)), f'))"
      "framed_left script_bytes f' = drop (remaining b1) (framed_left script_bytes f1)"
      "data_only (inner f')" "sends (inner f') = sends (inner f1)"
      using less.hyps [OF smaller keep(1)] by blast
    have "read_exact_polls (poll_read script_transport) f b = read_exact_polls (poll_read script_transport) f1 b1"
      using False pr p rem len
      by (subst read_exact_polls.simps) (auto simp: length_greater_0_conv [symmetric] simp del: length_greater_0_conv)
    moreover have "filled b1 @ take (remaining b1) (framed_left script_bytes f1)
        = filled b @ take (remaining b) (framed_left script_bytes f)"
      using b1 left rem len by simp
    moreover have "drop (remaining b1) (framed_left script_bytes f1) = drop (remaining b) (framed_left script_bytes f)"
      using left rem len by simp
    ultimately show ?thesis using f' keep by auto
  qed
qed

lemma script_read_exact:
  assumes "data_only (inner f)" and "n \<le> length (framed_left script_bytes f)"
  shows "\<exists>f'. read_exact (poll_read script_transport) f n
      = Finished (Inr (take n (framed_left script_bytes f)), f')
    \<and> framed_left script_bytes f' = drop n (framed_left script_bytes f)
    \<and> data_only (inner f') \<and> sends (inner f') = sends (inner f)"
  using script_read_exact_polls [of f "\<lparr>filled = [], capacity = n\<rparr>"] assms
  by (auto simp: read_exact_def remaining_def)

text \<open>
  C32. Reading an exact number of bytes through the adapter: when that many are still to come, in chunks
  of any size, empty ones and stalls among them, \<^verbatim>\<open>read_exact\<close> returns exactly the next bytes of
  the stream and leaves the rest for the next read.
\<close>

theorem exact_reads_deliver:
  assumes "data_only (inner f)" and "n \<le> length (chunk_bytes f @ script_bytes (inner f))"
  shows "\<exists>f'. read_exact (poll_read script_transport) f n
      = Finished (Inr (take n (chunk_bytes f @ script_bytes (inner f))), f')
    \<and> chunk_bytes f' @ script_bytes (inner f') = drop n (chunk_bytes f @ script_bytes (inner f))"
  using script_read_exact [of f n] assms by (auto simp: framed_left_def)

theorem exact_reads_deliver_witness:
  "\<exists>f'. read_exact (poll_read script_transport)
      (framed_new (script_new [Pending, Ready (Some (Inr [1])), Ready (Some (Inr [])), Ready (Some (Inr [2, 3, 4]))])) 3
     = Finished (Inr [1, 2, 3], f') \<and> chunk_bytes f' @ script_bytes (inner f') = [4]"
  using exact_reads_deliver [of "framed_new (script_new [Pending, Ready (Some (Inr [1])), Ready (Some (Inr [])), Ready (Some (Inr [2, 3, 4]))])" 3]
  by (simp add: framed_new_def script_new_def data_only_def chunk_bytes_def script_bytes_def arrival_bytes_def)

end
