(* ===== verification/Repo_Tests.thy ===== *)
theory Repo_Tests
  imports Store_Correctness Client Exact_Reads
begin

text \<open>
  The tests of the repository, written down as functions of what they take from outside (the clock,
  the serialisers, the crates of the handshake, the link between the two sides), and the proof that
  they pass. A test \<^verbatim>\<open>Panics\<close> when an \<^verbatim>\<open>unwrap\<close> or an \<^verbatim>\<open>assert\<close> fails, and \<^verbatim>\<open>Diverges\<close> when it
  waits for ever; it passes when it is \<open>Finished\<close>.
\<close>


subsection \<open>Running a test\<close>

definition asserts :: "bool \<Rightarrow> 'a exec \<Rightarrow> 'a exec" where
  "asserts b k = (if b then k else Panics)"

definition unwraps :: "'e + 'a \<Rightarrow> ('a \<Rightarrow> 'b exec) \<Rightarrow> 'b exec" where
  "unwraps r k = (case r of Inl _ \<Rightarrow> Panics | Inr a \<Rightarrow> k a)"

definition expects :: "'a option \<Rightarrow> ('a \<Rightarrow> 'b exec) \<Rightarrow> 'b exec" where
  "expects x k = (case x of None \<Rightarrow> Panics | Some a \<Rightarrow> k a)"

text \<open>\<^verbatim>\<open>f(..).await.unwrap()\<close>, on a future that ends with a result and a new state.\<close>

definition awaits :: "(('e + 'a) \<times> 's) option \<Rightarrow> ('a \<Rightarrow> 's \<Rightarrow> 'b exec) \<Rightarrow> 'b exec" where
  "awaits x k = (case x of None \<Rightarrow> Diverges | Some (r, s) \<Rightarrow> unwraps r (\<lambda>a. k a s))"

definition reads :: "(('e + 'a) \<times> 's) exec \<Rightarrow> ('a \<Rightarrow> 's \<Rightarrow> 'b exec) \<Rightarrow> 'b exec" where
  "reads x k = (case x of Diverges \<Rightarrow> Diverges | Panics \<Rightarrow> Panics | Finished (r, s) \<Rightarrow> unwraps r (\<lambda>a. k a s))"

definition passes :: "'a exec \<Rightarrow> bool" where
  "passes x = (case x of Finished _ \<Rightarrow> True | _ \<Rightarrow> False)"

named_theorems test_simps "how a test runs"

lemma test_combinators [test_simps]:
  "asserts True k = k" "asserts False k = Panics"
  "unwraps (Inr a) f = f a" "unwraps (Inl e) f = Panics"
  "expects (Some a) f = f a" "expects None f = Panics"
  "awaits (Some (Inr a, s)) g = g a s" "awaits (Some (Inl e, s)) g = Panics" "awaits None g = Diverges"
  "reads (Finished (Inr a, s)) g = g a s" "reads (Finished (Inl e, s)) g = Panics"
  "passes (Finished x)" "\<not> passes Panics" "\<not> passes Diverges"
  by (simp_all add: asserts_def unwraps_def expects_def awaits_def reads_def passes_def)


subsection \<open>The tests of the memory store\<close>

text \<open>\<^verbatim>\<open>format!("{id:012x}")\<close>: lowercase hexadecimal digits, padded with zeros to twelve.\<close>

fun show_hex :: "nat \<Rightarrow> string" where
  "show_hex n = (if n < 16 then [hex_digit n] else show_hex (n div 16) @ [hex_digit n])"

declare show_hex.simps [simp del]

definition padded :: "nat \<Rightarrow> string \<Rightarrow> string" where
  "padded n s = replicate (n - length s) (CHR ''0'') @ s"

definition test_key :: "u64 \<Rightarrow> bool \<Rightarrow> string option \<Rightarrow> preauth_key" where
  "test_key i reuse expiry =
     \<lparr>pak_id = PreAuthKeyId i, pak_network_id = NetworkId 1, prefix = padded 12 (show_hex (unat i)),
      secret_hash = ''hash'', reusable = reuse, ephemeral = False, used = False, expires_at = expiry,
      pak_tags = []\<rparr>"

text \<open>Each call reads the clock anew: \<open>c1\<close>, \<open>c2\<close>.\<close>

definition single_use_key_consumes_exactly_once :: "chrono_env \<Rightarrow> chrono_env \<Rightarrow> unit exec" where
  "single_use_key_consumes_exactly_once c1 c2 =
     (let store = memory_new in
      awaits (Some (mem_upsert_preauth_key (test_key 1 False None) store)) (\<lambda>_ store.
      awaits (Some (mem_consume_preauth_key c1 (PreAuthKeyId 1) store)) (\<lambda>first store.
      asserts first (
      awaits (Some (mem_consume_preauth_key c2 (PreAuthKeyId 1) store)) (\<lambda>second _.
      asserts (\<not> second) (Finished ()))))))"

definition reusable_key_consumes_repeatedly_without_being_marked_used ::
  "chrono_env \<Rightarrow> chrono_env \<Rightarrow> unit exec" where
  "reusable_key_consumes_repeatedly_without_being_marked_used c1 c2 =
     (let store = memory_new in
      awaits (Some (mem_upsert_preauth_key (test_key 2 True None) store)) (\<lambda>_ store.
      awaits (Some (mem_consume_preauth_key c1 (PreAuthKeyId 2) store)) (\<lambda>first store.
      asserts first (
      awaits (Some (mem_consume_preauth_key c2 (PreAuthKeyId 2) store)) (\<lambda>second store.
      asserts second (
      unwraps (mem_list_preauth_keys (NetworkId 1) store) (\<lambda>stored.
      asserts (0 < length stored) (
      asserts (\<not> used (stored ! 0)) (Finished ())))))))))"

definition expired_key_is_rejected :: "chrono_env \<Rightarrow> unit exec" where
  "expired_key_is_rejected c =
     (let store = memory_new in
      awaits (Some (mem_upsert_preauth_key (test_key 3 False (Some ''2000-01-01T00:00:00Z'')) store)) (\<lambda>_ store.
      awaits (Some (mem_consume_preauth_key c (PreAuthKeyId 3) store)) (\<lambda>won _.
      asserts (\<not> won) (Finished ()))))"

definition unexpired_key_is_accepted :: "chrono_env \<Rightarrow> unit exec" where
  "unexpired_key_is_accepted c =
     (let store = memory_new in
      awaits (Some (mem_upsert_preauth_key (test_key 4 False (Some ''2999-01-01T00:00:00Z'')) store)) (\<lambda>_ store.
      awaits (Some (mem_consume_preauth_key c (PreAuthKeyId 4) store)) (\<lambda>won _.
      asserts won (Finished ()))))"

definition unknown_key_returns_false :: "chrono_env \<Rightarrow> unit exec" where
  "unknown_key_returns_false c =
     (let store = memory_new in
      awaits (Some (mem_consume_preauth_key c (PreAuthKeyId 99) store)) (\<lambda>won _.
      asserts (\<not> won) (Finished ())))"


subsection \<open>The tests of the file store\<close>

definition temp_json_path :: "path \<Rightarrow> nat \<Rightarrow> nat \<Rightarrow> path" where
  "temp_json_path temp_dir pid nanos =
     temp_dir @ [Normal (''oxiscale-filestore-'' @ show_dec pid @ ''-'' @ show_dec nanos @ ''.json'')]"

definition test_network :: network where
  "test_network =
     \<lparr>net_id = NetworkId 1, net_name = ''default'', server_host = ''ctl.local'',
      ipv4_prefix = ''100.64.0.0/10'', ipv6_prefix = ''fd7a:115c:a1e0::/48'', noise_key_id = ''k1'',
      net_policy = None, created_at = ''2026-06-19T00:00:00Z''\<rparr>"

text \<open>The file the test removes at its end is left to the caller.\<close>

definition mutations_succeed_and_persist_across_reopen ::
  "codec \<Rightarrow> file_env \<Rightarrow> file_system \<Rightarrow> path \<Rightarrow> unit exec" where
  "mutations_succeed_and_persist_across_reopen C e fs p =
     unwraps (file_open C (read_fault e) fs p) (\<lambda>st.
     awaits (Some (file_upsert_network C e test_network \<lparr>store = st, disk = fs\<rparr>)) (\<lambda>_ w.
     unwraps (file_open C (read_fault e) (disk w) p) (\<lambda>reloaded.
     unwraps (file_list_networks \<lparr>store = reloaded, disk = disk w\<rparr>) (\<lambda>networks.
     asserts (length networks = 1) (
     asserts (net_id (networks ! 0) = NetworkId 1) (Finished ()))))))"

definition open_missing_file_is_empty_not_an_error ::
  "codec \<Rightarrow> file_system \<Rightarrow> path \<Rightarrow> unit exec" where
  "open_missing_file_is_empty_not_an_error C fs p =
     unwraps (file_open C None fs p) (\<lambda>st.
     unwraps (file_list_networks \<lparr>store = st, disk = fs\<rparr>) (\<lambda>networks.
     asserts (networks = []) (Finished ())))"

text \<open>
  What the tests assume of the outside: the two timestamps parse and the clock is between them, the
  temporary path is fresh, the disk works, and the serialiser writes the one document it is given.
\<close>

definition calendar_ok :: "chrono_env \<Rightarrow> bool" where
  "calendar_ok c \<longleftrightarrow>
     (\<exists>t u. parse_rfc3339 c ''2000-01-01T00:00:00Z'' = Some t \<and> parse_rfc3339 c ''2999-01-01T00:00:00Z'' = Some u
        \<and> t \<le> utc_now c \<and> utc_now c < u)"

definition test_document :: store_document where
  "test_document = memory_new\<lparr>networks := [test_network]\<rparr>"

lemma consume_test_key:
  "mem_consume_preauth_key c (PreAuthKeyId i) (memory_new\<lparr>preauth_keys := [k]\<rparr>) =
     (if pak_id k \<noteq> PreAuthKeyId i \<or> preauth_key_expired c k then (Inr False, memory_new\<lparr>preauth_keys := [k]\<rparr>)
      else if reusable k then (Inr True, memory_new\<lparr>preauth_keys := [k]\<rparr>)
      else if used k then (Inr False, memory_new\<lparr>preauth_keys := [k]\<rparr>)
      else (Inr True, memory_new\<lparr>preauth_keys := [k\<lparr>used := True\<rparr>]\<rparr>))"
  by (simp add: mem_consume_preauth_key_def Let_def)

lemma upsert_test_key: "mem_upsert_preauth_key k memory_new = (Inr (), memory_new\<lparr>preauth_keys := [k]\<rparr>)"
  by (simp add: mem_upsert_preauth_key_def memory_new_def)

lemma memory_tests_pass:
  assumes "calendar_ok c"
  shows "passes (single_use_key_consumes_exactly_once c1 c2)"
    and "passes (reusable_key_consumes_repeatedly_without_being_marked_used c1 c2)"
    and "passes (expired_key_is_rejected c)" and "passes (unexpired_key_is_accepted c)"
    and "passes (unknown_key_returns_false c)"
proof -
  show "passes (single_use_key_consumes_exactly_once c1 c2)"
    by (simp add: single_use_key_consumes_exactly_once_def test_simps upsert_test_key consume_test_key
        test_key_def preauth_key_expired_def)
  show "passes (reusable_key_consumes_repeatedly_without_being_marked_used c1 c2)"
    by (simp add: reusable_key_consumes_repeatedly_without_being_marked_used_def test_simps upsert_test_key
        consume_test_key test_key_def preauth_key_expired_def mem_list_preauth_keys_def)
  show "passes (expired_key_is_rejected c)"
    using assms by (auto simp: expired_key_is_rejected_def test_simps upsert_test_key consume_test_key
        test_key_def preauth_key_expired_def calendar_ok_def)
  show "passes (unexpired_key_is_accepted c)"
    using assms by (auto simp: unexpired_key_is_accepted_def test_simps upsert_test_key consume_test_key
        test_key_def preauth_key_expired_def calendar_ok_def)
  show "passes (unknown_key_returns_false c)"
    by (simp add: unknown_key_returns_false_def test_simps mem_consume_preauth_key_def memory_new_def)
qed

lemma json_name_format:
  assumes "s \<noteq> []"
  shows "format_from_path (dir @ [Normal (s @ ''.json'')]) = Some Json"
proof -
  have "str_bytes ''json'' = [0x6A, 0x73, 0x6F, 0x6E]" by (simp add: str_bytes_def)
  then have "valid_utf8 (str_bytes ''json'')" by (simp add: valid_utf8_ascii)
  moreover have "rsplit_dot (s @ ''.json'') = Some (s, ''json'')"
    using rsplit_dot_append [of "''json''" s] by simp
  moreover have "s @ ''.json'' \<noteq> ''..''" using assms by (cases s) auto
  ultimately show ?thesis
    using assms by (simp add: format_from_path_def path_extension_def file_name_def os_extension_def from_utf8_def)
qed

lemma temp_json_format: "format_from_path (temp_json_path dir pid nanos) = Some Json"
  using json_name_format [of "''oxiscale-filestore-'' @ show_dec pid @ ''-'' @ show_dec nanos" dir]
  by (simp add: temp_json_path_def)

lemma file_tests_pass:
  assumes "codec_ok C" and "json_to_vec_pretty C test_document = Inr bs" and "no_faults e"
    and "wf_fs fs" and "p = temp_json_path dir pid nanos" and "content fs p = None"
  shows "passes (mutations_succeed_and_persist_across_reopen C e fs p)"
    and "passes (open_missing_file_is_empty_not_an_error C fs p)"
proof -
  have f: "format_from_path p = Some Json" using assms(5) temp_json_format by simp
  have op: "file_open C None fs p = Inr \<lparr>path = p, format = Json, memory = memory_new\<rparr>"
    using f assms(6) by (rule open_none)
  then show "passes (open_missing_file_is_empty_not_an_error C fs p)"
    by (simp add: open_missing_file_is_empty_not_an_error_def test_simps file_list_networks_def
        mem_list_networks_def memory_new_def)
  let ?w = "\<lparr>store = \<lparr>path = p, format = Json, memory = test_document\<rparr>, disk = fs\<rparr>"
  have ser: "serialize_doc C Json test_document = Inr bs" using assms(2) by (simp add: serialize_doc_def)
  obtain w where fl: "file_flush C e ?w = (Inr (), w)"
    using calm_file_flush [of e ?w C bs] assms(3,4) ser by auto
  have "tmp_path p \<noteq> p" using f by (rule tmp_path_other)
  with flush_props(3) [OF _ _ fl] assms(4) ser have "content (disk w) p = Some bs" by simp
  with f have "file_open C None (disk w) p = Inr \<lparr>path = p, format = Json, memory = test_document\<rparr>"
    using deserialize_serialize [OF assms(1) ser] by (simp add: open_some)
  moreover have "file_upsert_network C e test_network
      \<lparr>store = \<lparr>path = p, format = Json, memory = memory_new\<rparr>, disk = fs\<rparr> = (Inr (), w)"
    using fl by (simp add: file_upsert_network_def mutate_flush_def in_memory_def mem_upsert_network_def
        test_document_def memory_new_def)
  ultimately show "passes (mutations_succeed_and_persist_across_reopen C e fs p)"
    using op assms(3) by (simp add: mutations_succeed_and_persist_across_reopen_def test_simps no_faults_def
        file_list_networks_def mem_list_networks_def test_document_def test_network_def)
qed

text \<open>
  C39. The seven tests of the two stores pass: with any clock between the years 2000 and 2999, any
  serialisers with their documented round trip that can write the test's document, and any
  working disk on which the temporary path is fresh.
\<close>

theorem store_tests_pass:
  assumes "calendar_ok c"
    and "codec_ok C" and "json_to_vec_pretty C test_document = Inr bs" and "no_faults e"
    and "wf_fs fs" and "content fs (temp_json_path dir pid nanos) = None"
  shows "passes (single_use_key_consumes_exactly_once c1 c2)
    \<and> passes (reusable_key_consumes_repeatedly_without_being_marked_used c1 c2)
    \<and> passes (expired_key_is_rejected c) \<and> passes (unexpired_key_is_accepted c)
    \<and> passes (unknown_key_returns_false c)
    \<and> passes (mutations_succeed_and_persist_across_reopen C e fs (temp_json_path dir pid nanos))
    \<and> passes (open_missing_file_is_empty_not_an_error C fs (temp_json_path dir pid nanos))"
  using memory_tests_pass [OF assms(1)] file_tests_pass [OF assms(2-5) refl assms(6)] by simp

definition millennium :: chrono_env where
  "millennium =
     \<lparr>parse_rfc3339 = (\<lambda>s. if s = ''2000-01-01T00:00:00Z'' then Some 946684800
        else if s = ''2999-01-01T00:00:00Z'' then Some 32472144000 else None),
      utc_now = 1781827200\<rparr>"

theorem store_tests_pass_witness:
  "passes (expired_key_is_rejected millennium) \<and> passes (unexpired_key_is_accepted millennium)
   \<and> passes (mutations_succeed_and_persist_across_reopen (table_codec [test_document]) calm empty_fs
       (temp_json_path [RootDir, Normal ''tmp''] 42 7))"
proof -
  have "calendar_ok millennium" by (simp add: calendar_ok_def millennium_def)
  moreover have "codec_ok (table_codec [test_document])" by (simp add: table_codec_ok)
  moreover have "json_to_vec_pretty (table_codec [test_document]) test_document = Inr [0]"
    by (simp add: table_codec_def doc_index_def)
  moreover have "no_faults calm" by simp
  moreover have "content empty_fs (temp_json_path [RootDir, Normal ''tmp''] 42 7) = None"
    by (simp add: content_def empty_fs_def)
  ultimately show ?thesis
    using store_tests_pass [of millennium "table_codec [test_document]" "[0]" calm empty_fs] wf_empty_fs by blast
qed


subsection \<open>The tests of the wire types\<close>

text \<open>\<^verbatim>\<open>"00".repeat(32)\<close>.\<close>

definition str_repeat :: "nat \<Rightarrow> string \<Rightarrow> string" where
  "str_repeat n s = concat (replicate n s)"

definition over_tls_response_uses_pascal_case_and_mkey_encoding :: "key_lib \<Rightarrow> json_lib \<Rightarrow> unit exec" where
  "over_tls_response_uses_pascal_case_and_mkey_encoding K J =
     (let pk = replicate 32 0x11; resp = over_tls_new K pk in
      unwraps (js_to_vec J (over_tls_to_json K resp)) (\<lambda>json.
      asserts (json = str_bytes (''{'' @ json_quote ''LegacyPublicKey'' @ '':''
          @ json_quote (''mkey:'' @ str_repeat 32 ''00'') @ '','' @ json_quote ''PublicKey'' @ '':''
          @ json_quote (''mkey:'' @ str_repeat 32 ''11'') @ ''}'')) (Finished ())))"

definition over_tls_response_round_trips :: "key_lib \<Rightarrow> json_lib \<Rightarrow> unit exec" where
  "over_tls_response_round_trips K J =
     (let resp = over_tls_new K (replicate 32 0xAB) in
      unwraps (js_to_vec J (over_tls_to_json K resp)) (\<lambda>json.
      expects (Option.bind (js_from_slice J json) (over_tls_from_json K)) (\<lambda>back.
      asserts (back = resp) (Finished ()))))"

definition early_noise_uses_pascal_case_and_chalpub_encoding :: "key_lib \<Rightarrow> json_lib \<Rightarrow> unit exec" where
  "early_noise_uses_pascal_case_and_chalpub_encoding K J =
     (let challenge = replicate 32 0x22; en = \<lparr>node_key_challenge = challenge\<rparr> in
      unwraps (js_to_vec J (early_noise_to_json K en)) (\<lambda>json.
      asserts (json = str_bytes (''{'' @ json_quote ''NodeKeyChallenge'' @ '':''
          @ json_quote (''chalpub:'' @ str_repeat 32 ''22'') @ ''}'')) (
      expects (Option.bind (js_from_slice J json) (early_noise_from_json K)) (\<lambda>back.
      expects (chalpub_parse K (''chalpub:'' @ str_repeat 32 ''22'')) (\<lambda>parsed.
      asserts (node_key_challenge back = parsed) (Finished ()))))))"

definition min_supported_is_v1_80_baseline :: "unit exec" where
  "min_supported_is_v1_80_baseline = asserts (min_supported_capability_version = 113) (Finished ())"

definition early_noise_magic_is_the_five_byte_ts_marker :: "unit exec" where
  "early_noise_magic_is_the_five_byte_ts_marker =
     asserts (early_noise_magic = [0xFF, 0xFF, 0xFF] @ str_bytes ''TS'') (
     asserts (length early_noise_magic = 5) (Finished ()))"

definition upgrade_token_is_the_wire_value_not_the_protocol_nickname :: "unit exec" where
  "upgrade_token_is_the_wire_value_not_the_protocol_nickname =
     asserts (upgrade_ts2021 = ''tailscale-control-protocol'') (
     asserts (upgrade_ts2021 \<noteq> ''TS2021'') (Finished ()))"

lemma hex_repeat: "hex (replicate n b) = str_repeat n (hex [b])"
  by (induction n) (simp_all add: hex_def str_repeat_def)

lemma hex_pairs: "hex [0] = ''00''" "hex [0x11] = ''11''" "hex [0x22] = ''22''"
  by (simp_all add: hex_def hex_digit_def)

lemma wire_tests_pass:
  assumes K: "key_text_ok K"
    and J: "json_ok_for J (over_tls_to_json K (over_tls_new K (replicate 32 0x11)))"
      "json_ok_for J (over_tls_to_json K (over_tls_new K (replicate 32 0xAB)))"
      "json_ok_for J (early_noise_to_json K \<lparr>node_key_challenge = replicate 32 0x22\<rparr>)"
  shows "passes (over_tls_response_uses_pascal_case_and_mkey_encoding K J)"
    and "passes (over_tls_response_round_trips K J)"
    and "passes (early_noise_uses_pascal_case_and_chalpub_encoding K J)"
    and "passes min_supported_is_v1_80_baseline" and "passes early_noise_magic_is_the_five_byte_ts_marker"
    and "passes upgrade_token_is_the_wire_value_not_the_protocol_nickname"
proof -
  show "passes (over_tls_response_uses_pascal_case_and_mkey_encoding K J)"
    using J(1) over_tls_text [OF K, of "replicate 32 0x11"]
    by (simp add: over_tls_response_uses_pascal_case_and_mkey_encoding_def json_ok_for_def test_simps
        hex_repeat hex_pairs)
  show "passes (over_tls_response_round_trips K J)"
    using J(2) over_tls_text [OF K, of "replicate 32 0xAB"]
    by (simp add: over_tls_response_round_trips_def json_ok_for_def test_simps)
  show "passes (early_noise_uses_pascal_case_and_chalpub_encoding K J)"
    using J(3) early_noise_text [OF K, of "\<lparr>node_key_challenge = replicate 32 0x22\<rparr>"]
      key_text_okD(4) [OF K, of "replicate 32 0x22"]
    by (simp add: early_noise_uses_pascal_case_and_chalpub_encoding_def json_ok_for_def test_simps
        hex_repeat hex_pairs)
  show "passes min_supported_is_v1_80_baseline"
    by (simp add: min_supported_is_v1_80_baseline_def min_supported_capability_version_def test_simps)
  show "passes early_noise_magic_is_the_five_byte_ts_marker"
    by (simp add: early_noise_magic_is_the_five_byte_ts_marker_def early_noise_magic_def test_simps)
  show "passes upgrade_token_is_the_wire_value_not_the_protocol_nickname"
    by (simp add: upgrade_token_is_the_wire_value_not_the_protocol_nickname_def upgrade_ts2021_def test_simps)
qed


subsection \<open>The tests of the key facade\<close>

text \<open>
  The crate \<^verbatim>\<open>tskey\<close> re-exports the key types, and its tests check their text codec. What they use of
  these types beyond \<open>key_lib\<close>: the prefix constants, and the error of a text that does not parse, of
  whose kinds the tests name one. Their documented values, and that a text of the right length with another
  prefix is refused for its prefix, are \<open>key_facade_ok\<close>.
\<close>

datatype parse_error = BadPrefix | OtherParseError string

record key_facade =
  facade_keys :: key_lib
  facade_error :: "string \<Rightarrow> parse_error"
  machine_prefix :: string
  node_prefix :: string
  disco_prefix :: string

definition machine_from_str :: "key_facade \<Rightarrow> string \<Rightarrow> parse_error + key" where
  "machine_from_str F s = ok_or (facade_error F s) (mkey_parse (facade_keys F) s)"

definition key_facade_ok :: "key_facade \<Rightarrow> bool" where
  "key_facade_ok F \<longleftrightarrow>
     key_text_ok (facade_keys F)
     \<and> machine_prefix F = ''mkey'' \<and> node_prefix F = ''nodekey'' \<and> disco_prefix F = ''discokey''
     \<and> (\<forall>s. length s = 69 \<longrightarrow> take 5 s \<noteq> machine_prefix F @ '':'' \<longrightarrow> machine_from_str F s = Inl BadPrefix)"

text \<open>\<^verbatim>\<open>str::replacen\<close> with a count of one.\<close>

fun replace_first :: "string \<Rightarrow> string \<Rightarrow> string \<Rightarrow> string" where
  "replace_first a b [] = (if a = [] then b else [])"
| "replace_first a b (c # cs) =
     (if take (length a) (c # cs) = a then b @ drop (length a) (c # cs) else c # replace_first a b cs)"

definition prefixes_match_the_protocol_reference :: "key_facade \<Rightarrow> unit exec" where
  "prefixes_match_the_protocol_reference F =
     asserts (machine_prefix F = ''mkey'') (
     asserts (node_prefix F = ''nodekey'') (
     asserts (disco_prefix F = ''discokey'') (Finished ())))"

definition machine_public_key_text_codec_round_trips :: "key_lib \<Rightarrow> machine_key_pair \<Rightarrow> unit exec" where
  "machine_public_key_text_codec_round_trips K pair =
     (let encoded = mkey_text K (public_half pair) in
      asserts (take 5 encoded = ''mkey:'') (
      asserts (length encoded = length ''mkey:'' + 64) (
      expects (mkey_parse K encoded) (\<lambda>decoded.
      asserts (decoded = public_half pair) (Finished ())))))"

definition zero_key_formats_as_all_zero_hex :: "key_lib \<Rightarrow> unit exec" where
  "zero_key_formats_as_all_zero_hex K =
     (let key = replicate 32 0 in
      asserts (mkey_text K key = ''mkey:'' @ str_repeat 32 ''00'') (Finished ()))"

definition wrong_prefix_is_rejected :: "key_facade \<Rightarrow> machine_key_pair \<Rightarrow> unit exec" where
  "wrong_prefix_is_rejected F pair =
     (let wrong = replace_first ''mkey'' ''xkey'' (mkey_text (facade_keys F) (public_half pair)) in
      asserts (case machine_from_str F wrong of Inl BadPrefix \<Rightarrow> True | _ \<Rightarrow> False) (Finished ()))"

text \<open>A key is serialised as its text.\<close>

definition serde_uses_the_text_codec :: "key_lib \<Rightarrow> json_lib \<Rightarrow> machine_key_pair \<Rightarrow> unit exec" where
  "serde_uses_the_text_codec K J pair =
     unwraps (js_to_vec J (JStr (mkey_text K (public_half pair)))) (\<lambda>json.
     asserts (json = str_bytes (json_quote (mkey_text K (public_half pair)))) (
     expects (json_key (mkey_parse K) (js_from_slice J json)) (\<lambda>back.
     asserts (back = public_half pair) (Finished ()))))"

lemma key_tests_pass:
  assumes F: "key_facade_ok F" and len: "length (public_half pair) = 32"
    and J: "json_ok_for J (JStr (mkey_text (facade_keys F) (public_half pair)))"
  shows "passes (machine_public_key_text_codec_round_trips (facade_keys F) pair)"
    and "passes (zero_key_formats_as_all_zero_hex (facade_keys F))"
    and "passes (prefixes_match_the_protocol_reference F)"
    and "passes (wrong_prefix_is_rejected F pair)"
    and "passes (serde_uses_the_text_codec (facade_keys F) J pair)"
proof -
  have K: "key_text_ok (facade_keys F)" using F by (simp add: key_facade_ok_def)
  note k = key_text_okD [OF K len]
  show "passes (machine_public_key_text_codec_round_trips (facade_keys F) pair)"
    using k len by (simp add: machine_public_key_text_codec_round_trips_def test_simps)
  show "passes (zero_key_formats_as_all_zero_hex (facade_keys F))"
    using key_text_okD(1) [OF K, of "replicate 32 0"]
    by (simp add: zero_key_formats_as_all_zero_hex_def test_simps hex_repeat hex_pairs)
  show "passes (prefixes_match_the_protocol_reference F)"
    using F by (simp add: prefixes_match_the_protocol_reference_def key_facade_ok_def test_simps)
  have "machine_from_str F (''xkey:'' @ hex (public_half pair)) = Inl BadPrefix"
    using F len by (simp add: key_facade_ok_def)
  then show "passes (wrong_prefix_is_rejected F pair)"
    using k by (simp add: wrong_prefix_is_rejected_def test_simps)
  show "passes (serde_uses_the_text_codec (facade_keys F) J pair)"
    using J k plain_hex [of "public_half pair"]
    by (simp add: serde_uses_the_text_codec_def json_ok_for_def test_simps json_key_def plain_char_def)
qed

text \<open>A facade over the hexadecimal codec of the stand-ins.\<close>

definition hex_facade :: key_facade where
  "hex_facade =
     \<lparr>facade_keys = hex_keys,
      facade_error = (\<lambda>s. if take 5 s = ''mkey:'' then OtherParseError ''not hexadecimal'' else BadPrefix),
      machine_prefix = ''mkey'', node_prefix = ''nodekey'', disco_prefix = ''discokey''\<rparr>"

lemma hex_facade_ok: "key_facade_ok hex_facade"
proof -
  have "mkey_parse hex_keys s = None" if "take 5 s \<noteq> ''mkey:''" for s
  proof -
    have five: "length ''mkey:'' = 5" by simp
    show ?thesis using that unfolding hex_keys_def prefixed_key_def by (simp del: list.size add: five)
  qed
  then show ?thesis by (simp add: key_facade_ok_def hex_facade_def machine_from_str_def ok_or_def)
qed


subsection \<open>The tests of the handshake\<close>

text \<open>
  The encrypted streams of the two sides are adapters over scripted transports. The link takes what
  one side has sent to the script of the other, in chunks of any size, with empty ones and stalls.
\<close>

record link =
  to_client :: "script framed_io \<Rightarrow> script framed_io"
  to_server :: "script framed_io \<Rightarrow> script framed_io \<Rightarrow> script framed_io"

definition link_ok :: "link \<Rightarrow> bool" where
  "link_ok lk \<longleftrightarrow>
     (\<forall>f. data_only (inner (to_client lk f)) \<and> sends (inner (to_client lk f)) = script_new []
        \<and> framed_left script_bytes (to_client lk f) = script_sent (inner f))
     \<and> (\<forall>c f. data_only (inner (to_server lk c f))
        \<and> framed_left script_bytes (to_server lk c f) = script_sent (inner c))"

definition prologue_for :: "u16 \<Rightarrow> string" where
  "prologue_for capver = ''Tailscale Control Protocol v'' @ show_dec (unat capver)"

definition responder_completes_handshake_and_round_trips_encrypted_data ::
  "('sk, 'hs, 'sess) noise_lib \<Rightarrow> ('ch, 'cs) initiator \<Rightarrow> (socket \<Rightarrow> 'sess \<Rightarrow> script) \<Rightarrow> 'sk \<Rightarrow> link
     \<Rightarrow> socket \<Rightarrow> machine_key_pair \<Rightarrow> machine_key_pair \<Rightarrow> unit exec" where
  "responder_completes_handshake_and_round_trips_encrypted_data L I mk rnd lk server_io server client =
     (let capver = 113;
          (handshake, init_b64) =
            ini_initialize I (prologue_for capver) (private_half client) (public_half server) capver
      in
      awaits (accept L socket_writer mk rnd server_io (private_half server) init_b64) (\<lambda>accepted io.
      asserts (capability_version accepted = 113) (
      asserts (peer_machine_key accepted = public_half client) (
      awaits (w_write_all (framed_writer script_transport) (stream accepted) (str_bytes ''hello-from-server'')) (\<lambda>_ s1.
      awaits (w_flush (framed_writer script_transport) s1) (\<lambda>_ s2.
      expects (ini_complete I handshake (private_half client) (wire io)) (\<lambda>_.
      reads (read_exact (poll_read script_transport) (to_client lk s2) 17) (\<lambda>greeting c1.
      asserts (greeting = str_bytes ''hello-from-server'') (
      awaits (w_write_all (framed_writer script_transport) c1 (str_bytes ''hi-from-cli'')) (\<lambda>_ c2.
      awaits (w_flush (framed_writer script_transport) c2) (\<lambda>_ c3.
      reads (read_exact (poll_read script_transport) (to_server lk c3 s2) 11) (\<lambda>reply _.
      asserts (reply = str_bytes ''hi-from-cli'') (Finished ())))))))))))))"

text \<open>The client's side of EarlyNoise: nine bytes of header, then the JSON the length announces.\<close>

definition reads_early_noise ::
  "key_lib \<Rightarrow> json_lib \<Rightarrow> script framed_io \<Rightarrow> (early_noise \<Rightarrow> 'a exec) \<Rightarrow> 'a exec" where
  "reads_early_noise K J client_stream k =
     reads (read_exact (poll_read script_transport) client_stream 9) (\<lambda>head c1.
     asserts (take 5 head = early_noise_magic) (
     (let json_len = unat (u32_from_be_bytes (head ! 5) (head ! 6) (head ! 7) (head ! 8)) in
      reads (read_exact (poll_read script_transport) c1 json_len) (\<lambda>json _.
      expects (Option.bind (js_from_slice J json) (early_noise_from_json K)) k))))"

definition early_noise_frame_is_magic_then_be_len_then_json ::
  "('sk, 'hs, 'sess) noise_lib \<Rightarrow> ('ch, 'cs) initiator \<Rightarrow> key_lib \<Rightarrow> json_lib \<Rightarrow> (socket \<Rightarrow> 'sess \<Rightarrow> script) \<Rightarrow> 'sk
     \<Rightarrow> link \<Rightarrow> socket \<Rightarrow> machine_key_pair \<Rightarrow> machine_key_pair \<Rightarrow> unit exec" where
  "early_noise_frame_is_magic_then_be_len_then_json L I K J mk rnd lk server_io server client =
     (let capver = 113;
          (handshake, init_b64) =
            ini_initialize I (prologue_for capver) (private_half client) (public_half server) capver
      in
      awaits (accept L socket_writer mk rnd server_io (private_half server) init_b64) (\<lambda>accepted io.
      awaits (write_early_noise (js_to_vec J) K (framed_writer script_transport) (stream accepted)
          \<lparr>node_key_challenge = acc_node_key_challenge accepted\<rparr>) (\<lambda>_ s1.
      expects (ini_complete I handshake (private_half client) (wire io)) (\<lambda>_.
      reads_early_noise K J (to_client lk s1) (\<lambda>parsed.
      asserts (node_key_challenge parsed = acc_node_key_challenge accepted) (Finished ()))))))"

definition capability_version_below_minimum_is_rejected ::
  "('sk, 'hs, 'sess) noise_lib \<Rightarrow> ('ch, 'cs) initiator \<Rightarrow> (socket \<Rightarrow> 'sess \<Rightarrow> script) \<Rightarrow> 'sk
     \<Rightarrow> socket \<Rightarrow> machine_key_pair \<Rightarrow> machine_key_pair \<Rightarrow> unit exec" where
  "capability_version_below_minimum_is_rejected L I mk rnd server_io server client =
     (let capver = 112;
          (_, init_b64) =
            ini_initialize I (prologue_for capver) (private_half client) (public_half server) capver
      in
      case accept L socket_writer mk rnd server_io (private_half server) init_b64 of
        None \<Rightarrow> Diverges
      | Some (result, _) \<Rightarrow>
          asserts (case result of Inl (UnsupportedVersion got least) \<Rightarrow> got = 112 \<and> least = 113 | _ \<Rightarrow> False)
            (Finished ()))"

definition garbage_initiation_is_rejected ::
  "('sk, 'hs, 'sess) noise_lib \<Rightarrow> (socket \<Rightarrow> 'sess \<Rightarrow> script) \<Rightarrow> 'sk \<Rightarrow> socket \<Rightarrow> machine_key_pair \<Rightarrow> unit exec"
where
  "garbage_initiation_is_rejected L mk rnd server_io server =
     (case accept L socket_writer mk rnd server_io (private_half server) ''not-base64-at-all!!'' of
        None \<Rightarrow> Diverges
      | Some (result, _) \<Rightarrow>
          asserts (case result of Inl (Base64 _) \<Rightarrow> True | _ \<Rightarrow> False) (Finished ()))"


subsection \<open>The smoke test of the HTTP edge\<close>

text \<open>
  The host as the test uses it: who listens at which address. \<open>bind\<close> is \<^verbatim>\<open>TcpListener::bind\<close> with port 0, which
  picks an address; \<^verbatim>\<open>start_server\<close> spawns the server there, and \<^verbatim>\<open>connect\<close> finds it by the address. The bytes of
  a hijacked connection go over the scripted sockets.
\<close>

record host_net =
  listening :: "nat \<rightharpoonup> memory_store server_state"

definition start_server ::
  "(host_net \<Rightarrow> io_error + nat) \<Rightarrow> machine_key_pair \<Rightarrow> host_net \<Rightarrow> (nat \<Rightarrow> host_net \<Rightarrow> 'b exec) \<Rightarrow> 'b exec" where
  "start_server bind server_pair net k =
     unwraps (bind net) (\<lambda>addr.
     let st = server_state_new server_pair memory_new in
     k addr (net\<lparr>listening := (listening net)(addr \<mapsto> st)\<rparr>))"

definition connect :: "nat \<Rightarrow> host_net \<Rightarrow> (memory_store server_state \<Rightarrow> 'b exec) \<Rightarrow> 'b exec" where
  "connect addr net k = expects (listening net addr) k"

definition key_request :: request where
  "key_request =
     \<lparr>req_method = ''GET'', req_path = ''/key'', req_headers = [''host'' \<mapsto> str_bytes ''localhost'']\<rparr>"

definition get_key_advertises_the_server_public_key ::
  "(host_net \<Rightarrow> io_error + nat) \<Rightarrow> host_net \<Rightarrow> (request \<Rightarrow> response) \<Rightarrow> (bytes \<Rightarrow> string option) \<Rightarrow> key_lib
     \<Rightarrow> json_lib \<Rightarrow> machine_key_pair \<Rightarrow> unit exec" where
  "get_key_advertises_the_server_public_key bind net unmatched to_str K J server_pair =
     start_server bind server_pair net (\<lambda>addr net.
     connect addr net (\<lambda>st.
     let (resp, _) = dispatch unmatched to_str K st key_request in
     asserts (status resp = 200) (
     case body resp of
       JsonBody r \<Rightarrow>
         unwraps (js_to_vec J (over_tls_to_json K r)) (\<lambda>bytes.
         expects (Option.bind (js_from_slice J bytes) (over_tls_from_json K)) (\<lambda>parsed.
         asserts (public_key parsed = public_half server_pair) (Finished ())))
     | _ \<Rightarrow> Panics)))"

definition upgrade_request :: "string \<Rightarrow> request" where
  "upgrade_request init_b64 =
     \<lparr>req_method = ''POST'', req_path = ''/ts2021'',
      req_headers = [''host'' \<mapsto> str_bytes ''localhost'', ''connection'' \<mapsto> str_bytes ''upgrade'',
        ''upgrade'' \<mapsto> str_bytes ''tailscale-control-protocol'',
        ''x-tailscale-handshake'' \<mapsto> str_bytes init_b64]\<rparr>"

text \<open>
  The task that the server spawned for the request runs \<open>run_noise_connection\<close> on the hijacked socket, with hyper's
  HTTP/2 server (\<open>serve\<close>) behind it. The client reads the response of the handshake off the socket, and then what the
  server has sent through the tunnel by the time it starts HTTP/2. If the server gave up before, the client finds
  the connection closed, which makes the test panic.
\<close>

definition ts2021_upgrade_completes_handshake_and_emits_early_noise ::
  "(host_net \<Rightarrow> io_error + nat) \<Rightarrow> host_net \<Rightarrow> (request \<Rightarrow> response) \<Rightarrow> (bytes \<Rightarrow> string option)
     \<Rightarrow> ('sk, 'hs, 'sess) noise_lib \<Rightarrow> ('ch, 'cs) initiator \<Rightarrow> key_lib \<Rightarrow> json_lib
     \<Rightarrow> (socket \<Rightarrow> 'sess \<Rightarrow> script) \<Rightarrow> 'sk \<Rightarrow> ((request \<Rightarrow> response) \<Rightarrow> script framed_io \<Rightarrow> (string + unit) option)
     \<Rightarrow> link \<Rightarrow> socket \<Rightarrow> machine_key_pair \<Rightarrow> machine_key_pair \<Rightarrow> unit exec" where
  "ts2021_upgrade_completes_handshake_and_emits_early_noise bind net unmatched to_str L I K J mk rnd serve lk upgraded
       server_pair client =
     start_server bind server_pair net (\<lambda>addr net.
     let capver = 113;
         (handshake, init_b64) =
           ini_initialize I (prologue_for capver) (private_half client) (public_half server_pair) capver
     in
     connect addr net (\<lambda>st.
     let (resp, task) = dispatch unmatched to_str K st (upgrade_request init_b64);
         env = \<lparr>ce_noise = L, ce_to_vec = js_to_vec J, ce_keys = K, ce_socket = socket_writer,
                ce_stream = framed_writer script_transport, ce_framed = mk, ce_random = rnd, ce_http2 = serve\<rparr>
     in
     asserts (status resp = 101) (
     expects task (\<lambda>t.
     case run_noise_connection env upgraded (task_key t) (task_init_b64 t) of
       None \<Rightarrow> Diverges
     | Some (_, served) \<Rightarrow>
         expects served (\<lambda>(io, tunnel).
         expects (ini_complete I handshake (private_half client) (wire io)) (\<lambda>_.
         reads_early_noise K J (to_client lk tunnel) (\<lambda>early.
         asserts (take 8 (chalpub_text K (node_key_challenge early)) = ''chalpub:'') (Finished ()))))))))"


subsection \<open>They pass\<close>

lemma prologue_for_eq: "prologue_for v = prologue v"
  by (simp add: prologue_for_def prologue_def)

lemma calm_stream_write:
  assumes "sends (inner f) = script_new []" and "bs \<noteq> []"
  shows "w_write_all (framed_writer script_transport) f bs
      = Some (Inr (), f\<lparr>inner := (inner f)\<lparr>frames := [bs]\<rparr>\<rparr>)"
    and "w_flush (framed_writer script_transport) (f\<lparr>inner := (inner f)\<lparr>frames := fs\<rparr>\<rparr>)
      = Some (Inr (), f\<lparr>inner := (inner f)\<lparr>frames := fs\<rparr>\<rparr>)"
proof -
  have s: "readiness (inner f) = []" "send_faults (inner f) = []" "flushes (inner f) = []" "frames (inner f) = []"
    using assms(1) by (cases "inner f"; simp add: sends_def script_new_def)+
  show "w_write_all (framed_writer script_transport) f bs
      = Some (Inr (), f\<lparr>inner := (inner f)\<lparr>frames := [bs]\<rparr>\<rparr>)"
    using s assms(2)
    by (simp add: framed_writer_def write_all_polls.simps poll_write_def script_transport_def)
  show "w_flush (framed_writer script_transport) (f\<lparr>inner := (inner f)\<lparr>frames := fs\<rparr>\<rparr>)
      = Some (Inr (), f\<lparr>inner := (inner f)\<lparr>frames := fs\<rparr>\<rparr>)"
    using s by (simp add: framed_writer_def await_poll.simps framed_poll_flush_def script_transport_def
        map_poll_def Let_def)
qed

text \<open>The handshake of a test, on a socket that takes everything at once.\<close>

lemma test_handshake:
  assumes "noise_lib_ok L" and "initiator_ok L I" and "key_pair_ok L client" and "key_pair_ok L server"
    and "ini_initialize I (prologue 113) (private_half client) (public_half server) 113 = (h, b64)"
  obtains a io cs where
    "accept L socket_writer (\<lambda>_ _. script_new []) rnd socket_new (private_half server) b64 = Some (Inr a, io)"
    "capability_version a = 113" "peer_machine_key a = public_half client"
    "stream a = framed_new (script_new [])" "acc_node_key_challenge a = public_of L rnd"
    "ini_complete I h (private_half client) (wire io) = Some (cs, [])"
proof -
  have "accept L socket_writer (\<lambda>_ _. script_new []) rnd socket_new (private_half server) b64
      \<noteq> Some (Inl (NoiseIo e), s')" for e s'
    by (rule calm_accept_no_io) (simp_all add: socket_new_def)
  moreover have "113 \<le> (113 :: u16)" by simp
  ultimately obtain a io msg cs where
    acc: "accept L socket_writer (\<lambda>_ _. script_new []) rnd socket_new (private_half server) b64 = Some (Inr a, io)"
    and a: "capability_version a = 113" "peer_machine_key a = public_half client" "wire io = wire socket_new @ msg"
      "\<forall>rest. ini_complete I h (private_half client) (msg @ rest) = Some (cs, rest)"
    using handshake_with_client [OF assms(1-4) _ assms(5), of "\<lambda>_ _. script_new []" rnd socket_new] by blast
  have "ini_complete I h (private_half client) (wire io) = Some (cs, [])"
    using a(3) a(4) [rule_format, of "[]"] by (simp add: socket_new_def)
  moreover have "stream a = framed_new (script_new [])" "acc_node_key_challenge a = public_of L rnd"
    using acc by (auto elim!: accept_Inr)
  ultimately show ?thesis using that acc a by blast
qed

lemma round_trip_test_passes:
  assumes "noise_lib_ok L" and "initiator_ok L I" and "key_pair_ok L client" and "key_pair_ok L server"
    and "link_ok lk"
  shows "passes (responder_completes_handshake_and_round_trips_encrypted_data L I (\<lambda>_ _. script_new []) rnd lk
      socket_new server client)"
proof -
  obtain h b64 where ini: "ini_initialize I (prologue 113) (private_half client) (public_half server) 113 = (h, b64)"
    by fastforce
  obtain a io cs where a:
    "accept L socket_writer (\<lambda>_ _. script_new []) rnd socket_new (private_half server) b64 = Some (Inr a, io)"
    "capability_version a = 113" "peer_machine_key a = public_half client" "stream a = framed_new (script_new [])"
    "ini_complete I h (private_half client) (wire io) = Some (cs, [])"
    using test_handshake [OF assms(1-4) ini] by metis
  let ?hello = "str_bytes ''hello-from-server''" and ?hi = "str_bytes ''hi-from-cli''"
  let ?f = "framed_new (script_new [])"
  let ?s2 = "?f\<lparr>inner := (inner ?f)\<lparr>frames := [?hello]\<rparr>\<rparr>"
  have f: "sends (inner ?f) = script_new []" by (simp add: framed_new_def sends_def script_new_def)
  have nonempty: "?hello \<noteq> []" "?hi \<noteq> []" by (simp_all add: str_bytes_def)
  have c: "data_only (inner (to_client lk ?s2))" "sends (inner (to_client lk ?s2)) = script_new []"
    "framed_left script_bytes (to_client lk ?s2) = ?hello"
    using assms(5) by (simp_all add: link_ok_def script_sent_def)
  have "17 \<le> length (framed_left script_bytes (to_client lk ?s2))" using c(3) by simp
  from script_read_exact [OF c(1) this] c obtain c1 where
    r1: "read_exact (poll_read script_transport) (to_client lk ?s2) 17 = Finished (Inr ?hello, c1)"
    and c1: "sends (inner c1) = script_new []" by auto
  let ?c3 = "c1\<lparr>inner := (inner c1)\<lparr>frames := [?hi]\<rparr>\<rparr>"
  have d: "data_only (inner (to_server lk ?c3 ?s2))" "framed_left script_bytes (to_server lk ?c3 ?s2) = ?hi"
    using assms(5) by (simp_all add: link_ok_def script_sent_def)
  have "11 \<le> length (framed_left script_bytes (to_server lk ?c3 ?s2))" using d(2) by simp
  from script_read_exact [OF d(1) this] d obtain c4 where
    "read_exact (poll_read script_transport) (to_server lk ?c3 ?s2) 11 = Finished (Inr ?hi, c4)" by auto
  with a r1 calm_stream_write [OF f nonempty(1)] calm_stream_write [OF c1 nonempty(2)] show ?thesis
    by (simp add: responder_completes_handshake_and_round_trips_encrypted_data_def prologue_for_eq ini test_simps)
qed

lemma early_noise_wire_header:
  "take 9 (early_noise_wire k) = [0xFF, 0xFF, 0xFF, 0x54, 0x53, 0, 0, 0, 95]"
  "drop 9 (early_noise_wire k)
     = str_bytes (''{'' @ json_quote ''NodeKeyChallenge'' @ '':'' @ json_quote (''chalpub:'' @ hex k) @ ''}'')"
  "length k = 32 \<Longrightarrow> length (early_noise_wire k) = 104"
  by (simp_all add: early_noise_wire_def json_quote_def)

lemma client_reads_early_noise:
  assumes "key_text_ok K" and "length (node_key_challenge e) = 32" and "json_ok_for J (early_noise_to_json K e)"
    and "data_only (inner c)" and "framed_left script_bytes c = early_noise_wire (node_key_challenge e)"
  shows "reads_early_noise K J c k = k e"
proof -
  let ?w = "early_noise_wire (node_key_challenge e)"
  note hd = early_noise_wire_header [of "node_key_challenge e"]
  have "9 \<le> length (framed_left script_bytes c)" using assms(2,5) hd(3) by simp
  from script_read_exact [OF assms(4) this] assms(5) obtain c1 where
    r1: "read_exact (poll_read script_transport) c 9 = Finished (Inr (take 9 ?w), c1)"
    and c1: "data_only (inner c1)" "framed_left script_bytes c1 = drop 9 ?w" by auto
  have "95 \<le> length (framed_left script_bytes c1)" using c1(2) assms(2) hd(3) by simp
  from script_read_exact [OF c1(1) this] c1(2) obtain c2 where
    r2: "read_exact (poll_read script_transport) c1 95 = Finished (Inr (take 95 (drop 9 ?w)), c2)" by auto
  have all: "take 95 (drop 9 ?w) = drop 9 ?w" using assms(2) hd(3) by simp
  have len: "unat (u32_from_be_bytes 0 0 0 95) = 95" by (simp add: u32_from_be_bytes_def)
  have "Option.bind (js_from_slice J (drop 9 ?w)) (early_noise_from_json K) = Some e"
    using assms(3) early_noise_text [OF assms(1,2)] hd(2) by (simp add: json_ok_for_def)
  with r1 r2 all len hd(1) show ?thesis
    by (simp add: reads_early_noise_def test_simps early_noise_magic_bytes)
qed

lemma announced_challenge:
  assumes "key_text_ok K" and "length (node_key_challenge e) = 32" and "json_ok_for J (early_noise_to_json K e)"
    and "link_ok lk"
  obtains s1 where
    "write_early_noise (js_to_vec J) K (framed_writer script_transport) (framed_new (script_new [])) e = Some (Inr (), s1)"
    "\<And>k. reads_early_noise K J (to_client lk s1) k = k e"
proof -
  let ?js = "str_bytes (json_text (early_noise_to_json K e))"
  let ?s1 = "framed_new (script_new []\<lparr>frames := [early_noise_frame ?js]\<rparr>)"
  have js: "js_to_vec J (early_noise_to_json K e) = Inr ?js"
    using assms(3) early_noise_text(2) [OF assms(1,2)] by (simp add: json_ok_for_def)
  have w: "write_early_noise (js_to_vec J) K (framed_writer script_transport) (framed_new (script_new [])) e
      = Some (Inr (), ?s1)" using js by (rule calm_early_noise)
  have "script_sent (inner ?s1) = early_noise_wire (node_key_challenge e)"
    using early_noise_frame_bytes [OF assms(1,2)] by (simp add: framed_new_def script_sent_def)
  then have "data_only (inner (to_client lk ?s1))"
    "framed_left script_bytes (to_client lk ?s1) = early_noise_wire (node_key_challenge e)"
    using assms(4) by (simp_all add: link_ok_def)
  from client_reads_early_noise [OF assms(1-3) this] w that show ?thesis by blast
qed

lemma early_noise_tests_pass:
  assumes "noise_lib_ok L" and "initiator_ok L I" and "key_pair_ok L client" and "key_pair_ok L server"
    and "link_ok lk" and "key_text_ok K" and "length (public_of L rnd) = 32"
    and "json_ok_for J (early_noise_to_json K \<lparr>node_key_challenge = public_of L rnd\<rparr>)"
  shows "passes (early_noise_frame_is_magic_then_be_len_then_json L I K J (\<lambda>_ _. script_new []) rnd lk
      socket_new server client)"
    and "to_str (str_bytes (snd (ini_initialize I (prologue 113) (private_half client) (public_half server) 113)))
      = Some (snd (ini_initialize I (prologue 113) (private_half client) (public_half server) 113)) \<Longrightarrow>
      bind net = Inr addr \<Longrightarrow>
      (\<And>f. serve handle_machine f \<noteq> None) \<Longrightarrow>
      passes (ts2021_upgrade_completes_handshake_and_emits_early_noise bind net unmatched to_str L I K J
        (\<lambda>_ _. script_new []) rnd serve lk socket_new server client)"
proof -
  obtain h b64 where ini: "ini_initialize I (prologue 113) (private_half client) (public_half server) 113 = (h, b64)"
    by fastforce
  obtain a io cs where a:
    "accept L socket_writer (\<lambda>_ _. script_new []) rnd socket_new (private_half server) b64 = Some (Inr a, io)"
    "stream a = framed_new (script_new [])" "acc_node_key_challenge a = public_of L rnd"
    "ini_complete I h (private_half client) (wire io) = Some (cs, [])"
    using test_handshake [OF assms(1-4) ini] by metis
  let ?e = "\<lparr>node_key_challenge = public_of L rnd\<rparr>"
  have len: "length (node_key_challenge ?e) = 32" using assms(7) by simp
  obtain s1 where
    w: "write_early_noise (js_to_vec J) K (framed_writer script_transport) (framed_new (script_new [])) ?e = Some (Inr (), s1)"
    and r: "\<And>k :: early_noise \<Rightarrow> unit exec. reads_early_noise K J (to_client lk s1) k = k ?e"
    using announced_challenge [OF assms(6) len assms(8,5)] by metis
  show "passes (early_noise_frame_is_magic_then_be_len_then_json L I K J (\<lambda>_ _. script_new []) rnd lk
      socket_new server client)"
    using a w r
    by (simp add: early_noise_frame_is_magic_then_be_len_then_json_def prologue_for_eq ini test_simps)
  assume to_str: "to_str (str_bytes (snd (ini_initialize I (prologue 113) (private_half client) (public_half server) 113)))
      = Some (snd (ini_initialize I (prologue 113) (private_half client) (public_half server) 113))"
    and bound: "bind net = Inr addr" and ends: "\<And>f. serve handle_machine f \<noteq> None"
  obtain e where "serve handle_machine s1 = Some e" using ends [of s1] by blast
  then have run: "run_noise_connection \<lparr>ce_noise = L, ce_to_vec = js_to_vec J, ce_keys = K, ce_socket = socket_writer,
      ce_stream = framed_writer script_transport, ce_framed = (\<lambda>_ _. script_new []), ce_random = rnd, ce_http2 = serve\<rparr>
      socket_new server b64 = Some (map_err Http2 e, Some (io, s1))"
    using a w by (simp add: run_noise_connection_def)
  have up: "ts2021_upgrade to_str (server_state_new server memory_new) (upgrade_request b64)
      = (\<lparr>status = 101, headers = [(''connection'', ''upgrade''), (''upgrade'', upgrade_ts2021)], body = EmptyBody\<rparr>,
         Some \<lparr>task_key = server, task_init_b64 = b64\<rparr>)"
    using to_str ini by (simp add: ts2021_upgrade_def upgrade_request_def server_state_new_def)
      (simp add: str_bytes_def)
  have "routed (upgrade_request b64) = Some Ts2021Upgrade"
    by (simp add: routed_def router_def upgrade_request_def)
  moreover have "chalpub_text K (public_of L rnd) = ''chalpub:'' @ hex (public_of L rnd)"
    using key_text_okD(3) [OF assms(6,7)] .
  ultimately show "passes (ts2021_upgrade_completes_handshake_and_emits_early_noise bind net unmatched to_str L I K J
      (\<lambda>_ _. script_new []) rnd serve lk socket_new server client)"
    using a(4) run r up bound
    by (simp add: ts2021_upgrade_completes_handshake_and_emits_early_noise_def prologue_for_eq ini dispatch_def
        start_server_def connect_def test_simps)
qed

lemma refusal_tests_pass:
  assumes "noise_lib_ok L" and "initiator_ok L I" and "key_pair_ok L client" and "key_pair_ok L server"
    and "b64_decode L ''not-base64-at-all!!'' = Inl e"
  shows "passes (capability_version_below_minimum_is_rejected L I mk rnd s server client)"
    and "passes (garbage_initiation_is_rejected L mk rnd s server)"
proof -
  obtain h b64 where ini: "ini_initialize I (prologue 112) (private_half client) (public_half server) 112 = (h, b64)"
    by fastforce
  obtain p where b64: "str_trim b64 = b64" "b64_decode L b64 = Inr (initiation_bytes 112 p)" "length p = 96"
    using initiator_okE [OF assms(2-4) ini] by metis
  have "parse_initiation L (initiation_bytes 112 p) = Inl (UnsupportedVersion 112 113)"
    using old_initiation_refused [OF assms(1) _ b64(3), of 112 "[]"] by simp
  with b64 show "passes (capability_version_below_minimum_is_rejected L I mk rnd s server client)"
    by (simp add: capability_version_below_minimum_is_rejected_def prologue_for_eq ini accept_def test_simps)
  have "str_trim ''not-base64-at-all!!'' = ''not-base64-at-all!!''" by code_simp
  with assms(5) show "passes (garbage_initiation_is_rejected L mk rnd s server)"
    by (simp add: garbage_initiation_is_rejected_def accept_def test_simps)
qed

lemma get_key_test_passes:
  assumes "key_text_ok K" and "length (public_half server) = 32"
    and "json_ok_for J (over_tls_to_json K (over_tls_new K (public_half server)))" and "bind net = Inr addr"
  shows "passes (get_key_advertises_the_server_public_key bind net unmatched to_str K J server)"
proof -
  let ?r = "over_tls_new K (public_half server)"
  obtain bs where "js_to_vec J (over_tls_to_json K ?r) = Inr bs"
    "Option.bind (js_from_slice J bs) (over_tls_from_json K) = Some ?r"
    using over_tls_text [OF assms(1,2)] assms(3) by (simp add: json_ok_for_def)
  moreover have "public_key ?r = public_half server" by (simp add: over_tls_new_def)
  moreover have "routed key_request = Some GetKey" by (simp add: routed_def router_def key_request_def)
  ultimately show ?thesis using assms(4)
    by (simp add: get_key_advertises_the_server_public_key_def get_key_def dispatch_def start_server_def connect_def
        server_state_new_def test_simps)
qed

text \<open>
  C40. The tests of the handshake and the smoke test of the HTTP edge pass: with any handshake crates,
  initiator, key codec and JSON library that behave as documented, any address the host binds, any HTTP/2 server that
  ends when the client leaves, and any link that delivers what is sent, cut and delayed in any way. The smoke test
  drives the router and the spawned \<^verbatim>\<open>run_noise_connection\<close> itself. The server and the client complete the handshake and read
  each other's bytes, the client gets the challenge key behind the magic and the length, and versions
  below the minimum and text that is not base64 are refused.
\<close>

theorem handshake_tests_pass:
  assumes "noise_lib_ok L" and "initiator_ok L I" and "key_pair_ok L client" and "key_pair_ok L server"
    and "link_ok lk" and "key_text_ok K" and "length (public_of L rnd) = 32"
    and "json_ok_for J (early_noise_to_json K \<lparr>node_key_challenge = public_of L rnd\<rparr>)"
    and "json_ok_for J (over_tls_to_json K (over_tls_new K (public_half server)))"
    and "b64_decode L ''not-base64-at-all!!'' = Inl e"
    and "\<And>s. list_all b64_char s \<Longrightarrow> to_str (str_bytes s) = Some s"
    and "bind net = Inr addr" and "\<And>f. serve handle_machine f \<noteq> None"
  shows "passes (responder_completes_handshake_and_round_trips_encrypted_data L I (\<lambda>_ _. script_new []) rnd lk
        socket_new server client)
    \<and> passes (early_noise_frame_is_magic_then_be_len_then_json L I K J (\<lambda>_ _. script_new []) rnd lk
        socket_new server client)
    \<and> passes (capability_version_below_minimum_is_rejected L I (\<lambda>_ _. script_new []) rnd socket_new server client)
    \<and> passes (garbage_initiation_is_rejected L (\<lambda>_ _. script_new []) rnd socket_new server)
    \<and> passes (get_key_advertises_the_server_public_key bind net unmatched to_str K J server)
    \<and> passes (ts2021_upgrade_completes_handshake_and_emits_early_noise bind net unmatched to_str L I K J
        (\<lambda>_ _. script_new []) rnd serve lk socket_new server client)"
proof -
  obtain h b64 where ini: "ini_initialize I (prologue 113) (private_half client) (public_half server) 113 = (h, b64)"
    by fastforce
  have "list_all b64_char b64" using assms(2-4) ini unfolding initiator_ok_def by blast
  then have "to_str (str_bytes b64) = Some b64" by (rule assms(11))
  moreover have "length (public_half server) = 32" using assms(4) unfolding key_pair_ok_def by blast
  note get_key_test_passes [where bind = bind and net = net and addr = addr and unmatched = unmatched and to_str = to_str,
      OF assms(6) this assms(9,12)]
  ultimately show ?thesis
    using round_trip_test_passes [OF assms(1-5)] early_noise_tests_pass(1) [OF assms(1-8)]
    early_noise_tests_pass(2) [where bind = bind and net = net and addr = addr and unmatched = unmatched and to_str = to_str and serve = serve,
      OF assms(1-8) _ assms(12,13)]
    refusal_tests_pass [OF assms(1-4,10)] \<open>passes (get_key_advertises_the_server_public_key bind net unmatched to_str K J server)\<close> ini
    by simp
qed

text \<open>A link that hands over each frame in one piece, after a stall and an empty chunk.\<close>

definition frame_arrivals :: "script framed_io \<Rightarrow> (io_error + bytes) option poll list" where
  "frame_arrivals f = [Pending, Ready (Some (Inr []))] @ map (\<lambda>b. Ready (Some (Inr b))) (frames (inner f))"

definition plain_link :: link where
  "plain_link =
     \<lparr>to_client = (\<lambda>f. framed_new (script_new (frame_arrivals f))),
      to_server = (\<lambda>c f. framed_new (script_new (frame_arrivals c)))\<rparr>"

lemma plain_link_ok: "link_ok plain_link"
  by (simp add: link_ok_def plain_link_def frame_arrivals_def framed_new_def script_new_def data_only_def
      sends_def framed_left_def chunk_bytes_def script_bytes_def arrival_bytes_def script_sent_def list_all_iff
      comp_def)

theorem handshake_tests_pass_witness:
  "passes (responder_completes_handshake_and_round_trips_encrypted_data twin_noise twin_initiator
      (\<lambda>_ _. script_new []) (replicate 32 9) plain_link socket_new (twin_key 0x11) (twin_key 1))
   \<and> passes (get_key_advertises_the_server_public_key (\<lambda>_. Inr 49152) \<lparr>listening = Map.empty\<rparr> handle_machine
      ascii_header hex_keys toy_json (twin_key 0x11))
   \<and> passes (ts2021_upgrade_completes_handshake_and_emits_early_noise (\<lambda>_. Inr 49152) \<lparr>listening = Map.empty\<rparr>
      handle_machine ascii_header twin_noise twin_initiator hex_keys toy_json (\<lambda>_ _. script_new []) (replicate 32 9) (\<lambda>_ _. Some (Inr ())) plain_link socket_new (twin_key 0x11) (twin_key 1))"
proof -
  have len: "length (public_of twin_noise (replicate 32 9)) = 32" by (simp add: twin_public)
  have j1: "json_ok_for toy_json (early_noise_to_json hex_keys \<lparr>node_key_challenge = public_of twin_noise (replicate 32 9)\<rparr>)"
    unfolding twin_public toy_challenge_def [symmetric] by (rule toy_json_ok) (simp add: toy_trees_def)
  have j2: "json_ok_for toy_json (over_tls_to_json hex_keys (over_tls_new hex_keys (public_half (twin_key 0x11))))"
    by (rule toy_json_ok) (simp add: toy_trees_def twin_key_def)
  have bad: "b64_decode twin_noise ''not-base64-at-all!!'' = Inl ''invalid base64''"
    by (simp add: twin_noise_def hex_value_def)
  have "ascii_header (str_bytes s) = Some s" for s by (simp add: ascii_header_def)
  from handshake_tests_pass [where bind = "\<lambda>_. Inr 49152" and net = "\<lparr>listening = Map.empty\<rparr>" and unmatched = handle_machine
        and serve = "\<lambda>_ _. Some (Inr ())",
      OF twin_noise_ok twin_initiator_ok twin_key_ok twin_key_ok plain_link_ok hex_keys_ok
      len j1 j2 bad this refl] show ?thesis by blast
qed

end
