(* ===== verification/Spec2Isabelle.thy ===== *)
theory Spec2Isabelle
  imports Store_Correctness Failed_Calls Store_Fleet Power_Loss Reload_Race Guarded_Runs Edge_Correctness Connections Duplex Repo_Tests
begin

text \<open>
  A verification development for \<^bold>\<open>oxiscale\<close>, a Tailscale control server in Rust.

  \<^bold>\<open>The program.\<close> The binary \<^verbatim>\<open>tailcontrold\<close> builds a control server with the embedding API
  (\<^verbatim>\<open>crates/control-api\<close>): a builder collects a persistence backend, an address, a routing strategy
  and a key pair, and the server handle binds the address and serves HTTP. The HTTP edge
  (\<^verbatim>\<open>crates/control-core/src/server/mod.rs\<close>) answers \<^verbatim>\<open>GET /key\<close> with the server's public key and
  upgrades \<^verbatim>\<open>POST /ts2021\<close>: a task takes the hijacked socket, runs the responder side of the Noise
  handshake and writes the EarlyNoise frame (\<^verbatim>\<open>crates/noise\<close>), and serves HTTP/2 inside the
  encrypted stream. The wire structs and constants are in \<^verbatim>\<open>crates/tailcfg\<close>. The store
  (\<^verbatim>\<open>crates/control-core/src/store\<close>) is a trait with two backends: a document behind a lock, and
  the same document written to a snapshot file after every mutation.

  \<^bold>\<open>The theories.\<close>
  \<^item> \<open>Prelude\<close>: machine integers, byte strings, big-endian encoding, UTF-8, \<^verbatim>\<open>str::trim\<close>, decimal
    formatting, results and polls, and the find-then-replace-or-push idiom with its table laws.
  \<^item> \<open>Store_Types\<close>: the structs of \<^verbatim>\<open>types.rs\<close> and \<^verbatim>\<open>document.rs\<close>, \<^verbatim>\<open>StoreError\<close>, and the trait of
    \<^verbatim>\<open>traits.rs\<close> as a record of operations.
  \<^item> \<open>Store_Contract\<close>: the abstract store (finite maps), its transitions, and the locale
    \<open>store_contract\<close> a backend meets; \<open>Store_Durable\<close>: the locale \<open>durable_store\<close> that adds flushes
    asked for by the host, reloads of the running store, and restarts.
  \<^item> \<open>Memory_Store\<close>: \<^verbatim>\<open>memory.rs\<close>, operation by operation; interpreted as \<open>mem\<close>.
  \<^item> \<open>Host_Files\<close>: the part of \<^verbatim>\<open>std::path\<close> and \<^verbatim>\<open>std::fs\<close> in use, with the faults of the host.
  \<^item> \<open>File_Store\<close>: \<^verbatim>\<open>file.rs\<close>, each call running to its end; interpreted as \<open>fstore\<close> and \<open>durable\<close>.
  \<^item> \<open>File_Race\<close>: the calls of one \<^verbatim>\<open>FileStore\<close> as tasks, a step relation over the lock, the snapshot,
    and each file operation of the flush. Its invariants are \<open>win_inv\<close> (one winner), \<open>lin_inv\<close> (the order
    of the mutations), \<open>race_ok\<close> (soundness and typing of the tasks), \<open>lone_inv\<close> (a call alone) and
    \<open>calm_inv\<close> (calls that do not overlap); the last two share the analysis of one step, \<open>flush_step\<close>.
  \<^item> \<open>Store_Samples\<close>, \<open>Store_Correctness\<close>: concrete inputs, and the properties of the store.
  \<^item> \<open>Failed_Calls\<close>: what becomes of calls that replied an error, and of rows the serialiser refuses.
  \<^item> \<open>Store_Fleet\<close>: several file stores on one disk, each step a step of \<open>File_Race\<close> of one of them.
    \<open>race_step_agree\<close> says what a step leaves alone; \<open>fleet_ok\<close> carries \<open>calm_inv\<close> and \<open>race_ok\<close> of every
    store past the steps of the others.
  \<^item> \<open>Power_Loss\<close>: the medium behind the file system, with names and data written back at any moment,
    data first or in any order; \<open>media_ok\<close> is the invariant of the inode the snapshot has on the medium.
  \<^item> \<open>Guarded_Calls\<close>: the calls of a store down to the guards of its \<^verbatim>\<open>RwLock\<close>, with the reads beside them
    and calls dropped where they await a guard; \<open>guards_ok\<close> is mutual exclusion, \<open>erase\<close> maps to \<open>File_Race\<close>.
    \<open>Guarded_Runs\<close>: what reads see, and that every call and read comes to its end.
  \<^item> \<open>Reload_Race\<close>: \<^verbatim>\<open>load\<close> on a running store, in parallel with its calls.
  \<^item> \<open>Wire\<close>: \<^verbatim>\<open>capver.rs\<close>, \<^verbatim>\<open>protocol.rs\<close>, \<^verbatim>\<open>key_exchange.rs\<close> with the derived JSON
    and its text.
  \<^item> \<open>Framed_Io\<close>: \<^verbatim>\<open>framed_io.rs\<close>; the locales \<open>chunk_stream\<close>, \<open>byte_source\<close>, \<open>frame_sink\<close>,
    \<open>byte_sink\<close>, \<open>async_writer\<close> are the contracts on the two sides of the adapter.
  \<^item> \<open>Responder\<close>: \<^verbatim>\<open>error.rs\<close> and \<^verbatim>\<open>responder.rs\<close>.
  \<^item> \<open>Noise_Samples\<close>, \<open>Noise_Correctness\<close>: a scripted socket and stand-ins for the crates, and the
    properties of the adapter, the handshake and the frames.
  \<^item> \<open>Server\<close>: \<^verbatim>\<open>server/mod.rs\<close>: handlers as functions, the life of a connection as a step relation.
  \<^item> \<open>Connections\<close>: the server with any number of requests and connection tasks, a step relation over
    \<open>dispatch\<close> and \<open>conn_step\<close>. That requests arrive at any time and tasks run beside each other is what
    axum and tokio document, not code of the repository.
  \<^item> \<open>Control_Api\<close>: \<^verbatim>\<open>server.rs\<close>, \<^verbatim>\<open>routing.rs\<close>, \<^verbatim>\<open>events.rs\<close> and \<^verbatim>\<open>main.rs\<close>.
  \<^item> \<open>Duplex\<close>: both halves of the adapter polled in any order, over the locale \<open>duplex_transport\<close>.
  \<^item> \<open>Exact_Reads\<close>: tokio's \<^verbatim>\<open>read_exact\<close> over the adapter, for any chunking of what arrives.
  \<^item> \<open>Client\<close>: the initiator of the handshake as a parameter, and the properties of client and server
    together: agreement, binding of version and key, and the whole way from the request to HTTP/2.
  \<^item> \<open>Repo_Tests\<close>: the tests of the repository as functions of what they take from outside, with the
    names they have there (\<^verbatim>\<open>memory.rs\<close>, \<^verbatim>\<open>file.rs\<close>, \<^verbatim>\<open>responder.rs\<close>, \<^verbatim>\<open>key_exchange.rs\<close>, \<^verbatim>\<open>capver.rs\<close>,
    \<^verbatim>\<open>protocol.rs\<close>, \<^verbatim>\<open>tskey\<close>, \<^verbatim>\<open>server_smoke.rs\<close>), and the proofs that they pass.
  \<^item> \<open>Edge_Correctness\<close> and this theory: the properties of the edge, the builder, and across both.

  \<^bold>\<open>How code becomes definitions.\<close> A struct is a record, an enum a datatype, \<^verbatim>\<open>Result\<close> a sum with the
  error on the left, \<^verbatim>\<open>u8\<close>, \<^verbatim>\<open>u16\<close>, \<^verbatim>\<open>u32\<close>, \<^verbatim>\<open>u64\<close> words of that width, a \<^verbatim>\<open>String\<close> the list of its
  UTF-8 bytes as characters, a vector a list, a \<^verbatim>\<open>HashMap\<close> a map. A store operation takes the state
  and returns a result and the new state; a mutable reference into a vector is an index. A poll
  function returns a poll and the new state; an awaited operation that never completes is \<open>None\<close>,
  and a panic a value of its own.

  \<^bold>\<open>What the lemmas show.\<close> The memory store refines the abstract store, over any run; a live single-use key
  whose row nobody rewrites is redeemed exactly once. The file store simulates the memory store whatever the disk does, an
  acknowledged call survives a restart, a failed one leaves the file, and over any history of
  failures, flushes, reloads and restarts the tables stay sound, a loadable snapshot stays loadable and
  a single-use key is redeemed at most once more often than calls rewrite its row, as long as the calls are
  sequential and none makes the key reusable. In parallel the document stays
  linearizable and sound, the tasks stay well-typed and in one process a single-use key still has one winner if no call rewrites its row. The guards
  of the lock make a change and a snapshot one step each, a read sees every change acknowledged before
  it was made, and no run of finitely many calls and reads is endless or stuck. But two
  overlapping flushes can put an older document over a newer one, after which a restart redeems a key
  again, or leave an empty file: both are proved as runs. That the overlap is the only cause is proved
  too: calls whose spans from mutation to reply do not overlap are durable, also with other stores running
  on the same disk as long as no two share a snapshot or a temporary file, and also through a loss of power
  up to the last write-back if the host writes data before names. Stores that differ only in the extension do
  share the temporary file and mix up their documents, and a host that writes names first can lose the
  snapshot of a single acknowledged call, as nothing is synced. An error reply is no rollback: the next
  flush saves the failed change, and a row the serialiser refuses blocks all changes until it is removed. A
  load in parallel with a redemption revives the key. A call that is dropped half-way
  is a task that takes no more steps, so these theorems hold with cancellation. The adapter loses no byte
  in either direction, never panics, loses no wake-up, and returns unless the transport hands out empty chunks for ever. The responder accepts
  exactly the initiations of the protocol, writes exactly one response, and nothing when it refuses; every
  documented client completes on that response and agrees with the server on version and key, and an
  altered version or another server's key opens no tunnel. The two JSON documents and the EarlyNoise frame are
  the protocol's byte for byte. HTTP/2 runs only on connections that passed the headers, the handshake and
  EarlyNoise, with the advertised key, and a client gets there; every connection of a server was asked for by a
  request that its handler answered with 101, whatever else the server does. The repository's own tests pass.

  \<^bold>\<open>Recursion and bounds.\<close> There is no fuel. The loop of \<^verbatim>\<open>poll_fill_buf\<close>, \<^verbatim>\<open>write_all\<close> and an await
  that polls again are partial functions into \<open>option\<close>; that they return is proved for scripted
  transports and sockets of any length, and in general under a measure. The EarlyNoise length is a
  32-bit word; the frame the server writes has 95 bytes of JSON, far below the bound of its round trip.

  \<^bold>\<open>Parameters.\<close> Code outside the repository is an argument: the serialisers (\<open>codec\<close>, with their
  documented round trip \<open>codec_ok\<close>), the clock and date parser of \<^verbatim>\<open>chrono\<close>, the handshake crates
  (\<open>noise_lib\<close>, \<open>noise_lib_ok\<close>), the key texts (\<open>key_lib\<close>, \<open>key_text_ok\<close>), the transport under the
  adapter, \<^verbatim>\<open>serde_json\<close> on trees (\<open>json_lib\<close>, \<open>json_ok_for\<close>), the client (\<open>initiator\<close>, \<open>initiator_ok\<close>), the
  socket, hyper and axum, and tokio's \<^verbatim>\<open>RwLock\<close> (\<open>rw_lock\<close>, \<open>lock_ok\<close>: readers or one writer, and somebody who waits is
  let in when nobody is inside). The file system has no hard links, a
  rename is atomic, and what was written before a crash of the process stays; what a loss of power
  leaves is the subject of \<open>Power_Loss\<close>.

  \<^bold>\<open>Not modelled.\<close> The scheduler below the order of steps and the wakers themselves (a poll that is pending is
  one whose transport was), TLS and TCP, tracing, the text of
  error messages where the code only displays it, the headers axum adds to a response by itself, the
  module stubs \<^verbatim>\<open>auth\<close>, \<^verbatim>\<open>change\<close>, \<^verbatim>\<open>derp\<close>, \<^verbatim>\<open>ipalloc\<close>, \<^verbatim>\<open>mapper\<close>, \<^verbatim>\<open>policy\<close>, \<^verbatim>\<open>state\<close> (one comment line
  each), the answers axum gives by itself (to requests no route matches, a parameter of \<open>dispatch\<close>, and to \<^verbatim>\<open>HEAD\<close>,
  which it serves with the handler of \<^verbatim>\<open>GET\<close>), the re-exports of \<^verbatim>\<open>tskey\<close>, the crate roots, and the sockets
  and HTTP client under the smoke test. What is left of the source is module declarations, imports, attributes
  and log lines: nothing more of it can be translated, and what could be added is other environments for the same
  definitions: a foreign writer of the snapshot, loads in parallel with overlapping flushes, where a torn
  file may be parsed, and the HTTP/2 streams of one connection, which hyper runs.
\<close>


subsection \<open>From the builder to the tunnel\<close>

text \<open>
  C36. The key pair is one and the same from the builder to the tunnel: whatever calls configured the
  server, the key that \<^verbatim>\<open>GET /key\<close> advertises, to every request alike, is the public half of the pair
  whose private half every open tunnel of that server was negotiated with, and it is what
  \<^verbatim>\<open>server_public_key\<close> returns.
\<close>

theorem advertised_key_opens_the_tunnel:
  assumes "build fresh (fold apply_call calls builder_new) = Inr cs"
    and "conn_steps to_str (server_state_new (cs_server_key cs) (cs_store cs)) E (Received req) (Tunnel a)"
  shows "\<exists>k h s s'. k = unwrap_or fresh (last_set key_set None calls)
    \<and> accept (ce_noise E) (ce_socket E) (ce_framed E) (ce_random E) s (private_half k) h = Some (Inr a, s')
    \<and> body (get_key K (server_state_new (cs_server_key cs) (cs_store cs)) any)
        = JsonBody \<lparr>legacy_public_key = mkey_default K, public_key = public_half k\<rparr>
    \<and> server_public_key cs = public_half k"
proof -
  let ?st = "server_state_new (cs_server_key cs) (cs_store cs)"
  have k: "cs_server_key cs = unwrap_or fresh (last_set key_set None calls)"
    using assms(1) fold_calls(3) [of calls builder_new]
    by (auto simp: build_def and_then_eq_Inr builder_new_def)
  have "conn_ok to_str ?st E req (Tunnel a)" using conn_ok_steps [OF assms(2)] by simp
  then obtain task s s' where "upgrade_task to_str ?st req task"
    and acc: "accept (ce_noise E) (ce_socket E) (ce_framed E) (ce_random E) s
        (private_half (task_key task)) (task_init_b64 task) = Some (Inr a, s')"
    by (auto simp: tunnel_open_def)
  then have "task_key task = cs_server_key cs" by (simp add: upgrade_task_iff server_state_new_def)
  with acc k show ?thesis
    by (intro exI [of _ "cs_server_key cs"] exI [of _ "task_init_b64 task"] exI [of _ s] exI [of _ s'])
      (simp add: get_key_def over_tls_new_def server_state_new_def server_public_key_def)
qed

theorem advertised_key_opens_the_tunnel_witness:
  "\<exists>cs :: unit control_server.
     build \<lparr>private_half = [], public_half = []\<rparr>
       (fold apply_call [CallMemoryStore, CallServerKey toy_key] builder_new) = Inr cs
     \<and> server_public_key cs = public_half toy_key"
proof -
  let ?cs = "\<lparr>cs_store = MemoryBackend memory_new, cs_listen = default_listen, cs_server_key = toy_key,
      cs_tenant_routing = routing_default\<rparr> :: unit control_server"
  let ?st = "server_state_new (cs_server_key ?cs) (cs_store ?cs)"
  have b: "build \<lparr>private_half = [], public_half = []\<rparr>
      (fold apply_call [CallMemoryStore, CallServerKey toy_key] builder_new) = Inr ?cs"
    by (simp add: build_def builder_new_def builder_memory_store_def builder_server_key_def unwrap_or_def)
  have "conn_steps ascii_header ?st toy_env (Received toy_request) (Tunnel toy_tunnel)"
    by (rule toy_connection_tunnel) (simp add: server_state_new_def)
  from advertised_key_opens_the_tunnel [OF b this, of hex_keys toy_request] b show ?thesis
    by (auto simp: unwrap_or_def)
qed

end
